(* ===== verification/Abc_Prelude.thy ===== *)
theory Abc_Prelude
  imports
    Main
    "HOL-Library.Word"
    "HOL-Library.AList"
    "HOL-Library.Option_ord"
    "HOL-Library.Multiset"
    "HOL-Library.Monad_Syntax"
begin

text \<open>
  Shared vocabulary of the development.

  \<^item> Machine integers: \<open>u64\<close> is a 64-bit word, so \<open>+\<close> and \<open>-\<close> wrap, as the release profile
    of the workspace compiles them (\<^verbatim>\<open>overflow-checks = false\<close> in \<^verbatim>\<open>Cargo.toml\<close>). Lengths of
    collections are \<open>nat\<close>; a \<open>u64\<close> bound is compared with a length through \<^const>\<open>unat\<close>.
  \<^item> Panics: a function that can panic (\<open>assert!\<close>, \<open>unwrap\<close>, an index out of range,
    \<open>unreachable!\<close>) returns an \<open>option\<close>, and \<open>None\<close> is the panic.
  \<^item> \<open>HashMap\<close> and \<open>HashSet\<close>: association lists and lists without repetition. The iteration
    order of the standard library's tables is unspecified; the list order stands for one such
    order, and the lemmas speak of keys, of lookups and of multisets of entries.
  \<^item> \<open>BTreeMap\<close>: association lists sorted by key. \<open>BinaryHeap\<close> of minimum first: lists sorted
    by the key the heap compares.
\<close>

section \<open>Types\<close>

type_synonym u64 = "64 word"
type_synonym byte = "8 word"
type_synonym bytes = "8 word list"
type_synonym ('k, 'v) hash_map = "('k \<times> 'v) list"
type_synonym 'a hash_set = "'a list"
type_synonym ('k, 'v) btree_map = "('k \<times> 'v) list"

named_theorems hm_simps \<open>lookups and key sets of hash maps\<close>
named_theorems heap_simps \<open>sorted-list model of binary heaps\<close>
named_theorems u64_simps \<open>unsigned 64-bit arithmetic read as natural numbers\<close>

definition u64_max :: nat where
  "u64_max = 2 ^ 64 - 1"

definition to_le_bytes :: "u64 \<Rightarrow> bytes" where
  "to_le_bytes w = map (\<lambda>i. ucast (drop_bit (8 * i) w)) [0..<8]"

definition to_be_bytes :: "u64 \<Rightarrow> bytes" where
  "to_be_bytes w = rev (to_le_bytes w)"

section \<open>Panics\<close>

definition rust_assert :: "bool \<Rightarrow> unit option" where
  "rust_assert b = (if b then Some () else None)"

definition index_vec :: "'a list \<Rightarrow> nat \<Rightarrow> 'a option" where
  "index_vec xs i = (if i < length xs then Some (xs ! i) else None)"

text \<open>A \<open>for\<close> loop whose body can panic.\<close>

fun fold_opt :: "('a \<Rightarrow> 's \<Rightarrow> 's option) \<Rightarrow> 'a list \<Rightarrow> 's \<Rightarrow> 's option" where
  "fold_opt f [] s = Some s"
| "fold_opt f (x # xs) s = do { s \<leftarrow> f x s; fold_opt f xs s }"

section \<open>Hash maps and hash sets\<close>

abbreviation hm_get :: "('k, 'v) hash_map \<Rightarrow> 'k \<Rightarrow> 'v option" where
  "hm_get m k \<equiv> map_of m k"

abbreviation hm_insert :: "'k \<Rightarrow> 'v \<Rightarrow> ('k, 'v) hash_map \<Rightarrow> ('k, 'v) hash_map" where
  "hm_insert k v m \<equiv> AList.update k v m"

abbreviation hm_remove :: "'k \<Rightarrow> ('k, 'v) hash_map \<Rightarrow> ('k, 'v) hash_map" where
  "hm_remove k m \<equiv> AList.delete k m"

abbreviation hm_keys :: "('k, 'v) hash_map \<Rightarrow> 'k list" where
  "hm_keys m \<equiv> map fst m"

abbreviation hm_values :: "('k, 'v) hash_map \<Rightarrow> 'v list" where
  "hm_values m \<equiv> map snd m"

abbreviation hm_wf :: "('k, 'v) hash_map \<Rightarrow> bool" where
  "hm_wf m \<equiv> distinct (map fst m)"

definition hm_contains :: "('k, 'v) hash_map \<Rightarrow> 'k \<Rightarrow> bool" where
  "hm_contains m k = (map_of m k \<noteq> None)"

definition hm_retain :: "('k \<Rightarrow> 'v \<Rightarrow> bool) \<Rightarrow> ('k, 'v) hash_map \<Rightarrow> ('k, 'v) hash_map" where
  "hm_retain P m = filter (\<lambda>(k, v). P k v) m"

abbreviation hs_insert :: "'a \<Rightarrow> 'a hash_set \<Rightarrow> 'a hash_set" where
  "hs_insert x s \<equiv> List.insert x s"

section \<open>Ordered maps and heaps\<close>

fun bt_insert :: "'k::linorder \<Rightarrow> 'v \<Rightarrow> ('k, 'v) btree_map \<Rightarrow> ('k, 'v) btree_map" where
  "bt_insert k v [] = [(k, v)]"
| "bt_insert k v ((k', v') # m) =
     (if k < k' then (k, v) # (k', v') # m
      else if k = k' then (k, v) # m
      else (k', v') # bt_insert k v m)"

definition heap_push :: "('a \<Rightarrow> 'k::linorder) \<Rightarrow> 'a \<Rightarrow> 'a list \<Rightarrow> 'a list" where
  "heap_push f x h = insort_key f x h"

definition heap_peek :: "'a list \<Rightarrow> 'a option" where
  "heap_peek h = (case h of [] \<Rightarrow> None | x # _ \<Rightarrow> Some x)"

definition heap_pop :: "'a list \<Rightarrow> ('a \<times> 'a list) option" where
  "heap_pop h = (case h of [] \<Rightarrow> None | x # xs \<Rightarrow> Some (x, xs))"

abbreviation heap_wf :: "('a \<Rightarrow> 'k::linorder) \<Rightarrow> 'a list \<Rightarrow> bool" where
  "heap_wf f h \<equiv> sorted (map f h)"

section \<open>Lemmas\<close>

subsection \<open>Machine integers\<close>

lemma unat_add_one [u64_simps]: "w \<noteq> - 1 \<Longrightarrow> unat (w + 1) = Suc (unat w)" for w :: "'a::len word"
  using unatSuc [of w] by (simp add: add_eq_0_iff add.commute)

lemma u64_less_unat [u64_simps]: "(a < b) = (unat a < unat b)" for a b :: "'a::len word"
  by (rule word_less_nat_alt)

lemma less_u64_max: "k \<le> u64_max \<longleftrightarrow> k < 2 ^ 64"
  by (auto simp: u64_max_def)

lemma of_nat_u64_max: "of_nat u64_max = (- 1 :: u64)"
  by (simp add: u64_max_def)

lemma unat_of_nat_u64: "k \<le> u64_max \<Longrightarrow> unat (of_nat k :: u64) = k"
  by (simp add: unat_of_nat less_u64_max)

lemma unat_max_u64: "unat (- 1 :: u64) = u64_max"
  using unat_of_nat_u64 [of u64_max] by (simp add: of_nat_u64_max)

lemma u64_less_not_max: "a < b \<Longrightarrow> a \<noteq> - 1" for a b :: "'a::len word"
  by (metis word_n1_ge leD)

lemma unat_add_one_less [u64_simps]: "a < b \<Longrightarrow> unat (a + 1) = Suc (unat a)" for a b :: "'a::len word"
  by (rule unat_add_one) (rule u64_less_not_max)

subsection \<open>Options\<close>

lemma rust_assert_Some [simp]: "rust_assert b = Some u \<longleftrightarrow> b"
  by (simp add: rust_assert_def)

lemma index_vec_Some [simp]: "index_vec xs i = Some x \<longleftrightarrow> i < length xs \<and> xs ! i = x"
  by (auto simp: index_vec_def)

lemma index_vec_None [simp]: "index_vec xs i = None \<longleftrightarrow> length xs \<le> i"
  by (auto simp: index_vec_def)

lemma fold_opt_append: "fold_opt f (xs @ ys) s = Option.bind (fold_opt f xs s) (fold_opt f ys)"
  by (induction xs arbitrary: s) (auto split: Option.bind_splits)

lemma fold_opt_invariant:
  assumes "\<And>x s s'. x \<in> set xs \<Longrightarrow> I s \<Longrightarrow> f x s = Some s' \<Longrightarrow> I s'"
  shows "I s \<Longrightarrow> fold_opt f xs s = Some s' \<Longrightarrow> I s'"
  using assms
proof (induction xs arbitrary: s)
  case (Cons x xs)
  then obtain s1 where s1: "f x s = Some s1" "fold_opt f xs s1 = Some s'" by (auto split: Option.bind_splits)
  have "I s1" using Cons.prems(3) [OF _ Cons.prems(1) s1(1)] by simp
  then show ?case
  proof (rule Cons.IH [OF _ s1(2)])
    fix y t t' assume "y \<in> set xs" "I t" "f y t = Some t'"
    then show "I t'" using Cons.prems(3) [of y t t'] by simp
  qed
qed simp

lemma fold_opt_total:
  assumes "\<And>x s. x \<in> set xs \<Longrightarrow> I s \<Longrightarrow> \<exists>s'. f x s = Some s' \<and> I s'"
  shows "I s \<Longrightarrow> \<exists>s'. fold_opt f xs s = Some s' \<and> I s'"
  using assms
proof (induction xs arbitrary: s)
  case (Cons x xs)
  then obtain s1 where "f x s = Some s1" "I s1" by fastforce
  with Cons.IH [OF this(2)] Cons.prems(2) show ?case by simp
qed simp

subsection \<open>Hash maps\<close>

lemma hm_get_insert [hm_simps, simp]:
  "hm_get (hm_insert k v m) k' = (if k' = k then Some v else hm_get m k')"
  by (simp add: update_conv)

lemma hm_get_remove [hm_simps, simp]:
  "hm_get (hm_remove k m) k' = (if k' = k then None else hm_get m k')"
  by (simp add: delete_conv')

lemma hm_wf_insert [hm_simps, simp]: "hm_wf m \<Longrightarrow> hm_wf (hm_insert k v m)"
  by (rule distinct_update)

lemma hm_wf_remove [hm_simps, simp]: "hm_wf m \<Longrightarrow> hm_wf (hm_remove k m)"
  by (rule distinct_delete)

lemma hm_wf_retain [hm_simps, simp]: "hm_wf m \<Longrightarrow> hm_wf (hm_retain P m)"
  by (simp add: hm_retain_def distinct_map_filter)

lemma hm_get_retain [hm_simps]:
  "hm_wf m \<Longrightarrow> hm_get (hm_retain P m) k =
     (case hm_get m k of None \<Rightarrow> None | Some v \<Rightarrow> if P k v then Some v else None)"
  by (induction m) (auto simp: hm_retain_def map_of_eq_None_iff split: option.splits)

lemma hm_keys_insert [hm_simps]: "set (hm_keys (hm_insert k v m)) = insert k (set (hm_keys m))"
  by (simp add: dom_update)

lemma hm_length_insert [hm_simps]:
  "length (hm_insert k v m) = (if k \<in> set (hm_keys m) then length m else Suc (length m))"
  by (induction m) auto

lemma hm_get_Some_iff: "hm_wf m \<Longrightarrow> hm_get m k = Some v \<longleftrightarrow> (k, v) \<in> set m"
  by (metis map_of_is_SomeI map_of_SomeD)

lemma hm_contains_iff [simp]: "hm_contains m k \<longleftrightarrow> k \<in> set (hm_keys m)"
  by (simp add: hm_contains_def map_of_eq_None_iff)

lemma hm_card_keys: "hm_wf m \<Longrightarrow> card (set (hm_keys m)) = length m"
  by (metis distinct_card length_map)

subsection \<open>Byte encodings\<close>

lemma length_to_le_bytes [simp]: "length (to_le_bytes w) = 8"
  by (simp add: to_le_bytes_def)

lemma length_to_be_bytes [simp]: "length (to_be_bytes w) = 8"
  by (simp add: to_be_bytes_def)

lemma to_le_bytes_inject [simp]: "to_le_bytes v = to_le_bytes w \<longleftrightarrow> v = w"
proof
  assume eq: "to_le_bytes v = to_le_bytes w"
  show "v = w"
  proof (rule bit_word_eqI)
    fix n
    assume "n < LENGTH(64)"
    then have i: "n div 8 < 8" by simp
    have "to_le_bytes v ! (n div 8) = to_le_bytes w ! (n div 8)" using eq by simp
    then have "ucast (drop_bit (8 * (n div 8)) v) = (ucast (drop_bit (8 * (n div 8)) w) :: byte)"
      using i by (simp add: to_le_bytes_def)
    then have "bit (ucast (drop_bit (8 * (n div 8)) v) :: byte) (n mod 8) =
        bit (ucast (drop_bit (8 * (n div 8)) w) :: byte) (n mod 8)" by simp
    then show "bit v n = bit w n" by (simp add: bit_ucast_iff bit_drop_bit_eq)
  qed
qed auto

lemma to_be_bytes_inject [simp]: "to_be_bytes v = to_be_bytes w \<longleftrightarrow> v = w"
  by (simp add: to_be_bytes_def)

subsection \<open>Heaps\<close>

lemma heap_push_wf [heap_simps, simp]: "heap_wf f h \<Longrightarrow> heap_wf f (heap_push f x h)"
  by (simp add: heap_push_def sorted_insort_key)

lemma mset_heap_push [heap_simps, simp]: "mset (heap_push f x h) = add_mset x (mset h)"
  by (simp add: heap_push_def)

lemma set_heap_push [heap_simps, simp]: "set (heap_push f x h) = insert x (set h)"
  by (simp add: heap_push_def set_insort_key)

lemma length_heap_push [heap_simps, simp]: "length (heap_push f x h) = Suc (length h)"
  by (simp add: heap_push_def)

lemma heap_pop_None [heap_simps, simp]: "heap_pop h = None \<longleftrightarrow> h = []"
  by (simp add: heap_pop_def split: list.splits)

lemma heap_pop_Some [heap_simps, simp]: "heap_pop h = Some (x, h') \<longleftrightarrow> h = x # h'"
  by (auto simp: heap_pop_def split: list.splits)

lemma upt_append: "i \<le> j \<Longrightarrow> j \<le> k \<Longrightarrow> [i..<j] @ [j..<k] = [i..<k]"
  using upt_add_eq_append [of i j "k - j"] by simp

end
