(* ===== verification/Shared_Ids.thy ===== *)
theory Shared_Ids
  imports Abc_Prelude
begin

text \<open>
  The identifiers of \<^verbatim>\<open>other/shared-ids\<close>: the \<^verbatim>\<open>id_type!\<close> newtypes over \<^verbatim>\<open>u64\<close>
  (\<open>ClientId\<close>, \<open>RequestId\<close>, \<open>ReplicaId\<close>) with their checked arithmetic, the iterator \<open>IdIter\<close>
  that enumerates identifiers, and \<open>IdMap\<close>, the vector indexed by an identifier.
\<close>

type_synonym client_id = u64
type_synonym request_id = u64
type_synonym replica_id = u64

section \<open>Arithmetic on identifiers\<close>

definition id_checked_add :: "u64 \<Rightarrow> u64 \<Rightarrow> u64 option" where
  "id_checked_add a b = (if unat a + unat b < 2 ^ 64 then Some (a + b) else None)"

definition id_checked_sub :: "u64 \<Rightarrow> u64 \<Rightarrow> u64 option" where
  "id_checked_sub a b = (if b \<le> a then Some (a - b) else None)"

section \<open>IdIter\<close>

record id_iter =
  iter_next :: u64

definition id_iter_default :: id_iter where
  "id_iter_default = \<lparr>iter_next = 0\<rparr>"

definition id_iter_step :: "id_iter \<Rightarrow> u64 option \<times> id_iter" where
  "id_iter_step it =
     (let ret = iter_next it in
      case id_checked_add (iter_next it) 1 of
        None \<Rightarrow> (None, it)
      | Some nxt \<Rightarrow> (Some ret, it\<lparr>iter_next := nxt\<rparr>))"

fun id_iter_take :: "nat \<Rightarrow> id_iter \<Rightarrow> u64 list" where
  "id_iter_take 0 it = []"
| "id_iter_take (Suc k) it =
     (case id_iter_step it of
        (None, _) \<Rightarrow> []
      | (Some i, it') \<Rightarrow> i # id_iter_take k it')"

section \<open>IdMap\<close>

record 'a id_map =
  id_data :: "'a list"

definition id_map_new :: "'a \<Rightarrow> u64 \<Rightarrow> 'a id_map" where
  "id_map_new dflt sz = \<lparr>id_data = replicate (unat sz) dflt\<rparr>"

definition id_map_iter :: "'a id_map \<Rightarrow> (u64 \<times> 'a) list" where
  "id_map_iter m = zip (id_iter_take (length (id_data m)) id_iter_default) (id_data m)"

definition id_map_index :: "'a id_map \<Rightarrow> u64 \<Rightarrow> 'a option" where
  "id_map_index m i = index_vec (id_data m) (unat i)"

definition id_map_index_mut :: "'a id_map \<Rightarrow> u64 \<Rightarrow> 'a \<Rightarrow> 'a id_map option" where
  "id_map_index_mut m i v =
     (if unat i < length (id_data m) then Some (m\<lparr>id_data := (id_data m)[unat i := v]\<rparr>) else None)"

fun some_entries :: "('i \<times> 'a option) list \<Rightarrow> ('i \<times> 'a) list" where
  "some_entries [] = []"
| "some_entries ((i, None) # xs) = some_entries xs"
| "some_entries ((i, Some x) # xs) = (i, x) # some_entries xs"

definition id_map_iter_some :: "'a option id_map \<Rightarrow> (u64 \<times> 'a) list" where
  "id_map_iter_some m = some_entries (id_map_iter m)"

definition id_map_values_some :: "'a option id_map \<Rightarrow> 'a list" where
  "id_map_values_some m = map the (filter (\<lambda>opt. opt \<noteq> None) (id_data m))"

definition id_map_keys_some :: "'a option id_map \<Rightarrow> u64 list" where
  "id_map_keys_some m = map fst (id_map_iter_some m)"

definition id_map_clear_some :: "'a option id_map \<Rightarrow> 'a option id_map" where
  "id_map_clear_some m = m\<lparr>id_data := map (\<lambda>_. None) (id_data m)\<rparr>"

definition id_map_drain_lazy_some :: "'a option id_map \<Rightarrow> (u64 \<times> 'a) list \<times> 'a option id_map" where
  "id_map_drain_lazy_some m = (id_map_iter_some m, m\<lparr>id_data := map (\<lambda>_. None) (id_data m)\<rparr>)"

section \<open>Lemmas\<close>

lemma id_checked_add_Some:
  "id_checked_add a b = Some c \<Longrightarrow> unat c = unat a + unat b"
  by (auto simp: id_checked_add_def unat_word_ariths split: if_splits)

lemma id_checked_add_one:
  "k < u64_max \<Longrightarrow> id_checked_add (of_nat k) 1 = Some (of_nat (Suc k))"
  using less_u64_max [of "Suc k"] by (simp add: id_checked_add_def unat_of_nat_u64 add.commute)

lemma id_iter_step_of_nat:
  "k < u64_max \<Longrightarrow>
     id_iter_step \<lparr>iter_next = of_nat k\<rparr> = (Some (of_nat k), \<lparr>iter_next = of_nat (Suc k)\<rparr>)"
  by (simp add: id_iter_step_def id_checked_add_one del: of_nat_Suc)

lemma id_iter_step_end: "id_iter_step \<lparr>iter_next = of_nat u64_max\<rparr> = (None, \<lparr>iter_next = of_nat u64_max\<rparr>)"
  by (simp add: id_iter_step_def id_checked_add_def of_nat_u64_max unat_max_u64 u64_max_def)

lemma id_iter_take_from:
  "i \<le> u64_max \<Longrightarrow> id_iter_take k \<lparr>iter_next = of_nat i\<rparr> = map of_nat [i..<min (i + k) u64_max]"
proof (induction k arbitrary: i)
  case 0
  then show ?case by simp
next
  case (Suc k)
  show ?case
  proof (cases "i < u64_max")
    case True
    then have "id_iter_take (Suc k) \<lparr>iter_next = of_nat i\<rparr> =
        of_nat i # map of_nat [Suc i..<min (Suc i + k) u64_max]"
      using Suc.IH [of "Suc i"] by (simp add: id_iter_step_of_nat del: of_nat_Suc)
    also have "\<dots> = map of_nat [i..<min (i + Suc k) u64_max]"
      using True by (simp add: upt_conv_Cons)
    finally show ?thesis .
  next
    case False
    with Suc.prems have "i = u64_max" by simp
    then show ?thesis using id_iter_step_end by simp
  qed
qed

lemma id_iter_take_default:
  "id_iter_take k id_iter_default = map of_nat [0..<min k u64_max]"
  using id_iter_take_from [of 0 k] by (simp add: id_iter_default_def)

lemma zip_map_upt: "zip (map f [0..<length xs]) xs = map (\<lambda>k. (f k, xs ! k)) [0..<length xs]"
  by (rule nth_equalityI) auto

lemma id_map_iter_eq:
  "length (id_data m) \<le> u64_max \<Longrightarrow>
     id_map_iter m = map (\<lambda>k. (of_nat k, id_data m ! k)) [0..<length (id_data m)]"
  by (simp add: id_map_iter_def id_iter_take_default min_absorb1 zip_map_upt)

lemma set_id_map_iter:
  assumes "length (id_data m) \<le> u64_max"
  shows "(i, x) \<in> set (id_map_iter m) \<longleftrightarrow> id_map_index m i = Some x"
proof
  assume "(i, x) \<in> set (id_map_iter m)"
  then show "id_map_index m i = Some x"
    using assms by (auto simp: id_map_iter_eq id_map_index_def unat_of_nat_u64)
next
  assume "id_map_index m i = Some x"
  then have "(i, x) = (\<lambda>k. (of_nat k, id_data m ! k)) (unat i)" "unat i < length (id_data m)"
    by (auto simp: id_map_index_def)
  then show "(i, x) \<in> set (id_map_iter m)"
    using assms by (simp only: id_map_iter_eq set_map set_upt) (rule imageI, simp)
qed

lemma distinct_id_map_iter:
  assumes "length (id_data m) \<le> u64_max"
  shows "distinct (map fst (id_map_iter m))"
proof -
  have "inj_on (of_nat :: nat \<Rightarrow> u64) {0..<length (id_data m)}"
    using assms by (intro inj_on_inverseI [of _ unat]) (simp add: unat_of_nat_u64)
  then show ?thesis
    using assms by (simp add: id_map_iter_eq distinct_map comp_def)
qed

lemma in_some_entries: "(i, x) \<in> set (some_entries xs) \<longleftrightarrow> (i, Some x) \<in> set xs"
  by (induction xs rule: some_entries.induct) auto

lemma distinct_some_entries: "distinct (map fst xs) \<Longrightarrow> distinct (map fst (some_entries xs))"
proof (induction xs rule: some_entries.induct)
  case (3 i x xs)
  then have "(i, y) \<notin> set (some_entries xs)" for y
    by (auto simp: in_some_entries image_iff)
  with 3 show ?case by (auto simp: image_iff)
qed auto

text \<open>
  Claim C3: \<open>IdIter\<close> enumerates the identifiers \<open>0, 1, 2, \<dots>\<close> without gap or repetition, and it
  ends before \<open>u64::MAX\<close> instead of wrapping around: asking for \<open>k\<close> identifiers yields the first
  \<open>min k u64::MAX\<close> of them.
\<close>
theorem id_iter_enumerates:
  "id_iter_take k id_iter_default = map of_nat [0..<min k u64_max]"
  by (rule id_iter_take_default)

text \<open>
  : draining an \<open>IdMap\<close> of options yields every occupied slot exactly once, with the
  identifier under which an index finds it, and leaves every slot empty.
\<close>
theorem id_map_drain_complete:
  assumes "length (id_data m) \<le> u64_max"
  shows "set (fst (id_map_drain_lazy_some m)) = {(i, x). id_map_index m i = Some (Some x)} \<and>
    distinct (map fst (fst (id_map_drain_lazy_some m))) \<and>
    id_map_index (snd (id_map_drain_lazy_some m)) i =
      (if unat i < length (id_data m) then Some None else None)"
proof (intro conjI)
  have "(i, x) \<in> set (id_map_iter_some m) \<longleftrightarrow> (i, Some x) \<in> set (id_map_iter m)" for i x
    by (simp only: id_map_iter_some_def in_some_entries)
  then show "set (fst (id_map_drain_lazy_some m)) = {(i, x). id_map_index m i = Some (Some x)}"
    using set_id_map_iter [OF assms] by (auto simp: id_map_drain_lazy_some_def)
  show "distinct (map fst (fst (id_map_drain_lazy_some m)))"
    using distinct_id_map_iter [OF assms]
    by (simp add: id_map_drain_lazy_some_def id_map_iter_some_def distinct_some_entries)
  show "id_map_index (snd (id_map_drain_lazy_some m)) i =
           (if unat i < length (id_data m) then Some None else None)"
    by (simp add: id_map_drain_lazy_some_def id_map_index_def index_vec_def)
qed

theorem id_map_drain_complete_witness:
  "length (id_data \<lparr>id_data = [Some True, None, Some False]\<rparr>) \<le> u64_max \<and>
   set (fst (id_map_drain_lazy_some \<lparr>id_data = [Some True, None, Some False]\<rparr>)) =
     {(i, x). id_map_index \<lparr>id_data = [Some True, None, Some False]\<rparr> i = Some (Some x)}"
proof -
  have "length (id_data \<lparr>id_data = [Some True, None, Some False]\<rparr>) \<le> u64_max"
    by (simp add: u64_max_def)
  with id_map_drain_complete [OF this] show ?thesis by blast
qed

end
