(* ===== verification/Heaps_Model.thy ===== *)
theory Heaps_Model
  imports Abc_Prelude
begin

text \<open>
  The collections of \<^verbatim>\<open>other/heaps\<close>: \<open>HeapBuffer\<close> (a minimum-first heap that remembers the keys
  it holds), \<open>CursoredHeap\<close> with its \<open>Cursor\<close> (an ascending sweep over the heap that may remove
  elements), and \<open>PendingClientRequests\<close> (a queue of transactions cut into blocks). The key of an
  element (trait \<open>Keyable\<close>) is the parameter \<open>key\<close>.

  The interface of a keyed minimum queue is the locale \<open>keyed_min_queue\<close>; both heaps are
  interpretations of it.
\<close>

section \<open>HeapBuffer\<close>

record ('v, 'k) heap_buffer =
  hb_buffer :: "'v list"
  hb_known :: "'k hash_set"

definition hb_default :: "('v, 'k) heap_buffer" where
  "hb_default = \<lparr>hb_buffer = [], hb_known = []\<rparr>"

definition hb_peek :: "('v, 'k) heap_buffer \<Rightarrow> 'v option" where
  "hb_peek b = heap_peek (hb_buffer b)"

definition hb_knows_key :: "('v, 'k) heap_buffer \<Rightarrow> 'k \<Rightarrow> bool" where
  "hb_knows_key b k = (k \<in> set (hb_known b))"

definition hb_knows :: "('v \<Rightarrow> 'k) \<Rightarrow> ('v, 'k) heap_buffer \<Rightarrow> 'v \<Rightarrow> bool" where
  "hb_knows key b v = hb_knows_key b (key v)"

definition hb_clear :: "('v, 'k) heap_buffer \<Rightarrow> ('v, 'k) heap_buffer" where
  "hb_clear b = b\<lparr>hb_buffer := [], hb_known := []\<rparr>"

definition hb_find_by_key :: "('v \<Rightarrow> 'k) \<Rightarrow> ('v, 'k) heap_buffer \<Rightarrow> 'k \<Rightarrow> 'v option" where
  "hb_find_by_key key b k = List.find (\<lambda>v. key v = k) (hb_buffer b)"

definition hb_insert :: "('v \<Rightarrow> 'k::linorder) \<Rightarrow> 'v \<Rightarrow> ('v, 'k) heap_buffer \<Rightarrow> ('v, 'k) heap_buffer" where
  "hb_insert key v b =
     b\<lparr>hb_known := hs_insert (key v) (hb_known b), hb_buffer := heap_push key v (hb_buffer b)\<rparr>"

definition hb_pop :: "('v \<Rightarrow> 'k) \<Rightarrow> ('v, 'k) heap_buffer \<Rightarrow> ('v \<times> ('v, 'k) heap_buffer) option" where
  "hb_pop key b =
     (case heap_pop (hb_buffer b) of
        None \<Rightarrow> None
      | Some (v, h) \<Rightarrow> Some (v, b\<lparr>hb_buffer := h, hb_known := removeAll (key v) (hb_known b)\<rparr>))"

fun hb_pops :: "('v \<Rightarrow> 'k) \<Rightarrow> nat \<Rightarrow> ('v, 'k) heap_buffer \<Rightarrow> 'v list" where
  "hb_pops key 0 b = []"
| "hb_pops key (Suc n) b = (case hb_pop key b of None \<Rightarrow> [] | Some (v, b') \<Rightarrow> v # hb_pops key n b')"

section \<open>CursoredHeap and Cursor\<close>

record ('v, 'k) cursored_heap =
  ch_heap :: "'v list"
  ch_known :: "'k hash_set"

record ('v, 'k) cursor =
  cur_current :: "'v option"
  cur_heap :: "('v, 'k) cursored_heap"
  cur_kept :: "'v list"
  cur_kept_set :: "'k hash_set"

definition ch_default :: "('v, 'k) cursored_heap" where
  "ch_default = \<lparr>ch_heap = [], ch_known = []\<rparr>"

definition ch_insert :: "('v \<Rightarrow> 'k::linorder) \<Rightarrow> 'v \<Rightarrow> ('v, 'k) cursored_heap \<Rightarrow> ('v, 'k) cursored_heap" where
  "ch_insert key v h =
     h\<lparr>ch_known := hs_insert (key v) (ch_known h), ch_heap := heap_push key v (ch_heap h)\<rparr>"

definition ch_len :: "('v, 'k) cursored_heap \<Rightarrow> nat" where
  "ch_len h = length (ch_heap h)"

definition ch_is_empty :: "('v, 'k) cursored_heap \<Rightarrow> bool" where
  "ch_is_empty h = (ch_heap h = [])"

definition ch_knows_key :: "('v, 'k) cursored_heap \<Rightarrow> 'k \<Rightarrow> bool" where
  "ch_knows_key h k = (k \<in> set (ch_known h))"

definition ch_knows :: "('v \<Rightarrow> 'k) \<Rightarrow> ('v, 'k) cursored_heap \<Rightarrow> 'v \<Rightarrow> bool" where
  "ch_knows key h v = ch_knows_key h (key v)"

definition ch_cursor :: "('v, 'k) cursored_heap \<Rightarrow> ('v, 'k) cursor" where
  "ch_cursor h = \<lparr>cur_current = None, cur_heap = h, cur_kept = [], cur_kept_set = []\<rparr>"

definition cursor_keep :: "('v \<Rightarrow> 'k) \<Rightarrow> ('v, 'k) cursor \<Rightarrow> ('v, 'k) cursor option" where
  "cursor_keep key c =
     (case cur_current c of
        None \<Rightarrow> None
      | Some v \<Rightarrow> Some (c\<lparr>cur_current := None,
          cur_kept_set := hs_insert (key v) (cur_kept_set c), cur_kept := cur_kept c @ [v]\<rparr>))"

definition cursor_advance ::
    "('v \<Rightarrow> 'k) \<Rightarrow> ('v, 'k) cursor \<Rightarrow> ('v option \<times> ('v, 'k) cursor) option" where
  "cursor_advance key c =
     do {
       c \<leftarrow> (if cur_current c \<noteq> None then cursor_keep key c else Some c);
       Some (case heap_pop (ch_heap (cur_heap c)) of
         None \<Rightarrow> (None, c\<lparr>cur_current := None\<rparr>)
       | Some (v, h) \<Rightarrow>
           (Some v, c\<lparr>cur_current := Some v, cur_heap := (cur_heap c)\<lparr>ch_heap := h\<rparr>\<rparr>))
     }"

definition cursor_remove :: "('v, 'k) cursor \<Rightarrow> ('v \<times> ('v, 'k) cursor) option" where
  "cursor_remove c =
     (case cur_current c of
        None \<Rightarrow> None
      | Some v \<Rightarrow> Some (v, c\<lparr>cur_current := None\<rparr>))"

fun cursor_advance_all :: "nat \<Rightarrow> ('v \<Rightarrow> 'k) \<Rightarrow> ('v, 'k) cursor \<Rightarrow> ('v, 'k) cursor option" where
  "cursor_advance_all 0 key c = None"
| "cursor_advance_all (Suc fuel) key c =
     (case cursor_advance key c of
        None \<Rightarrow> None
      | Some (None, c') \<Rightarrow> Some c'
      | Some (Some v, c') \<Rightarrow> cursor_advance_all fuel key c')"

definition cursor_finalize ::
    "('v \<Rightarrow> 'k::linorder) \<Rightarrow> ('v, 'k) cursor \<Rightarrow> ('v, 'k) cursored_heap option" where
  "cursor_finalize key c =
     do {
       c \<leftarrow> cursor_advance_all (Suc (length (ch_heap (cur_heap c)))) key c;
       let h = (cur_heap c)\<lparr>ch_heap := sort_key key (rev (cur_kept c)), ch_known := cur_kept_set c\<rparr>;
       Some h
     }"

text \<open>
  The sweep that the users of a cursor run: advance over the whole heap and remove what satisfies
  \<open>P\<close>, then finalize.
\<close>

fun cursor_sweep :: "nat \<Rightarrow> ('v \<Rightarrow> 'k) \<Rightarrow> ('v \<Rightarrow> bool) \<Rightarrow> ('v, 'k) cursor \<Rightarrow> ('v list \<times> ('v, 'k) cursor) option" where
  "cursor_sweep 0 key P c = None"
| "cursor_sweep (Suc fuel) key P c =
     (case cursor_advance key c of
        None \<Rightarrow> None
      | Some (None, c') \<Rightarrow> Some ([], c')
      | Some (Some v, c') \<Rightarrow>
          if P v
          then (case cursor_remove c' of
                  None \<Rightarrow> None
                | Some (w, c'') \<Rightarrow> map_option (\<lambda>(ws, d). (w # ws, d)) (cursor_sweep fuel key P c''))
          else cursor_sweep fuel key P c')"

definition ch_extract ::
    "('v \<Rightarrow> 'k::linorder) \<Rightarrow> ('v \<Rightarrow> bool) \<Rightarrow> ('v, 'k) cursored_heap \<Rightarrow> ('v list \<times> ('v, 'k) cursored_heap) option" where
  "ch_extract key P h =
     do {
       (removed, c) \<leftarrow> cursor_sweep (Suc (length (ch_heap h))) key P (ch_cursor h);
       h' \<leftarrow> cursor_finalize key c;
       Some (removed, h')
     }"

section \<open>PendingClientRequests\<close>

record 'tx pending_client_requests =
  pcr_blocks :: "'tx list list"
  pcr_maximum_block_size :: nat

definition pcr_new :: "nat \<Rightarrow> 'tx pending_client_requests" where
  "pcr_new m = \<lparr>pcr_blocks = [], pcr_maximum_block_size = m\<rparr>"

definition pcr_copy_front :: "'tx pending_client_requests \<Rightarrow> 'tx list" where
  "pcr_copy_front p = (case pcr_blocks p of [] \<Rightarrow> [] | b # _ \<Rightarrow> b)"

definition pcr_pop_front :: "'tx pending_client_requests \<Rightarrow> 'tx list \<times> 'tx pending_client_requests" where
  "pcr_pop_front p =
     (case pcr_blocks p of
        [] \<Rightarrow> ([], p)
      | b # bs \<Rightarrow> (b, p\<lparr>pcr_blocks := bs\<rparr>))"

fun filter_front_blocks :: "('tx \<Rightarrow> bool) \<Rightarrow> 'tx list list \<Rightarrow> 'tx list list" where
  "filter_front_blocks retain [] = []"
| "filter_front_blocks retain (b # bs) =
     (let b' = filter retain b in if b' = [] then filter_front_blocks retain bs else b' # bs)"

definition pcr_filter_front :: "('tx \<Rightarrow> bool) \<Rightarrow> 'tx pending_client_requests \<Rightarrow> 'tx pending_client_requests" where
  "pcr_filter_front retain p = p\<lparr>pcr_blocks := filter_front_blocks retain (pcr_blocks p)\<rparr>"

definition pcr_insert :: "'tx \<Rightarrow> 'tx pending_client_requests \<Rightarrow> 'tx pending_client_requests option" where
  "pcr_insert tx p =
     (let blocks = pcr_blocks p;
          length_of_last = (if blocks = [] then u64_max else length (last blocks));
          blocks = (if pcr_maximum_block_size p \<le> length_of_last then blocks @ [[]] else blocks)
      in if blocks = [] then None
         else Some (p\<lparr>pcr_blocks := butlast blocks @ [last blocks @ [tx]]\<rparr>))"

fun pcr_insert_all :: "'tx list \<Rightarrow> 'tx pending_client_requests \<Rightarrow> 'tx pending_client_requests option" where
  "pcr_insert_all [] p = Some p"
| "pcr_insert_all (tx # txs) p = Option.bind (pcr_insert tx p) (pcr_insert_all txs)"

definition pcr_full_block_or_at_least :: "nat \<Rightarrow> 'tx pending_client_requests \<Rightarrow> bool option" where
  "pcr_full_block_or_at_least m p =
     do {
       rust_assert (0 < m);
       Some (if pcr_blocks p = [] then False
             else 1 < length (pcr_blocks p) \<or> m \<le> length (last (pcr_blocks p)))
     }"

section \<open>The interface of a keyed minimum queue\<close>

locale keyed_min_queue =
  fixes key :: "'v \<Rightarrow> 'k::linorder"
    and invar :: "'q \<Rightarrow> bool"
    and items :: "'q \<Rightarrow> 'v multiset"
    and empty :: 'q
    and insert :: "'v \<Rightarrow> 'q \<Rightarrow> 'q"
    and knows_key :: "'q \<Rightarrow> 'k \<Rightarrow> bool"
    and take_min :: "'q \<Rightarrow> ('v \<times> 'q) option"
  assumes invar_empty: "invar empty"
    and items_empty: "items empty = {#}"
    and invar_insert: "invar q \<Longrightarrow> key v \<notin> key ` set_mset (items q) \<Longrightarrow> invar (insert v q)"
    and items_insert: "invar q \<Longrightarrow> items (insert v q) = add_mset v (items q)"
    and knows_iff: "invar q \<Longrightarrow> knows_key q k \<longleftrightarrow> k \<in> key ` set_mset (items q)"
    and take_min_None: "invar q \<Longrightarrow> take_min q = None \<longleftrightarrow> items q = {#}"
    and invar_take_min: "invar q \<Longrightarrow> take_min q = Some (v, q') \<Longrightarrow> invar q'"
    and items_take_min: "invar q \<Longrightarrow> take_min q = Some (v, q') \<Longrightarrow> items q = add_mset v (items q')"
    and take_min_least: "invar q \<Longrightarrow> take_min q = Some (v, q') \<Longrightarrow> w \<in># items q \<Longrightarrow> key v \<le> key w"
begin

fun take_upto :: "nat \<Rightarrow> 'q \<Rightarrow> 'v list" where
  "take_upto 0 q = []"
| "take_upto (Suc n) q = (case take_min q of None \<Rightarrow> [] | Some (v, q') \<Rightarrow> v # take_upto n q')"

lemma take_upto_all:
  "invar q \<Longrightarrow> n = size (items q) \<Longrightarrow> mset (take_upto n q) = items q \<and> sorted (map key (take_upto n q))"
proof (induction n arbitrary: q)
  case 0
  then show ?case by simp
next
  case (Suc n)
  then have "take_min q \<noteq> None" using take_min_None by auto
  then obtain v q' where vq: "take_min q = Some (v, q')" by auto
  note step = items_take_min [OF Suc.prems(1) vq] invar_take_min [OF Suc.prems(1) vq]
  have "n = size (items q')" using Suc.prems step by simp
  with Suc.IH step have IH: "mset (take_upto n q') = items q'" "sorted (map key (take_upto n q'))"
    by auto
  have "key v \<le> key w" if "w \<in> set (take_upto n q')" for w
  proof -
    have "w \<in># items q" using that IH(1) step(1) by (metis set_mset_mset insertI2 set_mset_add_mset_insert)
    then show ?thesis by (rule take_min_least [OF Suc.prems(1) vq])
  qed
  with vq IH step show ?case by simp
qed

lemma knows_taken:
  assumes "invar q" "take_min q = Some (v, q')" "count (image_mset key (items q)) (key v) \<le> 1"
  shows "\<not> knows_key q' (key v)"
proof -
  have "count (image_mset key (items q')) (key v) = 0"
    using assms(3) items_take_min [OF assms(1,2)] by simp
  then have "key v \<notin># image_mset key (items q')"
    unfolding count_eq_zero_iff .
  then show ?thesis
    using knows_iff [OF invar_take_min [OF assms(1,2)]] by auto
qed

end

section \<open>HeapBuffer is a keyed minimum queue\<close>

definition hb_invar :: "('v \<Rightarrow> 'k::linorder) \<Rightarrow> ('v, 'k) heap_buffer \<Rightarrow> bool" where
  "hb_invar key b \<longleftrightarrow> heap_wf key (hb_buffer b) \<and> distinct (map key (hb_buffer b)) \<and>
     set (hb_known b) = key ` set (hb_buffer b)"

interpretation hbq: keyed_min_queue key "hb_invar key" "\<lambda>b. mset (hb_buffer b)" hb_default
    "hb_insert key" hb_knows_key "hb_pop key" for key :: "'v \<Rightarrow> 'k::linorder"
proof (unfold_locales, goal_cases)
  case 1
  then show ?case by (simp add: hb_invar_def hb_default_def)
next
  case 2
  then show ?case by (simp add: hb_default_def)
next
  case (3 q v)
  then have "mset (map key (hb_buffer (hb_insert key v q))) = mset (key v # map key (hb_buffer q))"
    by (simp add: hb_insert_def)
  then have "distinct (map key (hb_buffer (hb_insert key v q))) \<longleftrightarrow> distinct (key v # map key (hb_buffer q))"
    by (rule mset_eq_imp_distinct_iff)
  with 3 show ?case by (simp add: hb_invar_def) (simp add: hb_insert_def)
next
  case (4 q v)
  then show ?case by (simp add: hb_insert_def)
next
  case (5 q k)
  then show ?case by (simp add: hb_invar_def hb_knows_key_def)
next
  case (6 q)
  then show ?case by (auto simp: hb_pop_def split: option.splits)
next
  case (7 q v q')
  then have "hb_buffer q = v # hb_buffer q'" "hb_known q' = removeAll (key v) (hb_known q)"
    by (auto simp: hb_pop_def split: option.splits)
  with 7 show ?case by (auto simp: hb_invar_def)
next
  case (8 q v q')
  then show ?case by (auto simp: hb_pop_def split: option.splits)
next
  case (9 q v q' w)
  then have "hb_buffer q = v # hb_buffer q'"
    by (auto simp: hb_pop_def split: option.splits)
  with 9 show ?case by (auto simp: hb_invar_def)
qed

section \<open>Cursor sweeps\<close>

text \<open>What a cursor still holds: the kept elements, the current one and the unread heap.\<close>

definition cursor_content :: "('v, 'k) cursor \<Rightarrow> 'v list" where
  "cursor_content c = cur_kept c @ (case cur_current c of None \<Rightarrow> [] | Some v \<Rightarrow> [v]) @ ch_heap (cur_heap c)"

definition cursor_invar :: "('v \<Rightarrow> 'k) \<Rightarrow> ('v, 'k) cursor \<Rightarrow> bool" where
  "cursor_invar key c \<longleftrightarrow> set (cur_kept_set c) = key ` set (cur_kept c)"

lemma cursor_advance_spec:
  assumes "cursor_invar key c"
  shows "\<exists>c'. cursor_advance key c =
      Some (case ch_heap (cur_heap c) of [] \<Rightarrow> None | v # _ \<Rightarrow> Some v, c') \<and>
    cursor_invar key c' \<and> cursor_content c' = cursor_content c \<and>
    cur_current c' = (case ch_heap (cur_heap c) of [] \<Rightarrow> None | v # _ \<Rightarrow> Some v) \<and>
    ch_heap (cur_heap c') = tl (ch_heap (cur_heap c)) \<and>
    cur_kept c' = cur_kept c @ (case cur_current c of None \<Rightarrow> [] | Some v \<Rightarrow> [v])"
  using assms
  by (cases "cur_current c"; cases "ch_heap (cur_heap c)")
     (auto simp: cursor_advance_def cursor_keep_def cursor_content_def cursor_invar_def heap_pop_def)

lemma cursor_advance_all_spec:
  assumes "cursor_invar key c" "length (ch_heap (cur_heap c)) < fuel"
  shows "\<exists>c'. cursor_advance_all fuel key c = Some c' \<and> cursor_invar key c' \<and>
    cur_kept c' = cursor_content c"
  using assms
proof (induction fuel arbitrary: c)
  case 0
  then show ?case by simp
next
  case (Suc fuel)
  obtain c' where c': "cursor_advance key c =
      Some (case ch_heap (cur_heap c) of [] \<Rightarrow> None | v # _ \<Rightarrow> Some v, c')"
    "cursor_invar key c'" "cursor_content c' = cursor_content c"
    "ch_heap (cur_heap c') = tl (ch_heap (cur_heap c))"
    "cur_kept c' = cur_kept c @ (case cur_current c of None \<Rightarrow> [] | Some v \<Rightarrow> [v])"
    using cursor_advance_spec [OF Suc.prems(1)] by blast
  show ?case
  proof (cases "ch_heap (cur_heap c)")
    case Nil
    with c' show ?thesis by (simp add: cursor_content_def)
  next
    case (Cons v vs)
    with c' Suc.IH [of c'] Suc.prems show ?thesis by simp
  qed
qed

lemma cursor_finalize_spec:
  assumes "cursor_invar key c"
  shows "\<exists>h. cursor_finalize key c = Some h \<and> ch_heap h = sort_key key (rev (cursor_content c)) \<and>
    set (ch_known h) = key ` set (cursor_content c)"
proof -
  obtain c' where "cursor_advance_all (Suc (length (ch_heap (cur_heap c)))) key c = Some c'"
    "cursor_invar key c'" "cur_kept c' = cursor_content c"
    using cursor_advance_all_spec [OF assms] by (metis lessI)
  then show ?thesis by (auto simp: cursor_finalize_def cursor_invar_def)
qed

lemma cursor_sweep_spec:
  assumes "cursor_invar key c" "length (ch_heap (cur_heap c)) < fuel"
  shows "\<exists>c'. cursor_sweep fuel key P c = Some (filter P (ch_heap (cur_heap c)), c') \<and>
    cursor_invar key c' \<and>
    cursor_content c' = cur_kept c @ (case cur_current c of None \<Rightarrow> [] | Some v \<Rightarrow> [v]) @
      filter (\<lambda>v. \<not> P v) (ch_heap (cur_heap c))"
  using assms
proof (induction fuel arbitrary: c)
  case 0
  then show ?case by simp
next
  case (Suc fuel)
  obtain c' where c': "cursor_advance key c =
      Some (case ch_heap (cur_heap c) of [] \<Rightarrow> None | v # _ \<Rightarrow> Some v, c')"
    "cursor_invar key c'" "cursor_content c' = cursor_content c"
    "cur_current c' = (case ch_heap (cur_heap c) of [] \<Rightarrow> None | v # _ \<Rightarrow> Some v)"
    "ch_heap (cur_heap c') = tl (ch_heap (cur_heap c))"
    "cur_kept c' = cur_kept c @ (case cur_current c of None \<Rightarrow> [] | Some v \<Rightarrow> [v])"
    using cursor_advance_spec [OF Suc.prems(1)] by blast
  show ?case
  proof (cases "ch_heap (cur_heap c)")
    case Nil
    with c' show ?thesis by (simp add: cursor_content_def)
  next
    case (Cons v vs)
    let ?d = "c'\<lparr>cur_current := None\<rparr>"
    have "cursor_invar key ?d" "length (ch_heap (cur_heap ?d)) < fuel"
      "length (ch_heap (cur_heap c')) < fuel"
      using c' Cons Suc.prems by (auto simp: cursor_invar_def)
    with Suc.IH [of ?d] Suc.IH [of c'] c' Cons show ?thesis
      by (cases "P v") (auto simp: cursor_remove_def)
  qed
qed

section \<open>CursoredHeap is a keyed minimum queue\<close>

definition ch_invar :: "('v \<Rightarrow> 'k::linorder) \<Rightarrow> ('v, 'k) cursored_heap \<Rightarrow> bool" where
  "ch_invar key h \<longleftrightarrow> heap_wf key (ch_heap h) \<and> set (ch_known h) = key ` set (ch_heap h)"

text \<open>Removing the least element: open a cursor, advance once, remove, finalize.\<close>

definition ch_take_min ::
    "('v \<Rightarrow> 'k::linorder) \<Rightarrow> ('v, 'k) cursored_heap \<Rightarrow> ('v \<times> ('v, 'k) cursored_heap) option" where
  "ch_take_min key h =
     do {
       (_, c) \<leftarrow> cursor_advance key (ch_cursor h);
       (v, c) \<leftarrow> cursor_remove c;
       h' \<leftarrow> cursor_finalize key c;
       Some (v, h')
     }"

lemma ch_cursor_invar: "cursor_invar key (ch_cursor h)"
  by (simp add: cursor_invar_def ch_cursor_def)

lemma ch_take_min_None [simp]: "ch_take_min key h = None \<longleftrightarrow> ch_heap h = []"
proof (cases "ch_heap h")
  case Nil
  then show ?thesis
    by (simp add: ch_take_min_def cursor_advance_def ch_cursor_def heap_pop_def cursor_remove_def)
next
  case (Cons v vs)
  let ?c = "\<lparr>cur_current = None, cur_heap = h\<lparr>ch_heap := vs\<rparr>, cur_kept = [], cur_kept_set = []\<rparr>"
  have "cursor_invar key ?c" by (simp add: cursor_invar_def)
  from cursor_finalize_spec [OF this] Cons show ?thesis
    by (auto simp: ch_take_min_def cursor_advance_def ch_cursor_def heap_pop_def cursor_remove_def)
qed

lemma ch_take_min_Some:
  assumes "ch_take_min key h = Some (v, h')"
  shows "\<exists>vs. ch_heap h = v # vs \<and> ch_heap h' = sort_key key (rev vs) \<and> set (ch_known h') = key ` set vs"
proof (cases "ch_heap h")
  case Nil
  with assms show ?thesis by (metis ch_take_min_None option.distinct(1))
next
  case (Cons w ws)
  let ?c = "\<lparr>cur_current = None, cur_heap = h\<lparr>ch_heap := ws\<rparr>, cur_kept = [], cur_kept_set = []\<rparr>"
  have "cursor_invar key ?c" by (simp add: cursor_invar_def)
  from cursor_finalize_spec [OF this] Cons assms show ?thesis
    by (auto simp: ch_take_min_def cursor_advance_def ch_cursor_def heap_pop_def cursor_remove_def
        cursor_content_def)
qed

interpretation chq: keyed_min_queue key "ch_invar key" "\<lambda>h. mset (ch_heap h)" ch_default
    "ch_insert key" ch_knows_key "ch_take_min key" for key :: "'v \<Rightarrow> 'k::linorder"
proof (unfold_locales, goal_cases)
  case (9 q v q' w)
  then show ?case by (auto simp: ch_invar_def dest!: ch_take_min_Some)
next
  case (8 q v q')
  then show ?case by (auto dest!: ch_take_min_Some)
next
  case (7 q v q')
  then show ?case by (auto simp: ch_invar_def dest!: ch_take_min_Some)
qed (auto simp: ch_invar_def ch_default_def ch_insert_def ch_knows_key_def)

section \<open>Pending client requests\<close>

definition pcr_queue :: "'tx pending_client_requests \<Rightarrow> 'tx list" where
  "pcr_queue p = concat (pcr_blocks p)"

definition pcr_invar :: "'tx pending_client_requests \<Rightarrow> bool" where
  "pcr_invar p \<longleftrightarrow> pcr_maximum_block_size p \<le> u64_max \<and>
     (\<forall>b \<in> set (pcr_blocks p). b \<noteq> [] \<and> length b \<le> max 1 (pcr_maximum_block_size p)) \<and>
     (\<forall>b \<in> set (butlast (tl (pcr_blocks p))). pcr_maximum_block_size p \<le> length b)"

lemma pcr_invar_new [simp]: "m \<le> u64_max \<Longrightarrow> pcr_invar (pcr_new m)"
  by (simp add: pcr_invar_def pcr_new_def)

lemma pcr_insert_spec:
  assumes "pcr_invar p"
  shows "\<exists>p'. pcr_insert tx p = Some p' \<and> pcr_invar p' \<and> pcr_queue p' = pcr_queue p @ [tx] \<and>
    pcr_maximum_block_size p' = pcr_maximum_block_size p"
proof (cases "pcr_blocks p" rule: rev_cases)
  case Nil
  with assms show ?thesis by (simp add: pcr_insert_def pcr_invar_def pcr_queue_def)
next
  case (snoc bs b)
  show ?thesis
  proof (cases "pcr_maximum_block_size p \<le> length b")
    case True
    with assms snoc show ?thesis
      by (cases bs rule: rev_cases; cases bs)
         (auto simp: pcr_insert_def pcr_invar_def pcr_queue_def butlast_append tl_append split: list.splits)
  next
    case False
    with assms snoc show ?thesis
      by (cases bs) (auto simp: pcr_insert_def pcr_invar_def pcr_queue_def butlast_append)
  qed
qed

lemma filter_front_blocks_props:
  "set (butlast (tl (filter_front_blocks P bs))) \<subseteq> set (butlast (tl bs))"
  "b \<in> set (filter_front_blocks P bs) \<Longrightarrow> b \<in> set bs \<or> (\<exists>b' \<in> set bs. b = filter P b' \<and> b \<noteq> [])"
proof (induction bs)
  case Nil
  { case 1 then show ?case by simp }
  { case 2 then show ?case by simp }
next
  case (Cons c cs)
  { case 1
    have "set (butlast (tl cs)) \<subseteq> set (butlast cs)" by (cases cs) auto
    with Cons show ?case by (auto simp: Let_def) }
  { case 2 with Cons show ?case by (auto simp: Let_def split: if_splits) }
qed

lemma pcr_insert_all_spec:
  "pcr_invar p \<Longrightarrow> \<exists>p'. pcr_insert_all txs p = Some p' \<and> pcr_invar p' \<and> pcr_queue p' = pcr_queue p @ txs"
proof (induction txs arbitrary: p)
  case Nil
  then show ?case by simp
next
  case (Cons tx txs)
  obtain p' where p': "pcr_insert tx p = Some p'" "pcr_invar p'" "pcr_queue p' = pcr_queue p @ [tx]"
    using pcr_insert_spec [OF Cons.prems] by blast
  from Cons.IH [OF p'(2)] p' show ?case by auto
qed

lemma set_butlast_tl_tl: "set (butlast (tl (tl bs))) \<subseteq> set (butlast (tl bs))"
  by (cases bs; cases "tl bs") auto

lemma pcr_pop_front_invar:
  assumes "pcr_invar p"
  shows "pcr_invar (snd (pcr_pop_front p))"
proof (cases "pcr_blocks p")
  case Nil
  with assms show ?thesis by (simp add: pcr_pop_front_def)
next
  case (Cons b bs)
  with assms set_butlast_tl_tl [of "pcr_blocks p"] show ?thesis
    by (auto simp: pcr_pop_front_def pcr_invar_def)
qed

lemma pcr_filter_front_invar:
  assumes "pcr_invar p"
  shows "pcr_invar (pcr_filter_front retain p)"
proof -
  let ?bs = "pcr_blocks p"
  have "b \<noteq> [] \<and> length b \<le> max 1 (pcr_maximum_block_size p)"
    if "b \<in> set (filter_front_blocks retain ?bs)" for b
    using filter_front_blocks_props(2) [OF that] assms
    by (auto simp: pcr_invar_def intro: order_trans [OF length_filter_le])
  moreover have "pcr_maximum_block_size p \<le> length b"
    if "b \<in> set (butlast (tl (filter_front_blocks retain ?bs)))" for b
    using filter_front_blocks_props(1) [of retain ?bs] that assms by (auto simp: pcr_invar_def)
  ultimately show ?thesis
    using assms by (simp add: pcr_invar_def pcr_filter_front_def)
qed

lemma pcr_filter_front_queue:
  "filter retain (pcr_queue (pcr_filter_front retain p)) = filter retain (pcr_queue p)"
proof -
  have "filter retain (concat (filter_front_blocks retain bs)) = filter retain (concat bs)" for bs
    by (induction bs) (auto simp: Let_def)
  then show ?thesis by (simp add: pcr_queue_def pcr_filter_front_def)
qed

section \<open>Properties\<close>

lemma hb_pops_take_upto: "hb_pops key n b = hbq.take_upto key n b"
  by (induction n arbitrary: b) (auto split: option.splits)

lemma hb_insert_all:
  assumes "hb_invar key b" "distinct (map key (vs @ hb_buffer b))"
  shows "hb_invar key (fold (hb_insert key) vs b) \<and>
    mset (hb_buffer (fold (hb_insert key) vs b)) = mset vs + mset (hb_buffer b)"
  using assms
proof (induction vs arbitrary: b)
  case Nil
  then show ?case by simp
next
  case (Cons v vs)
  have inv: "hb_invar key (hb_insert key v b)"
    by (rule hbq.invar_insert) (use Cons.prems in auto)
  have ms: "mset (hb_buffer (hb_insert key v b)) = add_mset v (mset (hb_buffer b))"
    by (rule hbq.items_insert) (use Cons.prems in auto)
  have "mset (map key (vs @ hb_buffer (hb_insert key v b))) = mset (map key ((v # vs) @ hb_buffer b))"
    using ms by simp
  then have "distinct (map key (vs @ hb_buffer (hb_insert key v b)))"
    using Cons.prems(2) mset_eq_imp_distinct_iff by blast
  from Cons.IH [OF inv this] ms show ?case by simp
qed

text \<open>
  A \<open>HeapBuffer\<close> filled with elements of distinct keys, in any order, knows exactly the
  keys inserted, and popping it repeatedly returns all the elements in ascending order of their keys.
\<close>

theorem heap_buffer_pops_in_key_order:
  assumes "distinct (map key vs)"
  shows "hb_pops key (length vs) (fold (hb_insert key) vs hb_default) = sort_key key vs \<and>
    (\<forall>k. hb_knows_key (fold (hb_insert key) vs hb_default) k \<longleftrightarrow> k \<in> key ` set vs)"
proof -
  let ?b = "fold (hb_insert key) vs hb_default"
  have b: "hb_invar key ?b" "mset (hb_buffer ?b) = mset vs"
    using hb_insert_all [of key hb_default vs] assms hbq.invar_empty [of key] by (simp_all add: hb_default_def)
  then have "mset (hb_pops key (length vs) ?b) = mset vs" "sorted (map key (hb_pops key (length vs) ?b))"
    using hbq.take_upto_all [of key ?b "length vs"]
    by (simp_all add: hb_pops_take_upto size_mset flip: size_mset)
  moreover have "inj_on key (set vs)" using assms by (simp add: distinct_map)
  ultimately have "hb_pops key (length vs) ?b = sort_key key vs"
    by (metis mset_eq_setD mset_sort set_sort sort_key_inj_key_eq sort_key_id_if_sorted)
  moreover have "hb_knows_key ?b k \<longleftrightarrow> k \<in> key ` set vs" for k
    using hbq.knows_iff [OF b(1)] b(2) by (metis set_mset_mset)
  ultimately show ?thesis by blast
qed

theorem heap_buffer_pops_in_key_order_witness:
  "hb_pops id 3 (fold (hb_insert id) [5, 2, 9::nat] hb_default) = [2, 5, 9] \<and> distinct (map id [5, 2, 9::nat])"
  using heap_buffer_pops_in_key_order [of id "[5, 2, 9::nat]"] by (simp add: numeral_3_eq_3)

text \<open>
  Claim C1. A sweep with a \<open>Cursor\<close> over a well-formed \<open>CursoredHeap\<close> never panics, removes exactly
  the elements that satisfy the caller's test, in ascending order of their keys, and leaves the heap
  well-formed with all the other elements and only their keys known.
\<close>

theorem cursored_heap_sweep:
  assumes "ch_invar key h"
  shows "\<exists>h'. ch_extract key P h = Some (filter P (ch_heap h), h') \<and> ch_invar key h' \<and>
    mset (ch_heap h') = mset (filter (\<lambda>v. \<not> P v) (ch_heap h)) \<and>
    sorted (map key (filter P (ch_heap h))) \<and>
    (\<forall>k. ch_knows_key h' k \<longleftrightarrow> (\<exists>v \<in># mset (ch_heap h). \<not> P v \<and> key v = k))"
proof -
  obtain c where c: "cursor_sweep (Suc (length (ch_heap h))) key P (ch_cursor h) = Some (filter P (ch_heap h), c)"
    "cursor_invar key c" "cursor_content c = filter (\<lambda>v. \<not> P v) (ch_heap h)"
    using cursor_sweep_spec [OF ch_cursor_invar [of key h], of "Suc (length (ch_heap h))" P]
    by (auto simp: ch_cursor_def)
  obtain h' where h': "cursor_finalize key c = Some h'"
    "ch_heap h' = sort_key key (rev (cursor_content c))" "set (ch_known h') = key ` set (cursor_content c)"
    using cursor_finalize_spec [OF c(2)] by blast
  have "sorted (map key (filter P (ch_heap h)))"
    using assms by (simp add: ch_invar_def sorted_filter)
  with c h' show ?thesis
    by (auto simp: ch_extract_def ch_invar_def ch_knows_key_def)
qed

theorem cursored_heap_sweep_witness:
  "\<exists>h'. ch_extract id even (fold (ch_insert id) [5, 2, 8, 3::nat] ch_default) = Some ([2, 8], h') \<and> ch_invar id h'"
proof -
  have "ch_invar id (fold (ch_insert id) [5, 2, 8, 3::nat] ch_default)"
    by (simp add: ch_insert_def ch_default_def ch_invar_def heap_push_def) blast
  from cursored_heap_sweep [OF this, of even] show ?thesis
    by (auto simp: ch_insert_def ch_default_def heap_push_def)
qed

text \<open>
  Claim C2. \<open>PendingClientRequests\<close> is a first-in first-out queue cut into blocks: from a
  well-formed queue, inserting transactions never panics and appends them in order; popping the front
  block then removes a prefix of the queue; no block is empty or above the maximum size; and
  filtering the front only drops refused transactions and keeps the order of the others.
\<close>

theorem pending_client_requests_fifo:
  assumes "pcr_invar p"
  shows "\<exists>p'. pcr_insert_all txs p = Some p' \<and> pcr_invar p' \<and> pcr_queue p' = pcr_queue p @ txs \<and>
    pcr_queue p' = fst (pcr_pop_front p') @ pcr_queue (snd (pcr_pop_front p')) \<and>
    pcr_invar (snd (pcr_pop_front p')) \<and> pcr_copy_front p' = fst (pcr_pop_front p') \<and>
    (fst (pcr_pop_front p') = [] \<longleftrightarrow> pcr_queue p' = []) \<and>
    length (fst (pcr_pop_front p')) \<le> max 1 (pcr_maximum_block_size p') \<and>
    pcr_invar (pcr_filter_front retain p') \<and>
    filter retain (pcr_queue (pcr_filter_front retain p')) = filter retain (pcr_queue p')"
proof -
  obtain p' where p': "pcr_insert_all txs p = Some p'" "pcr_invar p'" "pcr_queue p' = pcr_queue p @ txs"
    using pcr_insert_all_spec [OF assms] by blast
  have pop: "pcr_queue p' = fst (pcr_pop_front p') @ pcr_queue (snd (pcr_pop_front p'))"
    "pcr_copy_front p' = fst (pcr_pop_front p')"
    by (simp_all add: pcr_pop_front_def pcr_queue_def pcr_copy_front_def split: list.splits)
  have pop_len: "fst (pcr_pop_front p') = [] \<longleftrightarrow> pcr_queue p' = []"
    "length (fst (pcr_pop_front p')) \<le> max 1 (pcr_maximum_block_size p')"
    using p'(2) by (auto simp: pcr_pop_front_def pcr_invar_def pcr_queue_def split: list.splits)
  show ?thesis
    using p' pop pop_len pcr_pop_front_invar [OF p'(2)] pcr_filter_front_invar [OF p'(2)]
      pcr_filter_front_queue [of retain p'] by blast
qed

theorem pending_client_requests_fifo_witness:
  "pcr_invar (pcr_new 2 :: nat pending_client_requests) \<and>
   (\<exists>p'. pcr_insert_all [1, 2, 3::nat] (pcr_new 2) = Some p' \<and> pcr_queue p' = [1, 2, 3] \<and>
     fst (pcr_pop_front p') @ pcr_queue (snd (pcr_pop_front p')) = [1, 2, 3])"
proof -
  have "pcr_invar (pcr_new 2 :: nat pending_client_requests)" by (simp add: u64_max_def)
  with pending_client_requests_fifo [OF this, of "[1, 2, 3]"] show ?thesis
    by (metis append_Nil concat.simps(1) pcr_new_def pcr_queue_def pending_client_requests.select_convs(1))
qed

end
