(* ===== verification/Usig_Model.thy ===== *)
theory Usig_Model
  imports Shared_Ids
begin

text \<open>
  The unique sequential identifier generator (USIG) of \<^verbatim>\<open>atomic-broadcast/minbft\<close>. The trait
  \<open>Usig\<close> of \<^verbatim>\<open>usig/src/lib.rs\<close> is the record \<open>usig_ops\<close> of its methods; what its users rely
  on is the locale \<open>usig_service\<close>, and \<open>signing_usig\<close> for the services that sign. The three
  implementations are interpretations: \<open>UsigNoOp\<close> (\<^verbatim>\<open>usig/src/noop.rs\<close>), \<open>UsigSignature\<close>
  (\<^verbatim>\<open>usig/src/signature.rs\<close>) and \<open>UsigTEE\<close> with its enclave (\<^verbatim>\<open>usig-tee\<close>,
  \<^verbatim>\<open>usig-tee-enclave\<close>). The signature schemes (the crates \<open>signature\<close> and \<open>sgx_crypto\<close>) and
  the generated enclave call are parameters.
\<close>

section \<open>The trait\<close>

datatype usig_error =
  UnknownId replica_id
| InvalidSignature
| RemoteAttestationFailed
| SigningFailed

type_synonym count = u64

record ('u, 'sig, 'att) usig_ops =
  u_sign :: "bytes \<Rightarrow> 'u \<Rightarrow> ((usig_error + 'sig) \<times> 'u) option"
  u_attest :: "'u \<Rightarrow> (usig_error + 'att) \<times> 'u"
  u_verify :: "'u \<Rightarrow> replica_id \<Rightarrow> bytes \<Rightarrow> 'sig \<Rightarrow> (usig_error + unit) option"
  u_add_remote_party :: "'u \<Rightarrow> replica_id \<Rightarrow> 'att \<Rightarrow> bool \<times> 'u"
  u_counter :: "'sig \<Rightarrow> count"

text \<open>Signing a sequence of messages one after the other.\<close>

fun usig_sign_all :: "('u, 'sig, 'att, 'z) usig_ops_scheme \<Rightarrow> bytes list \<Rightarrow> 'u \<Rightarrow> ('sig list \<times> 'u) option" where
  "usig_sign_all ops [] u = Some ([], u)"
| "usig_sign_all ops (m # ms) u =
     (case u_sign ops m u of
        Some (Inr s, u') \<Rightarrow> map_option (\<lambda>(ss, u''). (s # ss, u'')) (usig_sign_all ops ms u')
      | _ \<Rightarrow> None)"

section \<open>UsigNoOp\<close>

datatype noop_signature = Noop_Signature u64

datatype dummy_attestation = DummyAttestation

record usig_noop_sign_half =
  noop_counter :: u64

record usig_noop_verify_half =
  noop_ids :: "replica_id hash_set"

record usig_noop =
  noop_sign_half :: usig_noop_sign_half
  noop_verify_half :: usig_noop_verify_half

definition usig_noop_default :: usig_noop where
  "usig_noop_default = \<lparr>noop_sign_half = \<lparr>noop_counter = 0\<rparr>, noop_verify_half = \<lparr>noop_ids = []\<rparr>\<rparr>"

fun noop_signature_counter :: "noop_signature \<Rightarrow> count" where
  "noop_signature_counter (Noop_Signature c) = c"

definition noop_half_sign ::
    "bytes \<Rightarrow> usig_noop_sign_half \<Rightarrow> (usig_error + noop_signature) \<times> usig_noop_sign_half" where
  "noop_half_sign message h =
     (let counter = noop_counter h
      in (Inr (Noop_Signature counter), h\<lparr>noop_counter := counter + 1\<rparr>))"

definition noop_half_attest ::
    "usig_noop_sign_half \<Rightarrow> (usig_error + dummy_attestation) \<times> usig_noop_sign_half" where
  "noop_half_attest h = (Inr DummyAttestation, h)"

definition noop_half_verify ::
    "usig_noop_verify_half \<Rightarrow> replica_id \<Rightarrow> bytes \<Rightarrow> noop_signature \<Rightarrow> usig_error + unit" where
  "noop_half_verify h i message s = (if i \<in> set (noop_ids h) then Inr () else Inl (UnknownId i))"

definition noop_half_add_remote_party ::
    "usig_noop_verify_half \<Rightarrow> replica_id \<Rightarrow> dummy_attestation \<Rightarrow> bool \<times> usig_noop_verify_half" where
  "noop_half_add_remote_party h i a = (True, h\<lparr>noop_ids := hs_insert i (noop_ids h)\<rparr>)"

definition usig_noop_ops :: "(usig_noop, noop_signature, dummy_attestation) usig_ops" where
  "usig_noop_ops = \<lparr>
     u_sign = (\<lambda>m u. case noop_half_sign m (noop_sign_half u) of (r, h) \<Rightarrow> Some (r, u\<lparr>noop_sign_half := h\<rparr>)),
     u_attest = (\<lambda>u. case noop_half_attest (noop_sign_half u) of (r, h) \<Rightarrow> (r, u\<lparr>noop_sign_half := h\<rparr>)),
     u_verify = (\<lambda>u i m s. Some (noop_half_verify (noop_verify_half u) i m s)),
     u_add_remote_party = (\<lambda>u i a. case noop_half_add_remote_party (noop_verify_half u) i a of
       (b, h) \<Rightarrow> (b, u\<lparr>noop_verify_half := h\<rparr>)),
     u_counter = noop_signature_counter\<rparr>"

section \<open>UsigSignature\<close>

record 's sg_signature =
  sg_counter :: u64
  sg_signature :: 's

record ('sk, 'pk) sg_sign_half =
  sgh_counter :: u64
  sgh_private_key :: 'sk
  sgh_public_key :: 'pk

record 'pk sg_verify_half =
  sgh_other_keys :: "(replica_id, 'pk) hash_map"

record ('sk, 'pk) usig_signature =
  sg_sign_half :: "('sk, 'pk) sg_sign_half"
  sg_verify_half :: "'pk sg_verify_half"

definition sg_sign_half_new :: "'sk \<Rightarrow> 'pk \<Rightarrow> ('sk, 'pk) sg_sign_half" where
  "sg_sign_half_new sk pk = \<lparr>sgh_counter = 0, sgh_private_key = sk, sgh_public_key = pk\<rparr>"

definition usig_signature_new :: "'sk \<Rightarrow> 'pk \<Rightarrow> ('sk, 'pk) usig_signature" where
  "usig_signature_new sk pk =
     \<lparr>sg_sign_half = sg_sign_half_new sk pk, sg_verify_half = \<lparr>sgh_other_keys = []\<rparr>\<rparr>"

definition sg_data :: "u64 \<Rightarrow> bytes \<Rightarrow> bytes" where
  "sg_data counter message = to_be_bytes counter @ message"

definition sg_half_sign ::
    "('sk \<Rightarrow> bytes \<Rightarrow> 's) \<Rightarrow> bytes \<Rightarrow> ('sk, 'pk) sg_sign_half \<Rightarrow>
     (usig_error + 's sg_signature) \<times> ('sk, 'pk) sg_sign_half" where
  "sg_half_sign signer message h =
     (let counter = sgh_counter h;
          h = h\<lparr>sgh_counter := counter + 1\<rparr>;
          data = sg_data counter message;
          signature = signer (sgh_private_key h) data
      in (Inr \<lparr>sg_counter = counter, sg_signature = signature\<rparr>, h))"

definition sg_half_attest :: "('sk, 'pk) sg_sign_half \<Rightarrow> (usig_error + 'pk) \<times> ('sk, 'pk) sg_sign_half" where
  "sg_half_attest h = (Inr (sgh_public_key h), h)"

definition sg_half_verify ::
    "('pk \<Rightarrow> bytes \<Rightarrow> 's \<Rightarrow> bool) \<Rightarrow> 'pk sg_verify_half \<Rightarrow> replica_id \<Rightarrow> bytes \<Rightarrow> 's sg_signature \<Rightarrow>
     usig_error + unit" where
  "sg_half_verify verifier h i message s =
     (case hm_get (sgh_other_keys h) i of
        Some key \<Rightarrow>
          (let data = sg_data (sg_counter s) message
           in if verifier key data (sg_signature s) then Inr () else Inl InvalidSignature)
      | None \<Rightarrow> Inl (UnknownId i))"

definition sg_half_add_remote_party ::
    "'pk sg_verify_half \<Rightarrow> replica_id \<Rightarrow> 'pk \<Rightarrow> bool \<times> 'pk sg_verify_half" where
  "sg_half_add_remote_party h i a = (True, h\<lparr>sgh_other_keys := hm_insert i a (sgh_other_keys h)\<rparr>)"

definition usig_signature_ops ::
    "('sk \<Rightarrow> bytes \<Rightarrow> 's) \<Rightarrow> ('pk \<Rightarrow> bytes \<Rightarrow> 's \<Rightarrow> bool) \<Rightarrow>
     (('sk, 'pk) usig_signature, 's sg_signature, 'pk) usig_ops" where
  "usig_signature_ops signer verifier = \<lparr>
     u_sign = (\<lambda>m u. case sg_half_sign signer m (sg_sign_half u) of
       (r, h) \<Rightarrow> Some (r, u\<lparr>sg_sign_half := h\<rparr>)),
     u_attest = (\<lambda>u. case sg_half_attest (sg_sign_half u) of (r, h) \<Rightarrow> (r, u\<lparr>sg_sign_half := h\<rparr>)),
     u_verify = (\<lambda>u i m s. Some (sg_half_verify verifier (sg_verify_half u) i m s)),
     u_add_remote_party = (\<lambda>u i a. case sg_half_add_remote_party (sg_verify_half u) i a of
       (b, h) \<Rightarrow> (b, u\<lparr>sg_verify_half := h\<rparr>)),
     u_counter = sg_counter\<rparr>"

section \<open>UsigTEE and its enclave\<close>

text \<open>
  The enclave holds its state in a cell that the first call fills; \<open>kp0\<close> is the key pair that
  \<open>EcKeyPair::create\<close> yields there. \<open>ec_sign\<close> and \<open>ec_verify\<close> stand for the SDK's operations,
  whose errors the code unwraps, and \<open>edge\<close> for the status of the generated call into the enclave:
  when it is an error the enclave is not entered.
\<close>

record ('sk, 'pk) ec_key_pair =
  ec_private_key :: 'sk
  ec_public_key :: 'pk

record ('sk, 'pk) tee_shared_state =
  tee_key_pair :: "('sk, 'pk) ec_key_pair"
  tee_counter :: u64

type_synonym ('sk, 'pk) tee_enclave = "('sk, 'pk) tee_shared_state option"

definition tee_init :: "('sk, 'pk) ec_key_pair \<Rightarrow> ('sk, 'pk) tee_shared_state" where
  "tee_init kp0 = \<lparr>tee_key_pair = kp0, tee_counter = 0\<rparr>"

definition tee_shared_state_get ::
    "('sk, 'pk) ec_key_pair \<Rightarrow> ('sk, 'pk) tee_enclave \<Rightarrow> ('sk, 'pk) tee_shared_state" where
  "tee_shared_state_get kp0 e = (case e of None \<Rightarrow> tee_init kp0 | Some st \<Rightarrow> st)"

definition tee_data :: "u64 \<Rightarrow> bytes \<Rightarrow> bytes" where
  "tee_data counter message = message @ to_be_bytes counter"

definition tee_sign_safe ::
    "('sk \<Rightarrow> bytes \<Rightarrow> 's option) \<Rightarrow> ('sk, 'pk) ec_key_pair \<Rightarrow> bytes \<Rightarrow> ('sk, 'pk) tee_enclave \<Rightarrow>
     (('s \<times> u64) \<times> ('sk, 'pk) tee_enclave) option" where
  "tee_sign_safe ec_sign kp0 message e =
     (let state = tee_shared_state_get kp0 e;
          counter = tee_counter state;
          state = state\<lparr>tee_counter := counter + 1\<rparr>;
          data = tee_data counter message
      in do {
           signature \<leftarrow> ec_sign (ec_private_key (tee_key_pair state)) data;
           Some ((signature, counter), Some state)
         })"

definition tee_attest_safe ::
    "('sk, 'pk) ec_key_pair \<Rightarrow> ('sk, 'pk) tee_enclave \<Rightarrow> ('pk \<times> u64 \<times> bytes) \<times> ('sk, 'pk) tee_enclave" where
  "tee_attest_safe kp0 e =
     (let state = tee_shared_state_get kp0 e
      in ((ec_public_key (tee_key_pair state), tee_counter state, []), Some state))"

record 's tee_signature =
  ts_signature :: 's
  ts_counter :: u64

record 'pk tee_attestation =
  ta_pub_key :: 'pk
  ta_counter :: u64
  ta_intel_report :: bytes

record ('sk, 'pk) usig_tee =
  tee_enclave :: "('sk, 'pk) tee_enclave"
  tee_pubkeys :: "(replica_id, 'pk) hash_map"

definition usig_tee_init :: "('sk, 'pk) usig_tee" where
  "usig_tee_init = \<lparr>tee_enclave = None, tee_pubkeys = []\<rparr>"

definition tee_half_sign ::
    "(('sk, 'pk) tee_enclave \<Rightarrow> bool) \<Rightarrow> ('sk \<Rightarrow> bytes \<Rightarrow> 's option) \<Rightarrow> ('sk, 'pk) ec_key_pair \<Rightarrow> bytes \<Rightarrow>
     ('sk, 'pk) usig_tee \<Rightarrow> ((usig_error + 's tee_signature) \<times> ('sk, 'pk) usig_tee) option" where
  "tee_half_sign edge ec_sign kp0 message u =
     (if edge (tee_enclave u)
      then do {
        ((signature, counter), e) \<leftarrow> tee_sign_safe ec_sign kp0 message (tee_enclave u);
        Some (Inr \<lparr>ts_signature = signature, ts_counter = counter\<rparr>, u\<lparr>tee_enclave := e\<rparr>)
      }
      else Some (Inl SigningFailed, u))"

definition tee_half_attest ::
    "(('sk, 'pk) tee_enclave \<Rightarrow> bool) \<Rightarrow> ('sk, 'pk) ec_key_pair \<Rightarrow> ('sk, 'pk) usig_tee \<Rightarrow>
     (usig_error + 'pk tee_attestation) \<times> ('sk, 'pk) usig_tee" where
  "tee_half_attest edge kp0 u =
     (if edge (tee_enclave u)
      then (case tee_attest_safe kp0 (tee_enclave u) of
              ((pubkey, counter, cert_der), e) \<Rightarrow>
                (Inr \<lparr>ta_pub_key = pubkey, ta_counter = counter, ta_intel_report = cert_der\<rparr>,
                 u\<lparr>tee_enclave := e\<rparr>))
      else (Inl RemoteAttestationFailed, u))"

definition tee_half_verify ::
    "('pk \<Rightarrow> bytes \<Rightarrow> 's \<Rightarrow> bool option) \<Rightarrow> ('sk, 'pk) usig_tee \<Rightarrow> replica_id \<Rightarrow> bytes \<Rightarrow> 's tee_signature \<Rightarrow>
     (usig_error + unit) option" where
  "tee_half_verify ec_verify u i message s =
     (let data = tee_data (ts_counter s) message
      in case hm_get (tee_pubkeys u) i of
           None \<Rightarrow> Some (Inl (UnknownId i))
         | Some pubkey \<Rightarrow> do {
             res \<leftarrow> ec_verify pubkey data (ts_signature s);
             Some (if \<not> res then Inl InvalidSignature else Inr ())
           })"

definition tee_half_add_remote_party ::
    "('sk, 'pk) usig_tee \<Rightarrow> replica_id \<Rightarrow> 'pk tee_attestation \<Rightarrow> bool \<times> ('sk, 'pk) usig_tee" where
  "tee_half_add_remote_party u i a = (True, u\<lparr>tee_pubkeys := hm_insert i (ta_pub_key a) (tee_pubkeys u)\<rparr>)"

definition usig_tee_ops ::
    "(('sk, 'pk) tee_enclave \<Rightarrow> bool) \<Rightarrow> ('sk \<Rightarrow> bytes \<Rightarrow> 's option) \<Rightarrow> ('pk \<Rightarrow> bytes \<Rightarrow> 's \<Rightarrow> bool option) \<Rightarrow>
     ('sk, 'pk) ec_key_pair \<Rightarrow> (('sk, 'pk) usig_tee, 's tee_signature, 'pk tee_attestation) usig_ops" where
  "usig_tee_ops edge ec_sign ec_verify kp0 = \<lparr>
     u_sign = tee_half_sign edge ec_sign kp0,
     u_attest = tee_half_attest edge kp0,
     u_verify = tee_half_verify ec_verify,
     u_add_remote_party = tee_half_add_remote_party,
     u_counter = ts_counter\<rparr>"

section \<open>What the users of a USIG rely on\<close>

locale usig_service =
  fixes ops :: "('u, 'sig, 'att) usig_ops"
    and cnt :: "'u \<Rightarrow> count"
    and key :: "'u \<Rightarrow> replica_id \<Rightarrow> 'key option"
    and key_of :: "'att \<Rightarrow> 'key"
    and accepts :: "'key \<Rightarrow> bytes \<Rightarrow> 'sig \<Rightarrow> bool option"
  assumes sign_Inr: "u_sign ops m u = Some (Inr s, u') \<Longrightarrow>
        u_counter ops s = cnt u \<and> cnt u' = cnt u + 1 \<and> key u' = key u"
    and sign_Inl: "u_sign ops m u = Some (Inl e, u') \<Longrightarrow> e = SigningFailed \<and> u' = u"
    and attest_frame: "u_attest ops u = (r, u') \<Longrightarrow> cnt u' = cnt u \<and> key u' = key u"
    and verify_eq: "u_verify ops u i m s = (case key u i of
        None \<Rightarrow> Some (Inl (UnknownId i))
      | Some k \<Rightarrow> map_option (\<lambda>b. if b then Inr () else Inl InvalidSignature) (accepts k m s))"
    and add_remote_party_eq: "u_add_remote_party ops u i a = (b, u') \<Longrightarrow>
        b \<and> cnt u' = cnt u \<and> key u' = (key u)(i \<mapsto> key_of a)"
begin

lemma sign_all_counters:
  assumes "usig_sign_all ops ms u = Some (ss, u')"
  shows "map (u_counter ops) ss = map (\<lambda>i. cnt u + of_nat i) [0..<length ms] \<and>
    length ss = length ms \<and> cnt u' = cnt u + of_nat (length ms) \<and> key u' = key u"
  using assms
proof (induction ms arbitrary: u ss)
  case Nil
  then show ?case by simp
next
  case (Cons m ms)
  then obtain s u1 ss' where s: "u_sign ops m u = Some (Inr s, u1)" "ss = s # ss'"
    "usig_sign_all ops ms u1 = Some (ss', u')"
    by (auto split: option.splits sum.splits prod.splits)
  have "map (\<lambda>i. cnt u + of_nat i) [0..<length (m # ms)] =
      cnt u # map (\<lambda>i. cnt u + 1 + of_nat i) [0..<length ms]"
    by (simp add: upt_conv_Cons comp_def add.assoc del: upt_Suc flip: map_Suc_upt)
  with Cons.IH [OF s(3)] sign_Inr [OF s(1)] s(2) show ?case
    by (simp add: add.assoc del: upt_Suc)
qed

lemma counters_inj:
  assumes "i \<le> u64_max" "j \<le> u64_max" "c + of_nat i = c + (of_nat j :: count)"
  shows "i = j"
proof -
  have "(of_nat i :: count) = of_nat j" using assms(3) by simp
  then have "unat (of_nat i :: count) = unat (of_nat j :: count)" by simp
  then show ?thesis using assms by (simp only: unat_of_nat_u64)
qed

lemma sign_all_distinct:
  assumes "usig_sign_all ops ms u = Some (ss, u')" "length ms \<le> u64_max"
  shows "distinct (map (u_counter ops) ss)"
proof -
  have "inj_on (\<lambda>i. cnt u + of_nat i) {0..<length ms}"
    by (rule inj_onI) (rule counters_inj [of _ _ "cnt u"], use assms(2) in simp_all)
  then show ?thesis
    using sign_all_counters [OF assms(1)] by (simp add: distinct_map)
qed

end

locale signing_usig = usig_service ops cnt key key_of accepts
  for ops :: "('u, 'sig, 'att) usig_ops" and cnt key and key_of :: "'att \<Rightarrow> 'key" and accepts +
  fixes data :: "count \<Rightarrow> bytes \<Rightarrow> bytes"
    and raw_verify :: "'key \<Rightarrow> bytes \<Rightarrow> 'sig \<Rightarrow> bool option"
  assumes data_inj: "data c m = data c' m' \<Longrightarrow> c = c' \<and> m = m'"
    and accepts_eq: "accepts k m s = raw_verify k (data (u_counter ops s) m) s"
begin

lemma verify_Inr:
  "u_verify ops u i m s = Some (Inr ()) \<longleftrightarrow>
     (\<exists>k. key u i = Some k \<and> raw_verify k (data (u_counter ops s) m) s = Some True)"
  by (auto simp: verify_eq accepts_eq split: option.splits)

lemma accepted_unique:
  assumes len: "length ms \<le> u64_max"
    and unforgeable: "\<And>d s. raw_verify k d s = Some True \<Longrightarrow> \<exists>i < length ms. d = data (c + of_nat i) (ms ! i)"
    and known: "key v i = Some k"
    and ver: "u_verify ops v i m s = Some (Inr ())" "u_verify ops v i m' s' = Some (Inr ())"
    and same: "u_counter ops s = u_counter ops s'"
  shows "m = m'"
proof -
  obtain a where a: "a < length ms" "u_counter ops s = c + of_nat a" "m = ms ! a"
    using ver(1) known unforgeable verify_Inr data_inj by (metis option.inject)
  obtain b where b: "b < length ms" "u_counter ops s' = c + of_nat b" "m' = ms ! b"
    using ver(2) known unforgeable verify_Inr data_inj by (metis option.inject)
  have "a = b"
    by (rule counters_inj [of _ _ c]) (use a b len same in simp_all)
  with a b show ?thesis by simp
qed

end

section \<open>The three implementations\<close>

lemma sg_data_inj: "sg_data c m = sg_data c' m' \<longleftrightarrow> c = c' \<and> m = m'"
  by (auto simp: sg_data_def)

lemma tee_data_inj: "tee_data c m = tee_data c' m' \<longleftrightarrow> c = c' \<and> m = m'"
  by (auto simp: tee_data_def append_eq_append_conv)

interpretation noop: usig_service usig_noop_ops "\<lambda>u. noop_counter (noop_sign_half u)"
    "\<lambda>u i. if i \<in> set (noop_ids (noop_verify_half u)) then Some () else None"
    "\<lambda>_. ()" "\<lambda>_ _ _. Some True"
  by unfold_locales
    (auto simp: usig_noop_ops_def noop_half_sign_def noop_half_attest_def noop_half_verify_def
      noop_half_add_remote_party_def Let_def fun_eq_iff)

interpretation sgn: signing_usig "usig_signature_ops signer verifier"
    "\<lambda>u. sgh_counter (sg_sign_half u)" "\<lambda>u. map_of (sgh_other_keys (sg_verify_half u))"
    "\<lambda>a. a" "\<lambda>k m s. Some (verifier k (sg_data (sg_counter s) m) (sg_signature s))"
    sg_data "\<lambda>k d s. Some (verifier k d (sg_signature s))"
  for signer :: "'sk \<Rightarrow> bytes \<Rightarrow> 's" and verifier :: "'pk \<Rightarrow> bytes \<Rightarrow> 's \<Rightarrow> bool"
  by unfold_locales
    (auto simp: usig_signature_ops_def sg_half_sign_def sg_half_attest_def sg_half_verify_def
      sg_half_add_remote_party_def Let_def sg_data_inj update_conv split: option.splits)

definition tee_count :: "('sk, 'pk) usig_tee \<Rightarrow> count" where
  "tee_count u = (case tee_enclave u of None \<Rightarrow> 0 | Some st \<Rightarrow> tee_counter st)"

interpretation tee: signing_usig "usig_tee_ops edge ec_sign ec_verify kp0"
    tee_count "\<lambda>u. map_of (tee_pubkeys u)" ta_pub_key
    "\<lambda>k m s. ec_verify k (tee_data (ts_counter s) m) (ts_signature s)"
    tee_data "\<lambda>k d s. ec_verify k d (ts_signature s)"
  for edge :: "('sk, 'pk) tee_enclave \<Rightarrow> bool" and ec_sign :: "'sk \<Rightarrow> bytes \<Rightarrow> 's option"
    and ec_verify :: "'pk \<Rightarrow> bytes \<Rightarrow> 's \<Rightarrow> bool option" and kp0
proof (unfold_locales, goal_cases)
  case (1 m u s u')
  then show ?case
    by (auto simp: usig_tee_ops_def tee_half_sign_def tee_sign_safe_def tee_count_def
        tee_shared_state_get_def tee_init_def Let_def split: if_splits option.splits bind_splits)
next
  case (2 m u e u')
  then show ?case
    by (auto simp: usig_tee_ops_def tee_half_sign_def split: if_splits bind_splits)
next
  case (3 u r u')
  then show ?case
    by (auto simp: usig_tee_ops_def tee_half_attest_def tee_attest_safe_def tee_count_def Let_def
        tee_shared_state_get_def tee_init_def split: if_splits option.splits)
next
  case (4 u i m s)
  then show ?case
    by (auto simp: usig_tee_ops_def tee_half_verify_def map_option_case split: option.splits)
next
  case (5 u i a b u')
  then show ?case
    by (auto simp: usig_tee_ops_def tee_half_add_remote_party_def tee_count_def update_conv)
next
  case (6 c m c' m')
  then show ?case by (simp add: tee_data_inj)
next
  case (7 k m s)
  then show ?case by (simp add: usig_tee_ops_def)
qed

section \<open>Properties\<close>

lemma sg_sign_all_total:
  "\<exists>ss u'. usig_sign_all (usig_signature_ops signer verifier) ms u = Some (ss, u') \<and> length ss = length ms \<and>
     (\<forall>j < length ms. sg_signature (ss ! j) =
        signer (sgh_private_key (sg_sign_half u)) (sg_data (sg_counter (ss ! j)) (ms ! j)))"
proof (induction ms arbitrary: u)
  case Nil
  then show ?case by simp
next
  case (Cons m ms)
  let ?u = "u\<lparr>sg_sign_half := (sg_sign_half u)\<lparr>sgh_counter := sgh_counter (sg_sign_half u) + 1\<rparr>\<rparr>"
  from Cons [of ?u] obtain ss u' where
    "usig_sign_all (usig_signature_ops signer verifier) ms ?u = Some (ss, u')" "length ss = length ms"
    "\<forall>j < length ms. sg_signature (ss ! j) =
        signer (sgh_private_key (sg_sign_half u)) (sg_data (sg_counter (ss ! j)) (ms ! j))"
    by auto
  then show ?case
    by (auto simp: usig_signature_ops_def sg_half_sign_def Let_def nth_Cons split: nat.splits)
qed

text \<open>
  Claim C4. \<open>UsigSignature\<close> signs every message: a fresh service gives the messages of any sequence
  the counters 0, 1, 2, \<dots> without gap or repetition, and a verifier that has added the attested
  public key accepts every signature for its message, as long as the scheme verifies what it signed.
\<close>

theorem usig_signature_sign_verify:
  assumes scheme: "\<And>d. verifier pk d (signer sk d)"
    and len: "length ms \<le> u64_max"
  shows "\<exists>ss u'. usig_sign_all (usig_signature_ops signer verifier) ms (usig_signature_new sk pk) = Some (ss, u') \<and>
    map sg_counter ss = map of_nat [0..<length ms] \<and> distinct (map sg_counter ss) \<and>
    fst (u_attest (usig_signature_ops signer verifier) u') = Inr pk \<and>
    (\<forall>v i j. j < length ms \<longrightarrow>
       u_verify (usig_signature_ops signer verifier)
         (snd (u_add_remote_party (usig_signature_ops signer verifier) v i pk)) i (ms ! j) (ss ! j) = Some (Inr ()))"
proof -
  let ?ops = "usig_signature_ops signer verifier"
  have [simp]: "u_counter ?ops = sg_counter" by (simp add: usig_signature_ops_def)
  obtain ss u' where ss: "usig_sign_all ?ops ms (usig_signature_new sk pk) = Some (ss, u')" "length ss = length ms"
    "\<forall>j < length ms. sg_signature (ss ! j) = signer sk (sg_data (sg_counter (ss ! j)) (ms ! j))"
    using sg_sign_all_total [of signer verifier ms "usig_signature_new sk pk"]
    by (auto simp: usig_signature_new_def sg_sign_half_new_def)
  have counters: "map sg_counter ss = map of_nat [0..<length ms]" "distinct (map sg_counter ss)"
    using sgn.sign_all_counters [OF ss(1)] sgn.sign_all_distinct [OF ss(1) len]
    by (simp_all add: usig_signature_new_def sg_sign_half_new_def)
  have "sgh_public_key (sg_sign_half u') = sgh_public_key (sg_sign_half u)"
    if "usig_sign_all ?ops ms u = Some (ss, u')" for ms ss u
    using that
    by (induction ms arbitrary: u ss)
      (auto simp: usig_signature_ops_def sg_half_sign_def Let_def)
  from this [OF ss(1)] have "fst (u_attest ?ops u') = Inr pk"
    by (simp add: usig_signature_ops_def sg_half_attest_def usig_signature_new_def sg_sign_half_new_def)
  moreover have "u_verify ?ops (snd (u_add_remote_party ?ops v i pk)) i (ms ! j) (ss ! j) = Some (Inr ())"
    if "j < length ms" for v i j
    using that ss(3) scheme
    by (simp add: usig_signature_ops_def sg_half_verify_def sg_half_add_remote_party_def update_conv)
  ultimately show ?thesis using ss(1) counters by blast
qed

theorem usig_signature_sign_verify_witness:
  "\<exists>ss u'. usig_sign_all (usig_signature_ops (\<lambda>sk d. d) (\<lambda>pk d s. s = d)) [[1], [2]] (usig_signature_new () ()) = Some (ss, u') \<and>
    map sg_counter ss = [0, 1]"
proof -
  have "length [[1 :: byte], [2]] \<le> u64_max" by (simp add: u64_max_def)
  from usig_signature_sign_verify [where verifier = "\<lambda>pk d s. s = d" and signer = "\<lambda>sk d. d"
      and sk = "()" and pk = "()", OF refl this]
  show ?thesis by (auto simp: upt_rec)
qed

text \<open>
  Claim C5. No equivocation with \<open>UsigSignature\<close>: let \<open>ms\<close> be the messages that a service signs. The
  counters it hands out for them count up from its counter without gap or repetition. If the scheme
  accepts under its key only data that it signed (a message of \<open>ms\<close> with the counter of the signature
  made for it), then a verifier never accepts two different messages of that replica with the same
  counter, and accepts only messages of \<open>ms\<close>, each with the counter it was signed with.
\<close>

theorem usig_signature_no_equivocation:
  assumes len: "length ms \<le> u64_max"
    and signed: "usig_sign_all (usig_signature_ops signer verifier) ms u = Some (ss, u')"
    and unforgeable: "\<And>d s. verifier pk d s \<Longrightarrow> \<exists>j < length ms. d = sg_data (sg_counter (ss ! j)) (ms ! j)"
    and known: "hm_get (sgh_other_keys (sg_verify_half v)) i = Some pk"
  shows "map sg_counter ss = map (\<lambda>j. sgh_counter (sg_sign_half u) + of_nat j) [0..<length ms] \<and> distinct (map sg_counter ss) \<and>
    (\<forall>m s. u_verify (usig_signature_ops signer verifier) v i m s = Some (Inr ()) \<longrightarrow>
       (\<exists>j < length ms. m = ms ! j \<and> sg_counter s = sg_counter (ss ! j))) \<and>
    (\<forall>m m' s s'. u_verify (usig_signature_ops signer verifier) v i m s = Some (Inr ()) \<and>
       u_verify (usig_signature_ops signer verifier) v i m' s' = Some (Inr ()) \<and> sg_counter s = sg_counter s' \<longrightarrow> m = m')"
proof -
  let ?ops = "usig_signature_ops signer verifier"
  have [simp]: "u_counter ?ops = sg_counter" by (simp add: usig_signature_ops_def)
  have counters: "map sg_counter ss = map (\<lambda>j. sgh_counter (sg_sign_half u) + of_nat j) [0..<length ms]" "length ss = length ms"
    and dist: "distinct (map sg_counter ss)"
    using sgn.sign_all_counters [OF signed] sgn.sign_all_distinct [OF signed len] by simp_all
  have accepted: "\<exists>j < length ms. m = ms ! j \<and> sg_counter s = sg_counter (ss ! j)"
    if "u_verify ?ops v i m s = Some (Inr ())" for m s
  proof -
    have "verifier pk (sg_data (sg_counter s) m) (sg_signature s)" using that known by (auto simp: sgn.verify_Inr)
    from unforgeable [OF this] show ?thesis by (auto simp: sg_data_inj)
  qed
  have "m = m'" if ver: "u_verify ?ops v i m s = Some (Inr ())" "u_verify ?ops v i m' s' = Some (Inr ())" "sg_counter s = sg_counter s'" for m m' s s'
  proof -
    obtain j j' where j: "j < length ms" "m = ms ! j" "sg_counter s = map sg_counter ss ! j" "j' < length ms" "m' = ms ! j'" "sg_counter s' = map sg_counter ss ! j'"
      using accepted [OF ver(1)] accepted [OF ver(2)] counters(2) by auto
    then have "j = j'" using ver(3) nth_eq_iff_index_eq [OF dist, of j j'] counters(2) by simp
    then show ?thesis using j by simp
  qed
  then show ?thesis using counters dist accepted by blast
qed

theorem usig_signature_no_equivocation_witness:
  "\<exists>ss u'. usig_sign_all (usig_signature_ops (\<lambda>sk d. d) (\<lambda>pk d s. s = d \<and> (d = sg_data 0 [7] \<or> d = sg_data 1 [8]))) [[7], [8]] (usig_signature_new () ()) =
      Some (ss, u') \<and> map sg_counter ss = [0, 1] \<and>
    (\<forall>m s. u_verify (usig_signature_ops (\<lambda>sk d. d) (\<lambda>pk d s. s = d \<and> (d = sg_data 0 [7] \<or> d = sg_data 1 [8])))
        \<lparr>sg_sign_half = sg_sign_half_new () (), sg_verify_half = \<lparr>sgh_other_keys = [(2, ())]\<rparr>\<rparr> 2 m s = Some (Inr ()) \<longrightarrow> m = [7] \<or> m = [8])"
proof -
  let ?verifier = "\<lambda>(pk :: unit) d s. s = d \<and> (d = sg_data 0 [7] \<or> d = sg_data 1 [8])"
  let ?ops = "usig_signature_ops (\<lambda>(sk :: unit) d. d) ?verifier"
  let ?v = "\<lparr>sg_sign_half = sg_sign_half_new () (), sg_verify_half = \<lparr>sgh_other_keys = [(2, ())]\<rparr>\<rparr>"
  let ?ss = "[\<lparr>sg_counter = 0, sg_signature = sg_data 0 [7]\<rparr>, \<lparr>sg_counter = 1, sg_signature = sg_data 1 [8]\<rparr>]"
  obtain u' where run: "usig_sign_all ?ops [[7], [8]] (usig_signature_new () ()) = Some (?ss, u')"
    by (simp add: usig_signature_ops_def sg_half_sign_def usig_signature_new_def sg_sign_half_new_def Let_def)
  have "\<exists>j < length [[7 :: byte], [8]]. d = sg_data (sg_counter (?ss ! j)) ([[7], [8]] ! j)" if "?verifier () d s" for d s
    using that by (auto simp: less_Suc_eq)
  moreover have "length [[7 :: byte], [8]] \<le> u64_max" by (simp add: u64_max_def)
  moreover have "hm_get (sgh_other_keys (sg_verify_half ?v)) 2 = Some ()" by simp
  ultimately have "\<forall>m s. u_verify ?ops ?v 2 m s = Some (Inr ()) \<longrightarrow> (\<exists>j < length [[7 :: byte], [8]]. m = [[7], [8]] ! j \<and> sg_counter s = sg_counter (?ss ! j))"
    using usig_signature_no_equivocation [OF _ run, where pk = "()" and v = ?v and i = 2] by blast
  moreover have "x = [7] \<or> x = [8]" if "\<exists>j < length [[7 :: byte], [8]]. x = [[7], [8]] ! j \<and> P j" for x :: bytes and P
    using that by (auto simp: less_Suc_eq)
  ultimately have "\<forall>m s. u_verify ?ops ?v 2 m s = Some (Inr ()) \<longrightarrow> m = [7] \<or> m = [8]" by blast
  moreover have "map sg_counter ?ss = [0, 1]" by simp
  ultimately show ?thesis using run by (intro exI [of _ ?ss] exI [of _ u'] conjI)
qed

text \<open>
  Claim C6. No equivocation with \<open>UsigTEE\<close>: if the enclave's key accepts only data that the enclave
  signed while signing the messages \<open>ms\<close> from its initial state, then a verifier never accepts two
  different messages of that replica with the same counter; and the counters the enclave handed out
  for \<open>ms\<close> are 0, 1, 2, \<dots> without repetition.
\<close>

theorem usig_tee_no_equivocation:
  assumes len: "length ms \<le> u64_max"
    and signed: "usig_sign_all (usig_tee_ops edge ec_sign ec_verify kp0) ms usig_tee_init = Some (ss, u')"
    and unforgeable: "\<And>d s. ec_verify pk d s = Some True \<Longrightarrow> \<exists>i < length ms. d = tee_data (of_nat i) (ms ! i)"
    and known: "hm_get (tee_pubkeys v) i = Some pk"
  shows "map ts_counter ss = map of_nat [0..<length ms] \<and> distinct (map ts_counter ss) \<and>
    (\<forall>m m' s s'. u_verify (usig_tee_ops edge ec_sign ec_verify kp0) v i m s = Some (Inr ()) \<and>
       u_verify (usig_tee_ops edge ec_sign ec_verify kp0) v i m' s' = Some (Inr ()) \<and>
       ts_counter s = ts_counter s' \<longrightarrow> m = m')"
proof -
  let ?ops = "usig_tee_ops edge ec_sign ec_verify kp0"
  have [simp]: "u_counter ?ops = ts_counter" by (simp add: usig_tee_ops_def)
  have "map ts_counter ss = map of_nat [0..<length ms]" "distinct (map ts_counter ss)"
    using tee.sign_all_counters [OF signed] tee.sign_all_distinct [OF signed len]
    by (simp_all add: usig_tee_init_def tee_count_def)
  moreover have "m = m'" if "u_verify ?ops v i m s = Some (Inr ())" "u_verify ?ops v i m' s' = Some (Inr ())"
    "ts_counter s = ts_counter s'" for m m' s s'
    by (rule tee.accepted_unique [OF len _ _ that(1,2), where c = 0 and k = pk])
      (use unforgeable known that(3) in auto)
  ultimately show ?thesis by blast
qed

theorem usig_tee_no_equivocation_witness:
  "\<exists>ss u'. usig_sign_all (usig_tee_ops (\<lambda>_. True) (\<lambda>sk d. Some d) (\<lambda>pk d s. Some (s = d \<and> d = tee_data 0 [7]))
      \<lparr>ec_private_key = (), ec_public_key = ()\<rparr>) [[7]] usig_tee_init = Some (ss, u') \<and> map ts_counter ss = [0]"
proof -
  let ?ec_verify = "\<lambda>(pk :: unit) d s. Some (s = d \<and> d = tee_data 0 [7])"
  let ?kp = "\<lparr>ec_private_key = (), ec_public_key = ()\<rparr>"
  have "\<exists>ss u'. usig_sign_all (usig_tee_ops (\<lambda>_. True) (\<lambda>sk d. Some d) ?ec_verify ?kp) [[7]] usig_tee_init = Some (ss, u')"
    by (simp add: usig_tee_ops_def tee_half_sign_def tee_sign_safe_def Let_def)
  then obtain ss u' where
    s: "usig_sign_all (usig_tee_ops (\<lambda>_. True) (\<lambda>sk d. Some d) ?ec_verify ?kp) [[7]] usig_tee_init = Some (ss, u')"
    by blast
  from usig_tee_no_equivocation [OF _ s, where pk = "()" and i = 2
      and v = "\<lparr>tee_enclave = None, tee_pubkeys = [(2, ())]\<rparr>"]
  have "map ts_counter ss = [0]" by (simp add: u64_max_def)
  with s show ?thesis by (intro exI conjI)
qed

end
