(* ===== verification/Minbft_Config.thy ===== *)
theory Minbft_Config
  imports Usig_Model
begin

text \<open>
  The configuration of a MinBFT replica (\<^verbatim>\<open>minbft/src/config.rs\<close>), views and nonces
  (\<^verbatim>\<open>minbft/src/lib.rs\<close>), timeouts (\<^verbatim>\<open>minbft/src/timeout.rs\<close>) and timeout requests
  (\<^verbatim>\<open>minbft/src/output.rs\<close>).

  A \<open>Duration\<close> is its number of nanoseconds; the standard library's multiplication panics when the
  number of seconds exceeds \<open>u64::MAX\<close>. An \<open>f32\<close> is its bit pattern. The \<open>NonZero\<close> types are
  plain numbers, and \<open>config_wf\<close> states what they guarantee.
\<close>

section \<open>Durations, views, nonces\<close>

type_synonym duration = nat
type_synonym f32 = "32 word"
type_synonym view = u64
type_synonym nonce = "128 word"

definition duration_max :: duration where
  "duration_max = u64_max * 1000000000 + 999999999"

definition duration_mul_assign :: "duration \<Rightarrow> nat \<Rightarrow> duration option" where
  "duration_mul_assign d rhs = (if d * rhs \<le> duration_max then Some (d * rhs) else None)"

section \<open>Configuration\<close>

datatype batch_configuration =
  BC_Trivial duration "nat option"
| BC_AESC nat nat
| BC_EMA f32 f32

record config =
  cfg_n :: u64
  cfg_t :: u64
  cfg_id :: replica_id
  cfg_batcher_configuration :: batch_configuration
  cfg_initial_timeout_duration :: duration
  cfg_checkpoint_period :: u64
  cfg_backoff_multiplier :: "8 word"

definition config_validate :: "config \<Rightarrow> unit option" where
  "config_validate c =
     do {
       rust_assert (cfg_id c < cfg_n c);
       rust_assert (2 * cfg_t c < cfg_n c)
     }"

definition me :: "config \<Rightarrow> replica_id" where
  "me c = cfg_id c"

definition primary :: "config \<Rightarrow> view \<Rightarrow> replica_id" where
  "primary c v = v mod cfg_n c"

definition is_primary :: "config \<Rightarrow> view \<Rightarrow> replica_id \<Rightarrow> bool option" where
  "is_primary c v replica =
     do {
       rust_assert (replica < cfg_n c);
       Some (replica = primary c v)
     }"

definition me_primary :: "config \<Rightarrow> view \<Rightarrow> bool option" where
  "me_primary c v = is_primary c v (me c)"

definition all_replicas :: "config \<Rightarrow> replica_id list" where
  "all_replicas c = id_iter_take (unat (cfg_n c)) id_iter_default"

section \<open>Timeouts\<close>

datatype timeout_type = TT_Batch | TT_Client | TT_ViewChange

type_synonym stop_class = u64

record timeout =
  to_timeout_type :: timeout_type
  to_duration :: duration
  to_stop_class :: stop_class

record timeout_any =
  toa_timeout_type :: timeout_type
  toa_duration :: duration

definition timeout_any_client :: "duration \<Rightarrow> timeout_any" where
  "timeout_any_client d = \<lparr>toa_timeout_type = TT_Client, toa_duration = d\<rparr>"

definition timeout_batch :: "duration \<Rightarrow> timeout" where
  "timeout_batch d = \<lparr>to_timeout_type = TT_Batch, to_duration = d, to_stop_class = 0\<rparr>"

definition timeout_client :: "client_id \<Rightarrow> duration \<Rightarrow> timeout" where
  "timeout_client c d = \<lparr>to_timeout_type = TT_Client, to_duration = d, to_stop_class = c\<rparr>"

definition timeout_view_change :: "duration \<Rightarrow> timeout" where
  "timeout_view_change d = \<lparr>to_timeout_type = TT_ViewChange, to_duration = d, to_stop_class = 0\<rparr>"

datatype timeout_request =
  TR_Start timeout
| TR_Stop timeout
| TR_StopAny timeout_any

definition new_start_client_req :: "client_id \<Rightarrow> duration \<Rightarrow> timeout_request" where
  "new_start_client_req c d = TR_Start (timeout_client c d)"

definition new_start_view_change :: "duration \<Rightarrow> timeout_request" where
  "new_start_view_change d = TR_Start (timeout_view_change d)"

definition new_stop_batch_req :: timeout_request where
  "new_stop_batch_req = TR_Stop (timeout_batch 0)"

definition new_stop_client_req :: "client_id \<Rightarrow> timeout_request" where
  "new_stop_client_req c = TR_Stop (timeout_client c 0)"

definition new_stop_view_change :: timeout_request where
  "new_stop_view_change = TR_Stop (timeout_view_change 0)"

definition new_stop_any_client_req :: timeout_request where
  "new_stop_any_client_req = TR_StopAny (timeout_any_client 0)"

section \<open>Lemmas\<close>

definition config_wf :: "config \<Rightarrow> bool" where
  "config_wf c \<longleftrightarrow> cfg_n c \<noteq> 0 \<and> cfg_checkpoint_period c \<noteq> 0 \<and>
     cfg_id c < cfg_n c \<and> 2 * unat (cfg_t c) < unat (cfg_n c)"

lemma primary_less: "cfg_n c \<noteq> 0 \<Longrightarrow> primary c v < cfg_n c"
  by (simp add: primary_def word_mod_less_divisor word_gt_0)

lemma unat_primary: "unat (primary c v) = unat v mod unat (cfg_n c)"
  by (simp add: primary_def unat_mod)

lemma is_primary_Some: "replica < cfg_n c \<Longrightarrow> is_primary c v replica = Some (replica = primary c v)"
  by (simp add: is_primary_def rust_assert_def)

lemma is_primary_None: "\<not> replica < cfg_n c \<Longrightarrow> is_primary c v replica = None"
  by (simp add: is_primary_def rust_assert_def)

lemma me_primary_Some: "config_wf c \<Longrightarrow> me_primary c v = Some (cfg_id c = primary c v)"
  by (simp add: me_primary_def me_def is_primary_Some config_wf_def)

lemma config_validate_Some:
  "config_validate c = Some () \<longleftrightarrow> cfg_id c < cfg_n c \<and> 2 * cfg_t c < cfg_n c"
  by (simp add: config_validate_def rust_assert_def)

lemma u64_unat_less: "unat (w :: u64) < 2 ^ 64"
  using unsigned_less [of w] by simp

lemma two_times_unat: "unat (t :: u64) < 2 ^ 63 \<Longrightarrow> unat (2 * t) = 2 * unat t"
  by (simp add: unat_word_ariths)

lemma config_wf_validates:
  assumes "config_wf c"
  shows "config_validate c = Some ()"
proof -
  have "unat (cfg_t c) < 2 ^ 63"
    using assms u64_unat_less [of "cfg_n c"] by (simp add: config_wf_def)
  then have "unat (2 * cfg_t c) = 2 * unat (cfg_t c)" by (rule two_times_unat)
  with assms show ?thesis
    by (simp add: config_validate_Some config_wf_def word_less_nat_alt)
qed

lemma all_replicas_eq: "all_replicas c = map of_nat [0..<unat (cfg_n c)]"
proof -
  have "unat (cfg_n c) \<le> u64_max" by (simp only: less_u64_max u64_unat_less)
  then show ?thesis by (simp add: all_replicas_def id_iter_take_default min_absorb1)
qed

lemma length_all_replicas [simp]: "length (all_replicas c) = unat (cfg_n c)"
  by (simp add: all_replicas_eq)

lemma set_all_replicas: "set (all_replicas c) = {r. r < cfg_n c}"
proof -
  have "r \<in> set (all_replicas c) \<longleftrightarrow> r < cfg_n c" for r
  proof
    assume "r \<in> set (all_replicas c)"
    then obtain k where k: "k < unat (cfg_n c)" "r = of_nat k" by (auto simp: all_replicas_eq)
    then have "k \<le> u64_max" using u64_unat_less [of "cfg_n c"] by (simp only: less_u64_max)
    with k show "r < cfg_n c" by (simp add: u64_less_unat unat_of_nat_u64)
  next
    assume "r < cfg_n c"
    then have "r = of_nat (unat r)" "unat r \<in> {0..<unat (cfg_n c)}" by (simp_all add: u64_less_unat)
    then show "r \<in> set (all_replicas c)" by (metis all_replicas_eq image_eqI set_map set_upt)
  qed
  then show ?thesis by auto
qed

section \<open>Properties\<close>


definition sample_config :: config where
  "sample_config = \<lparr>cfg_n = 3, cfg_t = 1, cfg_id = 0, cfg_batcher_configuration = BC_Trivial 0 None,
     cfg_initial_timeout_duration = 1, cfg_checkpoint_period = 2, cfg_backoff_multiplier = 2\<rparr>"


text \<open>
  The start-up check of the configuration accepts every configuration whose replica
  identifier is in range and which has more than twice as many replicas as faults; conversely it
  rejects every other one as long as \<open>t < 2 ^ 63\<close>. Above that, \<open>2 * t\<close> wraps around: there is an
  accepted configuration with one replica and \<open>2 ^ 63\<close> tolerated faults.
\<close>

theorem config_validate_exact:
  "(unat (cfg_t c) < 2 ^ 63 \<longrightarrow>
      (config_validate c = Some () \<longleftrightarrow> cfg_id c < cfg_n c \<and> 2 * unat (cfg_t c) < unat (cfg_n c))) \<and>
   (config_wf c \<longrightarrow> config_validate c = Some ()) \<and>
   config_validate (sample_config\<lparr>cfg_n := 1, cfg_t := 2 ^ 63\<rparr>) = Some ()"
proof (intro conjI impI)
  assume "unat (cfg_t c) < 2 ^ 63"
  then show "config_validate c = Some () \<longleftrightarrow> cfg_id c < cfg_n c \<and> 2 * unat (cfg_t c) < unat (cfg_n c)"
    by (simp add: config_validate_Some two_times_unat word_less_nat_alt)
next
  show "config_validate (sample_config\<lparr>cfg_n := 1, cfg_t := 2 ^ 63\<rparr>) = Some ()"
    by (simp add: config_validate_Some sample_config_def)
qed (rule config_wf_validates)

theorem config_validate_exact_witness:
  "config_validate sample_config = Some () \<and> unat (cfg_t sample_config) < 2 ^ 63"
  using config_validate_exact [of sample_config] by (simp add: sample_config_def)

end
