(* ===== verification/Minbft_Messages.thy ===== *)
theory Minbft_Messages
  imports Minbft_Config
begin

text \<open>
  The messages of MinBFT: client requests and batches (\<^verbatim>\<open>client_request.rs\<close>, \<^verbatim>\<open>lib.rs\<close>) and
  the peer messages of \<^verbatim>\<open>peer_message/\<close>, with the byte streams their \<open>Hashbar\<close> and
  \<open>UsigSignable\<close> implementations feed to the hasher, and signing and verifying of \<open>UsigSigned\<close>.

  The record \<open>crypto\<close> holds what the messages need of code outside the repository: SHA-256, the
  \<open>Hashbar\<close> streams of the application's payload type and of the USIG's attestations and
  signatures, and the USIG's methods. A hasher that is updated several times digests the
  concatenation of the updates, so a stream is the list of its bytes. The newtypes
  \<open>ViewChangeVariantLog\<close>, \<open>ViewChangeVariantNoLog\<close> and \<open>NewViewCertificate\<close> are the lists they wrap.
\<close>

section \<open>Parameters\<close>

record ('p, 'u, 'sig, 'att) crypto =
  sha256 :: "bytes \<Rightarrow> bytes"
  hash_payload :: "'p \<Rightarrow> bytes"
  hash_att :: "'att \<Rightarrow> bytes"
  hash_sig :: "'sig \<Rightarrow> bytes"
  usig :: "('u, 'sig, 'att) usig_ops"

definition nonce_le_bytes :: "nonce \<Rightarrow> bytes" where
  "nonce_le_bytes w = map (\<lambda>i. ucast (drop_bit (8 * i) w)) [0..<16]"

section \<open>Client requests\<close>

record 'att recovery_request_payload =
  rrp_request_id :: request_id
  rrp_replica_id :: replica_id
  rrp_attestation :: 'att
  rrp_nonce :: nonce

datatype ('p, 'att) wrapped_request_payload =
  WRP_Client request_id 'p
| WRP_Internal "'att recovery_request_payload"

fun wrapped_id :: "('p, 'att) wrapped_request_payload \<Rightarrow> request_id" where
  "wrapped_id (WRP_Client i _) = i"
| "wrapped_id (WRP_Internal req) = rrp_request_id req"

record ('p, 'att) client_request =
  cr_client :: client_id
  cr_payload :: "('p, 'att) wrapped_request_payload"

definition cr_id :: "('p, 'att) client_request \<Rightarrow> request_id" where
  "cr_id r = wrapped_id (cr_payload r)"

type_synonym ('p, 'att) request_batch = "('p, 'att) client_request list"

definition request_batch_validate :: "('p, 'att) request_batch \<Rightarrow> bool" where
  "request_batch_validate b = True"

definition recovery_request_bytes ::
    "('p, 'u, 'sig, 'att, 'z) crypto_scheme \<Rightarrow> 'att recovery_request_payload \<Rightarrow> bytes" where
  "recovery_request_bytes H r =
     to_le_bytes (rrp_request_id r) @ to_le_bytes (rrp_replica_id r) @ hash_att H (rrp_attestation r) @
     nonce_le_bytes (rrp_nonce r)"

fun wrapped_bytes ::
    "('p, 'u, 'sig, 'att, 'z) crypto_scheme \<Rightarrow> ('p, 'att) wrapped_request_payload \<Rightarrow> bytes" where
  "wrapped_bytes H (WRP_Client i payload) = [0] @ to_le_bytes i @ hash_payload H payload"
| "wrapped_bytes H (WRP_Internal req) = [1] @ recovery_request_bytes H req"

definition client_request_bytes ::
    "('p, 'u, 'sig, 'att, 'z) crypto_scheme \<Rightarrow> ('p, 'att) client_request \<Rightarrow> bytes" where
  "client_request_bytes H r = to_le_bytes (cr_client r) @ wrapped_bytes H (cr_payload r)"

definition request_batch_bytes ::
    "('p, 'u, 'sig, 'att, 'z) crypto_scheme \<Rightarrow> ('p, 'att) request_batch \<Rightarrow> bytes" where
  "request_batch_bytes H b = concat (map (client_request_bytes H) b)"

section \<open>The replica's storage\<close>

record replica_storage =
  last_hash :: bytes

definition replica_storage_new :: replica_storage where
  "replica_storage_new = \<lparr>last_hash = replicate 32 0\<rparr>"

definition execute_request ::
    "('p, 'u, 'sig, 'att, 'z) crypto_scheme \<Rightarrow> client_id \<Rightarrow> request_id \<Rightarrow> 'p \<Rightarrow> replica_storage \<Rightarrow> replica_storage" where
  "execute_request H client i request s =
     s\<lparr>last_hash := sha256 H (last_hash s @ to_le_bytes client @ to_le_bytes i @ hash_payload H request)\<rparr>"

section \<open>Signed messages\<close>

datatype ('t, 'sig) usig_signed = UsigSigned (us_data: 't) (us_signature: 'sig)

record ('p, 'att) prepare_content =
  pc_origin :: replica_id
  pc_view :: view
  pc_request_batch :: "('p, 'att) request_batch"

type_synonym ('p, 'sig, 'att) prepare = "(('p, 'att) prepare_content, 'sig) usig_signed"

record ('p, 'sig, 'att) commit_content =
  cc_origin :: replica_id
  cc_prepare :: "('p, 'sig, 'att) prepare"

type_synonym ('p, 'sig, 'att) commit = "(('p, 'sig, 'att) commit_content, 'sig) usig_signed"

datatype ('p, 'sig, 'att) view_peer_message =
  VP_Prepare "('p, 'sig, 'att) prepare"
| VP_Commit "('p, 'sig, 'att) commit"

record 'att checkpoint_content =
  cp_origin :: replica_id
  cp_counter_latest_prep :: count
  cp_view_latest_prep :: view
  cp_state_hash :: bytes
  cp_total_amount_accepted_batches :: u64
  cp_last_executed_client_req :: "(client_id, request_id) hash_map"
  cp_usig_attestations :: "(replica_id, 'att) hash_map"
  cp_recovering_replicas :: "(replica_id, nonce) hash_map"

type_synonym ('sig, 'att) checkpoint = "('att checkpoint_content, 'sig) usig_signed"

record ('sig, 'att) checkpoint_certificate =
  my_checkpoint :: "('sig, 'att) checkpoint"
  other_checkpoints :: "('sig, 'att) checkpoint list"

datatype ('v, 'sig, 'att) view_change_content =
  ViewChangeContent
    (vc_origin: replica_id)
    (vc_next_view: view)
    (vc_checkpoint_cert: "('sig, 'att) checkpoint_certificate option")
    (vc_variant: 'v)

datatype ('vc, 'nv, 'p, 'sig, 'att) usig_message_v =
  UM_View "('p, 'sig, 'att) view_peer_message"
| UM_ViewChange 'vc
| UM_NewView 'nv
| UM_Checkpoint "('sig, 'att) checkpoint"

datatype ('p, 'sig, 'att) new_view_content =
  NewViewContent
    (nv_origin: replica_id)
    (nv_next_view: view)
    (nv_certificate:
      "(((((bytes, 'sig, 'att) view_change_content, 'sig) usig_signed,
          (('p, 'sig, 'att) new_view_content, 'sig) usig_signed, 'p, 'sig, 'att) usig_message_v list,
         'sig, 'att) view_change_content, 'sig) usig_signed list")

type_synonym ('p, 'sig, 'att) new_view = "(('p, 'sig, 'att) new_view_content, 'sig) usig_signed"

type_synonym ('sig, 'att) view_change_no_log = "((bytes, 'sig, 'att) view_change_content, 'sig) usig_signed"

type_synonym ('p, 'sig, 'att) log_message =
  "(('sig, 'att) view_change_no_log, ('p, 'sig, 'att) new_view, 'p, 'sig, 'att) usig_message_v"

type_synonym ('p, 'sig, 'att) view_change =
  "((('p, 'sig, 'att) log_message list, 'sig, 'att) view_change_content, 'sig) usig_signed"

type_synonym ('p, 'sig, 'att) usig_message =
  "(('p, 'sig, 'att) view_change, ('p, 'sig, 'att) new_view, 'p, 'sig, 'att) usig_message_v"

record req_view_change =
  rvc_prev_view :: view
  rvc_next_view :: view

datatype ('p, 'sig, 'att) validated_peer_message =
  PM_Hello 'att
| PM_ReqViewChange req_view_change
| PM_Usig "('p, 'sig, 'att) usig_message"
| PM_RecoveryRequest 'att nonce
| PM_RecoveryReply nonce replica_storage "('sig, 'att) checkpoint_certificate"
| PM_Forward nonce "('p, 'sig, 'att) usig_message" "('p, 'sig, 'att) usig_message list"

section \<open>Origins, counters, views and types of messages\<close>

abbreviation prepare_origin :: "('p, 'sig, 'att) prepare \<Rightarrow> replica_id" where
  "prepare_origin m \<equiv> pc_origin (us_data m)"

abbreviation prepare_view :: "('p, 'sig, 'att) prepare \<Rightarrow> view" where
  "prepare_view m \<equiv> pc_view (us_data m)"

abbreviation commit_origin :: "('p, 'sig, 'att) commit \<Rightarrow> replica_id" where
  "commit_origin m \<equiv> cc_origin (us_data m)"

abbreviation commit_prepare :: "('p, 'sig, 'att) commit \<Rightarrow> ('p, 'sig, 'att) prepare" where
  "commit_prepare m \<equiv> cc_prepare (us_data m)"

definition signed_counter :: "('p, 'u, 'sig, 'att, 'z) crypto_scheme \<Rightarrow> ('t, 'sig) usig_signed \<Rightarrow> count" where
  "signed_counter H m = u_counter (usig H) (us_signature m)"

fun view_peer_counter :: "('p, 'u, 'sig, 'att, 'z) crypto_scheme \<Rightarrow> ('p, 'sig, 'att) view_peer_message \<Rightarrow> count" where
  "view_peer_counter H (VP_Prepare m) = signed_counter H m"
| "view_peer_counter H (VP_Commit m) = signed_counter H m"

fun view_peer_origin :: "('p, 'sig, 'att) view_peer_message \<Rightarrow> replica_id" where
  "view_peer_origin (VP_Prepare m) = prepare_origin m"
| "view_peer_origin (VP_Commit m) = commit_origin m"

fun view_peer_view :: "('p, 'sig, 'att) view_peer_message \<Rightarrow> view" where
  "view_peer_view (VP_Prepare m) = prepare_view m"
| "view_peer_view (VP_Commit m) = prepare_view (commit_prepare m)"

fun view_peer_msg_type :: "('p, 'sig, 'att) view_peer_message \<Rightarrow> string" where
  "view_peer_msg_type (VP_Commit m) = ''Commit''"
| "view_peer_msg_type (VP_Prepare m) = ''Prepare''"

fun usig_message_counter ::
    "('p, 'u, 'sig, 'att, 'z) crypto_scheme \<Rightarrow>
     ((('v, 'sig, 'att) view_change_content, 'sig) usig_signed, ('p, 'sig, 'att) new_view, 'p, 'sig, 'att) usig_message_v \<Rightarrow>
     count" where
  "usig_message_counter H (UM_View m) = view_peer_counter H m"
| "usig_message_counter H (UM_ViewChange m) = signed_counter H m"
| "usig_message_counter H (UM_NewView m) = signed_counter H m"
| "usig_message_counter H (UM_Checkpoint m) = signed_counter H m"

fun usig_message_origin ::
    "((('v, 'sig, 'att) view_change_content, 'sig) usig_signed, ('p, 'sig, 'att) new_view, 'p, 'sig, 'att) usig_message_v \<Rightarrow>
     replica_id" where
  "usig_message_origin (UM_View m) = view_peer_origin m"
| "usig_message_origin (UM_ViewChange m) = vc_origin (us_data m)"
| "usig_message_origin (UM_NewView m) = nv_origin (us_data m)"
| "usig_message_origin (UM_Checkpoint m) = cp_origin (us_data m)"

fun usig_message_msg_type :: "('vc, 'nv, 'p, 'sig, 'att) usig_message_v \<Rightarrow> string" where
  "usig_message_msg_type (UM_NewView m) = ''NewView''"
| "usig_message_msg_type (UM_ViewChange m) = ''ViewChange''"
| "usig_message_msg_type (UM_View m) = view_peer_msg_type m"
| "usig_message_msg_type (UM_Checkpoint m) = ''Checkpoint''"

section \<open>Hash streams\<close>

definition prepare_hash_content ::
    "('p, 'u, 'sig, 'att, 'z) crypto_scheme \<Rightarrow> ('p, 'att) prepare_content \<Rightarrow> bytes" where
  "prepare_hash_content H c =
     to_le_bytes (pc_origin c) @ to_le_bytes (pc_view c) @ request_batch_bytes H (pc_request_batch c)"

definition signed_bytes ::
    "('p, 'u, 'sig, 'att, 'z) crypto_scheme \<Rightarrow> ('t \<Rightarrow> bytes) \<Rightarrow> ('t, 'sig) usig_signed \<Rightarrow> bytes" where
  "signed_bytes H hash_content m = hash_content (us_data m) @ hash_sig H (us_signature m)"

definition commit_hash_content ::
    "('p, 'u, 'sig, 'att, 'z) crypto_scheme \<Rightarrow> ('p, 'sig, 'att) commit_content \<Rightarrow> bytes" where
  "commit_hash_content H c =
     to_le_bytes (cc_origin c) @ signed_bytes H (prepare_hash_content H) (cc_prepare c)"

fun view_peer_bytes :: "('p, 'u, 'sig, 'att, 'z) crypto_scheme \<Rightarrow> ('p, 'sig, 'att) view_peer_message \<Rightarrow> bytes" where
  "view_peer_bytes H (VP_Prepare m) = [0] @ signed_bytes H (prepare_hash_content H) m"
| "view_peer_bytes H (VP_Commit m) = [1] @ signed_bytes H (commit_hash_content H) m"

definition sorted_entries_bytes :: "('v \<Rightarrow> bytes) \<Rightarrow> (u64, 'v) hash_map \<Rightarrow> bytes" where
  "sorted_entries_bytes value_bytes m =
     concat (map (\<lambda>(k, v). to_le_bytes k @ value_bytes v) (sort_key fst m))"

definition checkpoint_hash_content ::
    "('p, 'u, 'sig, 'att, 'z) crypto_scheme \<Rightarrow> 'att checkpoint_content \<Rightarrow> bytes" where
  "checkpoint_hash_content H c =
     to_le_bytes (cp_origin c) @
     sorted_entries_bytes to_le_bytes (cp_last_executed_client_req c) @
     to_le_bytes (cp_counter_latest_prep c) @
     sorted_entries_bytes (hash_att H) (cp_usig_attestations c) @
     to_le_bytes (cp_view_latest_prep c) @
     sorted_entries_bytes nonce_le_bytes (cp_recovering_replicas c) @
     cp_state_hash c @
     to_le_bytes (cp_total_amount_accepted_batches c)"

definition checkpoint_certificate_bytes ::
    "('p, 'u, 'sig, 'att, 'z) crypto_scheme \<Rightarrow> ('sig, 'att) checkpoint_certificate \<Rightarrow> bytes" where
  "checkpoint_certificate_bytes H c =
     signed_bytes H (checkpoint_hash_content H) (my_checkpoint c) @
     concat (map (signed_bytes H (checkpoint_hash_content H)) (other_checkpoints c))"

definition view_change_hash_content ::
    "('p, 'u, 'sig, 'att, 'z) crypto_scheme \<Rightarrow> ('v \<Rightarrow> bytes) \<Rightarrow> ('v, 'sig, 'att) view_change_content \<Rightarrow> bytes" where
  "view_change_hash_content H variant_hash c =
     to_le_bytes (vc_origin c) @ to_le_bytes (vc_next_view c) @
     (case vc_checkpoint_cert c of None \<Rightarrow> [] | Some cert \<Rightarrow> checkpoint_certificate_bytes H cert) @
     variant_hash (vc_variant c)"

text \<open>The size of a message with the messages nested in it, for the recursion of the streams.\<close>

definition log_message_size :: "('p, 'sig, 'att) log_message \<Rightarrow> nat" where
  "log_message_size m =
     size_usig_message_v (size_usig_signed size (\<lambda>_. 0)) (size_usig_signed snd (\<lambda>_. 0)) (\<lambda>_. 0) (\<lambda>_. 0) (\<lambda>_. 0)
       (map_usig_message_v (\<lambda>x. x) (map_usig_signed (\<lambda>nv. (nv, size nv)) (\<lambda>x. x)) m)"

definition view_change_size :: "('p, 'sig, 'att) view_change \<Rightarrow> nat" where
  "view_change_size m =
     size_usig_signed (size_view_change_content (size_list log_message_size) (\<lambda>_. 0) (\<lambda>_. 0)) (\<lambda>_. 0) m"

lemma size_list_member: "x \<in> set xs \<Longrightarrow> f x \<le> size_list f xs"
  by (rule size_list_estimation') auto

lemma new_view_size: "size (NewViewContent r v vcs) = Suc (size_list view_change_size vcs)"
  by (simp add: view_change_size_def [abs_def] log_message_size_def [abs_def])

lemma view_change_size_simp:
  "x \<in> set log \<Longrightarrow> log_message_size x < view_change_size (UsigSigned (ViewChangeContent r v c log) s)"
  using size_list_member [of x log log_message_size] by (simp add: view_change_size_def)

lemma log_message_size_new_view:
  "log_message_size (UM_NewView (UsigSigned nv s)) = Suc (Suc (size nv))"
  by (simp add: log_message_size_def)

function new_view_hash_content ::
      "('p, 'u, 'sig, 'att, 'z) crypto_scheme \<Rightarrow> ('p, 'sig, 'att) new_view_content \<Rightarrow> bytes"
  and view_change_bytes ::
      "('p, 'u, 'sig, 'att, 'z) crypto_scheme \<Rightarrow> ('p, 'sig, 'att) view_change \<Rightarrow> bytes"
  and log_message_bytes ::
      "('p, 'u, 'sig, 'att, 'z) crypto_scheme \<Rightarrow> ('p, 'sig, 'att) log_message \<Rightarrow> bytes" where
  "new_view_hash_content H (NewViewContent origin next_view view_changes) =
     to_le_bytes origin @ to_le_bytes next_view @ [0] @ concat (map (view_change_bytes H) view_changes)"
| "view_change_bytes H (UsigSigned (ViewChangeContent origin next_view cert message_log) s) =
     to_le_bytes origin @ to_le_bytes next_view @
     (case cert of None \<Rightarrow> [] | Some cert \<Rightarrow> checkpoint_certificate_bytes H cert) @
     sha256 H (concat (map (log_message_bytes H) message_log)) @
     hash_sig H s"
| "log_message_bytes H (UM_View m) = [0] @ view_peer_bytes H m"
| "log_message_bytes H (UM_ViewChange m) =
     [1] @ signed_bytes H (view_change_hash_content H (\<lambda>hash. hash)) m"
| "log_message_bytes H (UM_NewView (UsigSigned nv s)) = [2] @ new_view_hash_content H nv @ hash_sig H s"
| "log_message_bytes H (UM_Checkpoint m) = [3] @ signed_bytes H (checkpoint_hash_content H) m"

  by pat_completeness auto

termination
  by (relation "measure (case_sum (\<lambda>(_, nv). size nv)
        (case_sum (\<lambda>(_, vc). view_change_size vc) (\<lambda>(_, lm). log_message_size lm)))")
    (auto simp: new_view_size view_change_size_simp log_message_size_new_view less_Suc_eq_le
      simp del: new_view_content.size intro: size_list_member le_SucI)

definition message_log_hash ::
    "('p, 'u, 'sig, 'att, 'z) crypto_scheme \<Rightarrow> ('p, 'sig, 'att) log_message list \<Rightarrow> bytes" where
  "message_log_hash H log = sha256 H (concat (map (log_message_bytes H) log))"

section \<open>Signing and verifying\<close>

definition usig_signed_sign ::
    "('p, 'u, 'sig, 'att, 'z) crypto_scheme \<Rightarrow> ('t \<Rightarrow> bytes) \<Rightarrow> 't \<Rightarrow> 'u \<Rightarrow>
     ((usig_error + ('t, 'sig) usig_signed) \<times> 'u) option" where
  "usig_signed_sign H hash_content data u =
     do {
       (r, u) \<leftarrow> u_sign (usig H) (sha256 H (hash_content data)) u;
       Some (case r of Inl e \<Rightarrow> Inl e | Inr s \<Rightarrow> Inr (UsigSigned data s), u)
     }"

definition usig_signed_verify ::
    "('p, 'u, 'sig, 'att, 'z) crypto_scheme \<Rightarrow> ('t \<Rightarrow> bytes) \<Rightarrow> ('t \<Rightarrow> replica_id) \<Rightarrow> 'u \<Rightarrow>
     ('t, 'sig) usig_signed \<Rightarrow> (usig_error + unit) option" where
  "usig_signed_verify H hash_content origin u m =
     u_verify (usig H) u (origin (us_data m)) (sha256 H (hash_content (us_data m))) (us_signature m)"

section \<open>Dropping message logs\<close>

definition view_change_to_no_log ::
    "('p, 'u, 'sig, 'att, 'z) crypto_scheme \<Rightarrow> ('p, 'sig, 'att) view_change \<Rightarrow> ('sig, 'att) view_change_no_log" where
  "view_change_to_no_log H m =
     (let c = us_data m
      in UsigSigned (ViewChangeContent (vc_origin c) (vc_next_view c) (vc_checkpoint_cert c)
           (message_log_hash H (vc_variant c))) (us_signature m))"

fun usig_message_to_no_log ::
    "('p, 'u, 'sig, 'att, 'z) crypto_scheme \<Rightarrow> ('p, 'sig, 'att) usig_message \<Rightarrow> ('p, 'sig, 'att) log_message" where
  "usig_message_to_no_log H (UM_View v) = UM_View v"
| "usig_message_to_no_log H (UM_ViewChange v) = UM_ViewChange (view_change_to_no_log H v)"
| "usig_message_to_no_log H (UM_NewView n) = UM_NewView n"
| "usig_message_to_no_log H (UM_Checkpoint c) = UM_Checkpoint c"

definition view_change_content_new ::
    "('p, 'u, 'sig, 'att, 'z) crypto_scheme \<Rightarrow> replica_id \<Rightarrow> view \<Rightarrow>
     ('sig, 'att) checkpoint_certificate option \<Rightarrow> ('p, 'sig, 'att) usig_message list \<Rightarrow>
     (('p, 'sig, 'att) log_message list, 'sig, 'att) view_change_content" where
  "view_change_content_new H origin next_view checkpoint message_log =
     ViewChangeContent origin next_view checkpoint (map (usig_message_to_no_log H) message_log)"

section \<open>Lemmas\<close>

lemma view_change_bytes_signed:
  "view_change_bytes H m = signed_bytes H (view_change_hash_content H (message_log_hash H)) m"
  by (cases m; cases "us_data m")
    (simp add: signed_bytes_def view_change_hash_content_def message_log_hash_def)

text \<open>
  Dropping the log keeps the origin, the counter and what is signed: a view change found without its
  log in the log of another message verifies exactly when the original does.
\<close>

lemma to_no_log_counter [simp]: "usig_message_counter H (usig_message_to_no_log H' m) = usig_message_counter H m"
  by (cases m) (simp_all add: signed_counter_def view_change_to_no_log_def Let_def)

lemma to_no_log_origin [simp]: "usig_message_origin (usig_message_to_no_log H m) = usig_message_origin m"
  by (cases m) (simp_all add: view_change_to_no_log_def Let_def)

lemma to_no_log_verify:
  "usig_signed_verify H (view_change_hash_content H (\<lambda>hash. hash)) vc_origin u (view_change_to_no_log H m) =
   usig_signed_verify H (view_change_hash_content H (message_log_hash H)) vc_origin u m"
  by (simp add: usig_signed_verify_def view_change_to_no_log_def view_change_hash_content_def Let_def)

lemma usig_signed_sign_Inr:
  "usig_signed_sign H hc d u = Some (Inr m, u') \<longleftrightarrow>
     (\<exists>s. u_sign (usig H) (sha256 H (hc d)) u = Some (Inr s, u') \<and> m = UsigSigned d s)"
  by (auto simp: usig_signed_sign_def split: bind_splits sum.splits)

lemma usig_signed_sign_Inl:
  "usig_signed_sign H hc d u = Some (Inl e, u') \<longleftrightarrow> u_sign (usig H) (sha256 H (hc d)) u = Some (Inl e, u')"
  by (auto simp: usig_signed_sign_def split: bind_splits sum.splits)

end
