(* ===== verification/Minbft_Validate.thy ===== *)
theory Minbft_Validate
  imports Minbft_Messages
begin

text \<open>
  Validation of received messages: the errors of \<^verbatim>\<open>minbft/src/error.rs\<close> and the \<open>validate\<close>
  functions of \<^verbatim>\<open>minbft/src/peer_message/\<close>. A validation is \<open>None\<close> when it panics, an error
  \<open>Inl\<close>, or \<open>Inr ()\<close>. The lemmas say exactly which messages pass and what a quorum of \<open>t + 1\<close>
  messages of different origins guarantees.
\<close>

section \<open>Errors\<close>

datatype inner_error =
  IE_CommitFromPrimary replica_id replica_id
| IE_PrepareFromBackup replica_id replica_id view
| IE_RequestInPrepare replica_id replica_id
| IE_CheckpointCertNotSufficientMsgs replica_id replica_id
| IE_CheckpointCertNotAllSameStateHash replica_id replica_id
| IE_CheckpointCertNotAllDifferentOrigin replica_id replica_id
| IE_NewViewIncorrectNewPrimary replica_id
| IE_NewViewCheckpointCertNotSufficientMsgs replica_id
| IE_NewViewCheckpointCertNotAllSameNextView replica_id
| IE_NewViewCheckpointCertNotAllDifferentOrigin replica_id
| IE_NewViewContentUnexpectedNextView replica_id replica_id replica_id
| IE_Usig usig_error replica_id string replica_id
| IE_ViewChangeHolesInMessageLog replica_id replica_id
| IE_ViewChangeMessageLogEmptyWithCert replica_id replica_id
| IE_ViewChangeFirstUnexpectedCounter replica_id replica_id count count
| IE_ViewChangeLastUnexpectedCounter replica_id replica_id count count
| IE_ViewChangeLogUnexpectedlyEmpty replica_id replica_id
| IE_ReqViewChangeIncompatiblePrevNextView replica_id replica_id

datatype error =
  E_Commit replica_id replica_id
| E_Prepare replica_id replica_id
| E_CheckpointCert replica_id replica_id
| E_NewViewCheckpointCert replica_id
| E_NewView replica_id replica_id
| E_ViewChange replica_id replica_id
| E_ReqViewChange replica_id replica_id
| E_Attestation replica_id replica_id
| E_Request replica_id client_id
| E_Usig replica_id string usig_error
| E_StateTransferRequired replica_id

fun error_from :: "inner_error \<Rightarrow> error" where
  "error_from (IE_CommitFromPrimary receiver prim) = E_Commit receiver prim"
| "error_from (IE_PrepareFromBackup receiver backup v) = E_Prepare receiver backup"
| "error_from (IE_RequestInPrepare receiver origin) = E_Prepare receiver origin"
| "error_from (IE_CheckpointCertNotSufficientMsgs receiver origin) = E_CheckpointCert receiver origin"
| "error_from (IE_CheckpointCertNotAllSameStateHash receiver origin) = E_CheckpointCert receiver origin"
| "error_from (IE_NewViewIncorrectNewPrimary receiver) = E_NewViewCheckpointCert receiver"
| "error_from (IE_CheckpointCertNotAllDifferentOrigin receiver origin) = E_CheckpointCert receiver origin"
| "error_from (IE_NewViewCheckpointCertNotSufficientMsgs receiver) = E_NewViewCheckpointCert receiver"
| "error_from (IE_NewViewCheckpointCertNotAllSameNextView receiver) = E_NewViewCheckpointCert receiver"
| "error_from (IE_NewViewCheckpointCertNotAllDifferentOrigin receiver) = E_NewViewCheckpointCert receiver"
| "error_from (IE_NewViewContentUnexpectedNextView receiver actual expected) = E_NewView receiver actual"
| "error_from (IE_ViewChangeHolesInMessageLog receiver origin) = E_ViewChange receiver origin"
| "error_from (IE_ViewChangeMessageLogEmptyWithCert receiver origin) = E_ViewChange receiver origin"
| "error_from (IE_ViewChangeFirstUnexpectedCounter receiver origin c e) = E_ViewChange receiver origin"
| "error_from (IE_ViewChangeLastUnexpectedCounter receiver origin c e) = E_ViewChange receiver origin"
| "error_from (IE_ViewChangeLogUnexpectedlyEmpty receiver origin) = E_ViewChange receiver origin"
| "error_from (IE_ReqViewChangeIncompatiblePrevNextView receiver origin) = E_ReqViewChange receiver origin"
| "error_from (IE_Usig usig_error replica msg_type origin) = E_Usig replica msg_type usig_error"

section \<open>Sequencing of checks\<close>

type_synonym validation = "(inner_error + unit) option"

abbreviation valid :: validation where
  "valid \<equiv> Some (Inr ())"

abbreviation invalid :: "inner_error \<Rightarrow> validation" where
  "invalid e \<equiv> Some (Inl e)"

fun and_then :: "validation \<Rightarrow> validation \<Rightarrow> validation" where
  "and_then None _ = None"
| "and_then (Some (Inl e)) _ = Some (Inl e)"
| "and_then (Some (Inr _)) v = v"

fun validate_all :: "('a \<Rightarrow> validation) \<Rightarrow> 'a list \<Rightarrow> validation" where
  "validate_all f [] = valid"
| "validate_all f (x # xs) = and_then (f x) (validate_all f xs)"

definition usig_validation :: "config \<Rightarrow> string \<Rightarrow> replica_id \<Rightarrow> (usig_error + unit) option \<Rightarrow> validation" where
  "usig_validation config msg_type origin r =
     map_option (\<lambda>r. case r of Inl e \<Rightarrow> Inl (IE_Usig e (cfg_id config) msg_type origin) | Inr v \<Rightarrow> Inr v) r"

section \<open>Prepare and Commit\<close>

definition prepare_validate ::
    "('p, 'u, 'sig, 'att, 'z) crypto_scheme \<Rightarrow> config \<Rightarrow> 'u \<Rightarrow> ('p, 'sig, 'att) prepare \<Rightarrow> validation" where
  "prepare_validate H config u m =
     do {
       p \<leftarrow> is_primary config (prepare_view m) (prepare_origin m);
       if \<not> p then invalid (IE_PrepareFromBackup (cfg_id config) (prepare_origin m) (prepare_view m))
       else if \<not> request_batch_validate (pc_request_batch (us_data m))
       then invalid (IE_RequestInPrepare (cfg_id config) (prepare_origin m))
       else usig_validation config ''Prepare'' (prepare_origin m)
              (usig_signed_verify H (prepare_hash_content H) pc_origin u m)
     }"

definition commit_validate ::
    "('p, 'u, 'sig, 'att, 'z) crypto_scheme \<Rightarrow> config \<Rightarrow> 'u \<Rightarrow> ('p, 'sig, 'att) commit \<Rightarrow> validation" where
  "commit_validate H config u m =
     (if commit_origin m = prepare_origin (commit_prepare m)
      then invalid (IE_CommitFromPrimary (cfg_id config) (commit_origin m))
      else and_then (prepare_validate H config u (commit_prepare m))
             (usig_validation config ''Commit'' (commit_origin m)
               (usig_signed_verify H (commit_hash_content H) cc_origin u m)))"

fun view_peer_validate ::
    "('p, 'u, 'sig, 'att, 'z) crypto_scheme \<Rightarrow> config \<Rightarrow> 'u \<Rightarrow> ('p, 'sig, 'att) view_peer_message \<Rightarrow> validation" where
  "view_peer_validate H config u (VP_Prepare m) = prepare_validate H config u m"
| "view_peer_validate H config u (VP_Commit m) = commit_validate H config u m"

section \<open>Checkpoints and their certificates\<close>

definition hm_eq :: "('k, 'v) hash_map \<Rightarrow> ('k, 'v) hash_map \<Rightarrow> bool" where
  "hm_eq m1 m2 \<longleftrightarrow> length m1 = length m2 \<and> list_all (\<lambda>(k, v). hm_get m2 k = Some v) m1"

definition same_checkpoint :: "('sig, 'att) checkpoint \<Rightarrow> ('sig, 'att) checkpoint \<Rightarrow> bool" where
  "same_checkpoint m m' =
     (let c = us_data m; d = us_data m'
      in cp_counter_latest_prep c = cp_counter_latest_prep d \<and>
         cp_view_latest_prep c = cp_view_latest_prep d \<and>
         cp_state_hash c = cp_state_hash d \<and>
         cp_total_amount_accepted_batches c = cp_total_amount_accepted_batches d \<and>
         hm_eq (cp_last_executed_client_req c) (cp_last_executed_client_req d) \<and>
         hm_eq (cp_usig_attestations c) (cp_usig_attestations d) \<and>
         hm_eq (cp_recovering_replicas c) (cp_recovering_replicas d))"

definition checkpoint_validate ::
    "('p, 'u, 'sig, 'att, 'z) crypto_scheme \<Rightarrow> config \<Rightarrow> 'u \<Rightarrow> ('sig, 'att) checkpoint \<Rightarrow> validation" where
  "checkpoint_validate H config u m =
     usig_validation config ''Checkpoint'' (cp_origin (us_data m))
       (usig_signed_verify H (checkpoint_hash_content H) cp_origin u m)"

text \<open>The loop that inserts the origins into a set and stops at the first one already there.\<close>

fun insert_origins :: "('a \<Rightarrow> replica_id) \<Rightarrow> replica_id hash_set \<Rightarrow> 'a list \<Rightarrow> bool" where
  "insert_origins origin origins [] = True"
| "insert_origins origin origins (x # xs) =
     (if origin x \<in> set origins then False else insert_origins origin (hs_insert (origin x) origins) xs)"

definition checkpoint_certificate_validate ::
    "('p, 'u, 'sig, 'att, 'z) crypto_scheme \<Rightarrow> config \<Rightarrow> 'u \<Rightarrow> ('sig, 'att) checkpoint_certificate \<Rightarrow> validation" where
  "checkpoint_certificate_validate H config u cert =
     (let mine = my_checkpoint cert; others = other_checkpoints cert; origin = cp_origin (us_data mine)
      in if of_nat (length others) < cfg_t config
         then invalid (IE_CheckpointCertNotSufficientMsgs (cfg_id config) origin)
         else if \<not> insert_origins (\<lambda>m. cp_origin (us_data m)) (hs_insert origin []) others
         then invalid (IE_CheckpointCertNotAllDifferentOrigin (cfg_id config) origin)
         else if \<not> list_all (same_checkpoint mine) others
         then invalid (IE_CheckpointCertNotAllSameStateHash (cfg_id config) origin)
         else and_then (checkpoint_validate H config u mine)
                (validate_all (checkpoint_validate H config u) others))"

section \<open>ViewChange\<close>

definition view_change_validate ::
    "('p, 'u, 'sig, 'att, 'z) crypto_scheme \<Rightarrow> config \<Rightarrow> 'u \<Rightarrow> ('p, 'sig, 'att) view_change \<Rightarrow> validation" where
  "view_change_validate H config u m =
     (let c = us_data m; origin = vc_origin c; log = vc_variant c;
          receiver = cfg_id config;
          seq_num_msgs = sort (map (usig_message_counter H) log);
          amount_msgs = length seq_num_msgs
      in and_then
           (usig_validation config ''Commit'' origin
             (usig_signed_verify H (view_change_hash_content H (message_log_hash H)) vc_origin u m))
        (and_then
           (case vc_checkpoint_cert c of
              Some cert \<Rightarrow>
                and_then (checkpoint_certificate_validate H config u cert)
                  (if amount_msgs = 0 then invalid (IE_ViewChangeMessageLogEmptyWithCert receiver origin)
                   else if signed_counter H (my_checkpoint cert) < hd seq_num_msgs
                   then invalid (IE_ViewChangeFirstUnexpectedCounter receiver origin (hd seq_num_msgs)
                          (signed_counter H (my_checkpoint cert)))
                   else valid)
            | None \<Rightarrow>
                if 0 < amount_msgs \<and> hd seq_num_msgs \<noteq> 0
                then invalid (IE_ViewChangeFirstUnexpectedCounter receiver origin (hd seq_num_msgs) 0)
                else valid)
        (and_then
           (if 0 < amount_msgs \<and> of_nat amount_msgs \<noteq> last seq_num_msgs - hd seq_num_msgs + 1
            then invalid (IE_ViewChangeHolesInMessageLog receiver origin)
            else valid)
           (if log \<noteq> []
            then (if usig_message_counter H (last log) \<noteq> signed_counter H m - 1
                  then invalid (IE_ViewChangeLastUnexpectedCounter receiver origin
                         (usig_message_counter H (last log)) (signed_counter H m - 1))
                  else valid)
            else (if signed_counter H m \<noteq> 0
                  then invalid (IE_ViewChangeLogUnexpectedlyEmpty receiver origin)
                  else valid)))))"

section \<open>NewView\<close>

definition new_view_content_validate :: "config \<Rightarrow> ('p, 'sig, 'att) new_view_content \<Rightarrow> validation" where
  "new_view_content_validate config c =
     do {
       p \<leftarrow> is_primary config (nv_next_view c) (nv_origin c);
       if \<not> p
       then invalid (IE_NewViewContentUnexpectedNextView (cfg_id config) (nv_origin c)
              (nv_next_view c mod cfg_n config))
       else valid
     }"

definition new_view_validate ::
    "('p, 'u, 'sig, 'att, 'z) crypto_scheme \<Rightarrow> config \<Rightarrow> 'u \<Rightarrow> ('p, 'sig, 'att) new_view \<Rightarrow> validation" where
  "new_view_validate H config u m =
     do {
       _ \<leftarrow> is_primary config (nv_next_view (us_data m)) (nv_origin (us_data m));
       and_then
         (usig_validation config ''NewView'' (nv_origin (us_data m))
           (usig_signed_verify H (new_view_hash_content H) nv_origin u m))
         (new_view_content_validate config (us_data m))
     }"

definition new_view_certificate_validate ::
    "('p, 'u, 'sig, 'att, 'z) crypto_scheme \<Rightarrow> config \<Rightarrow> 'u \<Rightarrow> replica_id \<Rightarrow> view \<Rightarrow>
     ('p, 'sig, 'att) view_change list \<Rightarrow> validation" where
  "new_view_certificate_validate H config u origin next_view view_changes =
     (if origin \<noteq> next_view mod cfg_n config
      then invalid (IE_NewViewIncorrectNewPrimary (cfg_id config))
      else if of_nat (length view_changes) \<le> cfg_t config
      then invalid (IE_NewViewCheckpointCertNotSufficientMsgs (cfg_id config))
      else if \<not> list_all (\<lambda>m. next_view = vc_next_view (us_data m)) view_changes
      then invalid (IE_NewViewCheckpointCertNotAllSameNextView (cfg_id config))
      else if \<not> insert_origins (\<lambda>m. vc_origin (us_data m)) [] view_changes
      then invalid (IE_NewViewCheckpointCertNotAllDifferentOrigin (cfg_id config))
      else validate_all (view_change_validate H config u) view_changes)"

section \<open>All messages\<close>

fun usig_message_validate ::
    "('p, 'u, 'sig, 'att, 'z) crypto_scheme \<Rightarrow> config \<Rightarrow> 'u \<Rightarrow> ('p, 'sig, 'att) usig_message \<Rightarrow> validation" where
  "usig_message_validate H config u (UM_View m) = view_peer_validate H config u m"
| "usig_message_validate H config u (UM_ViewChange m) = view_change_validate H config u m"
| "usig_message_validate H config u (UM_NewView m) = new_view_validate H config u m"
| "usig_message_validate H config u (UM_Checkpoint m) = checkpoint_validate H config u m"

definition req_view_change_validate :: "config \<Rightarrow> replica_id \<Rightarrow> req_view_change \<Rightarrow> validation" where
  "req_view_change_validate config origin m =
     (if rvc_prev_view m < rvc_next_view m then valid
      else invalid (IE_ReqViewChangeIncompatiblePrevNextView (cfg_id config) origin))"

fun peer_message_validate ::
    "('p, 'u, 'sig, 'att, 'z) crypto_scheme \<Rightarrow> replica_id \<Rightarrow> config \<Rightarrow> 'u \<Rightarrow>
     ('p, 'sig, 'att) validated_peer_message \<Rightarrow> validation" where
  "peer_message_validate H replica config u (PM_Hello a) = valid"
| "peer_message_validate H replica config u (PM_Usig m) = usig_message_validate H config u m"
| "peer_message_validate H replica config u (PM_ReqViewChange m) = req_view_change_validate config replica m"
| "peer_message_validate H replica config u (PM_Forward n m ms) = usig_message_validate H config u m"
| "peer_message_validate H replica config u (PM_RecoveryRequest a n) = valid"
| "peer_message_validate H replica config u (PM_RecoveryReply n s c) = valid"

section \<open>Which messages pass\<close>

named_theorems validate_simps \<open>when a validation succeeds\<close>

lemma and_then_valid [validate_simps]: "and_then a b = valid \<longleftrightarrow> a = valid \<and> b = valid"
  by (cases "(a, b)" rule: and_then.cases) auto

lemma validate_all_valid [validate_simps]: "validate_all f xs = valid \<longleftrightarrow> (\<forall>x \<in> set xs. f x = valid)"
  by (induction xs) (auto simp: and_then_valid)

lemma usig_validation_valid [validate_simps]: "usig_validation c ty r v = valid \<longleftrightarrow> v = Some (Inr ())"
proof (cases v)
  case (Some r)
  then show ?thesis by (cases r) (auto simp: usig_validation_def)
qed (simp add: usig_validation_def)

lemma if_invalid_valid [validate_simps]: "(if b then invalid e else v) = valid \<longleftrightarrow> \<not> b \<and> v = valid"
  by simp

lemma insert_origins_iff [validate_simps]:
  "insert_origins f S xs \<longleftrightarrow> distinct (map f xs) \<and> set S \<inter> f ` set xs = {}"
  by (induction f S xs rule: insert_origins.induct) auto

lemma bind_valid [validate_simps]: "Option.bind a f = valid \<longleftrightarrow> (\<exists>x. a = Some x \<and> f x = valid)"
  by (cases a) auto

lemma prepare_validate_valid:
  "prepare_validate H c u m = valid \<longleftrightarrow>
     prepare_origin m < cfg_n c \<and> prepare_origin m = primary c (prepare_view m) \<and>
     usig_signed_verify H (prepare_hash_content H) pc_origin u m = Some (Inr ())"
  by (auto simp: prepare_validate_def validate_simps is_primary_def rust_assert_def request_batch_validate_def
      split: if_splits)

lemma commit_validate_valid:
  "commit_validate H c u m = valid \<longleftrightarrow>
     commit_origin m \<noteq> prepare_origin (commit_prepare m) \<and>
     prepare_validate H c u (commit_prepare m) = valid \<and>
     usig_signed_verify H (commit_hash_content H) cc_origin u m = Some (Inr ())"
  by (auto simp: commit_validate_def validate_simps)

lemma checkpoint_validate_valid:
  "checkpoint_validate H c u m = valid \<longleftrightarrow>
     usig_signed_verify H (checkpoint_hash_content H) cp_origin u m = Some (Inr ())"
  by (simp add: checkpoint_validate_def validate_simps)

lemma checkpoint_certificate_validate_valid:
  "checkpoint_certificate_validate H c u cert = valid \<longleftrightarrow>
     cfg_t c \<le> of_nat (length (other_checkpoints cert)) \<and>
     distinct (map (\<lambda>m. cp_origin (us_data m)) (my_checkpoint cert # other_checkpoints cert)) \<and>
     (\<forall>m \<in> set (other_checkpoints cert). same_checkpoint (my_checkpoint cert) m) \<and>
     (\<forall>m \<in> set (my_checkpoint cert # other_checkpoints cert). checkpoint_validate H c u m = valid)"
  by (auto simp: checkpoint_certificate_validate_def Let_def validate_simps list_all_iff)

lemma new_view_content_validate_valid:
  "new_view_content_validate c nv = valid \<longleftrightarrow> nv_origin nv < cfg_n c \<and> nv_origin nv = primary c (nv_next_view nv)"
  by (auto simp: new_view_content_validate_def validate_simps is_primary_def rust_assert_def split: if_splits)

lemma new_view_validate_valid:
  "new_view_validate H c u m = valid \<longleftrightarrow>
     nv_origin (us_data m) < cfg_n c \<and> nv_origin (us_data m) = primary c (nv_next_view (us_data m)) \<and>
     usig_signed_verify H (new_view_hash_content H) nv_origin u m = Some (Inr ())"
  by (auto simp: new_view_validate_def new_view_content_validate_valid validate_simps is_primary_def rust_assert_def
      split: if_splits)

lemma new_view_certificate_validate_valid:
  "new_view_certificate_validate H c u origin next_view vcs = valid \<longleftrightarrow>
     origin = primary c next_view \<and> cfg_t c < of_nat (length vcs) \<and>
     (\<forall>m \<in> set vcs. vc_next_view (us_data m) = next_view \<and> view_change_validate H c u m = valid) \<and>
     distinct (map (\<lambda>m. vc_origin (us_data m)) vcs)"
  by (auto simp: new_view_certificate_validate_def validate_simps list_all_iff primary_def)

section \<open>Quorums\<close>

lemma distinct_beyond_faulty:
  assumes "distinct xs" "finite F" "card F < length xs"
  shows "\<exists>x \<in> set xs. x \<notin> F"
proof (rule ccontr)
  assume "\<not> ?thesis"
  then have "set xs \<subseteq> F" by auto
  then have "card (set xs) \<le> card F" by (rule card_mono [OF assms(2)])
  with assms show False by (simp add: distinct_card)
qed

lemma quorum_has_correct:
  assumes "distinct (map f ms)" "finite F" "card F \<le> t" "t < length ms"
  shows "\<exists>m \<in> set ms. f m \<notin> F"
  using distinct_beyond_faulty [OF assms(1,2)] assms(3,4) by auto

lemma quorums_intersect:
  assumes "distinct xs" "distinct ys" "set xs \<subseteq> A" "set ys \<subseteq> A" "finite A" "card A < length xs + length ys"
  shows "set xs \<inter> set ys \<noteq> {}"
proof
  assume "set xs \<inter> set ys = {}"
  then have "card (set xs \<union> set ys) = length xs + length ys"
    using assms(1,2) by (simp add: card_Un_disjoint distinct_card)
  moreover have "card (set xs \<union> set ys) \<le> card A" using assms(3-5) by (intro card_mono) auto
  ultimately show False using assms(6) by simp
qed

lemma of_nat_length_le: "length xs \<le> u64_max \<Longrightarrow> (t :: u64) \<le> of_nat (length xs) \<longleftrightarrow> unat t \<le> length xs"
  by (simp add: word_le_nat_alt unat_of_nat_u64)

lemma of_nat_length_less: "length xs \<le> u64_max \<Longrightarrow> (t :: u64) < of_nat (length xs) \<longleftrightarrow> unat t < length xs"
  by (simp add: word_less_nat_alt unat_of_nat_u64)

section \<open>Completeness of message logs\<close>

lemma sorted_distinct_covers:
  fixes xs :: "nat list"
  assumes "sorted xs" "distinct xs" "xs \<noteq> []" "length xs = last xs - hd xs + 1"
  shows "set xs = {hd xs..last xs}"
proof (rule card_subset_eq)
  show "finite {hd xs..last xs}" by simp
  show "set xs \<subseteq> {hd xs..last xs}"
  proof
    fix x
    assume "x \<in> set xs"
    then obtain i where i: "i < length xs" "x = xs ! i" by (auto simp: in_set_conv_nth)
    have "hd xs \<le> x" using assms(1,3) i by (metis hd_conv_nth le0 sorted_nth_mono)
    moreover have "x \<le> last xs" using assms(1,3) i by (simp add: last_conv_nth sorted_nth_mono)
    ultimately show "x \<in> {hd xs..last xs}" by simp
  qed
  have "hd xs \<le> last xs" using assms(1,3) by (metis last_in_set list.collapse sorted_simps(2) order_refl set_ConsD)
  then show "card (set xs) = card {hd xs..last xs}" using assms(2,4) by (simp add: distinct_card)
qed

lemma sorted_words_cover:
  fixes ws :: "u64 list"
  assumes "sorted ws" "distinct ws" "ws \<noteq> []" "length ws \<le> u64_max" "of_nat (length ws) = last ws - hd ws + 1"
  shows "set ws = {hd ws..last ws}"
proof -
  let ?xs = "map unat ws"
  have le: "hd ws \<le> last ws"
    using assms(1,3) by (metis last_in_set list.collapse sorted_simps(2) order_refl set_ConsD)
  have ne: "last ws - hd ws \<noteq> - 1"
  proof
    assume "last ws - hd ws = - 1"
    then have "unat (of_nat (length ws) :: u64) = 0" using assms(5) by simp
    then show False using assms(3,4) unat_of_nat_u64 [of "length ws"] by simp
  qed
  have "length ws = unat (last ws - hd ws + 1)"
    using assms(4,5) unat_of_nat_u64 by metis
  also have "\<dots> = Suc (unat (last ws) - unat (hd ws))"
    using le ne by (simp add: unat_add_one unat_sub)
  finally have len: "length ?xs = last ?xs - hd ?xs + 1"
    using assms(3) by (simp add: last_map hd_map)
  have "sorted ?xs" using assms(1) by (simp add: sorted_map word_le_nat_alt [symmetric] sorted_wrt_map)
  moreover have "distinct ?xs" using assms(2) by (simp add: distinct_map inj_on_def word_unat_eq_iff)
  ultimately have "set ?xs = {hd ?xs..last ?xs}"
    using assms(3) len by (intro sorted_distinct_covers) simp_all
  then have *: "unat ` set ws = {unat (hd ws)..unat (last ws)}"
    using assms(3) by (simp add: last_map hd_map)
  show ?thesis
  proof (rule set_eqI)
    fix w :: u64
    have "w = x" if "unat w = unat x" for x using that by (simp add: word_unat_eq_iff)
    then have "w \<in> set ws \<longleftrightarrow> unat w \<in> unat ` set ws" by auto
    then show "w \<in> set ws \<longleftrightarrow> w \<in> {hd ws..last ws}" by (simp add: * word_le_nat_alt)
  qed
qed

lemma sort_key_Nil_iff [simp]: "sort_key f xs = [] \<longleftrightarrow> xs = []"
  by (metis mset_sort mset_zero_iff_right)

lemma view_change_validate_valid:
  assumes "view_change_validate H c u m = valid"
  defines "log \<equiv> vc_variant (us_data m)"
  defines "cs \<equiv> sort (map (usig_message_counter H) log)"
  shows "usig_signed_verify H (view_change_hash_content H (message_log_hash H)) vc_origin u m = Some (Inr ())"
    and "\<And>cert. vc_checkpoint_cert (us_data m) = Some cert \<Longrightarrow>
      checkpoint_certificate_validate H c u cert = valid \<and> log \<noteq> [] \<and> hd cs \<le> signed_counter H (my_checkpoint cert)"
    and "vc_checkpoint_cert (us_data m) = None \<Longrightarrow> log \<noteq> [] \<Longrightarrow> hd cs = 0"
    and "log \<noteq> [] \<Longrightarrow> of_nat (length log) = last cs - hd cs + 1"
    and "log \<noteq> [] \<Longrightarrow> usig_message_counter H (last log) = signed_counter H m - 1"
    and "log = [] \<Longrightarrow> signed_counter H m = 0"
  using assms(1) unfolding log_def cs_def
  by (auto simp: view_change_validate_def Let_def validate_simps split: option.splits if_splits)

section \<open>Properties\<close>

definition noop_signature_bytes :: "noop_signature \<Rightarrow> bytes" where
  "noop_signature_bytes s = to_le_bytes (noop_signature_counter s)"

definition dummy_attestation_bytes :: "dummy_attestation \<Rightarrow> bytes" where
  "dummy_attestation_bytes a = [0]"

text \<open>A concrete instance for the witnesses: the no-operation USIG and an identity digest.\<close>

definition noop_crypto :: "(bytes, usig_noop, noop_signature, dummy_attestation) crypto" where
  "noop_crypto = \<lparr>sha256 = (\<lambda>b. b), hash_payload = (\<lambda>p. p), hash_att = dummy_attestation_bytes,
     hash_sig = noop_signature_bytes, usig = usig_noop_ops\<rparr>"

definition sample_usig :: usig_noop where
  "sample_usig = usig_noop_default\<lparr>noop_verify_half := \<lparr>noop_ids = [0, 1, 2]\<rparr>\<rparr>"

definition sample_checkpoint :: "replica_id \<Rightarrow> (noop_signature, dummy_attestation) checkpoint" where
  "sample_checkpoint r = UsigSigned \<lparr>cp_origin = r, cp_counter_latest_prep = 3, cp_view_latest_prep = 0,
     cp_state_hash = replicate 32 7, cp_total_amount_accepted_batches = 4, cp_last_executed_client_req = [(5, 1)],
     cp_usig_attestations = [(0, DummyAttestation)], cp_recovering_replicas = []\<rparr> (Noop_Signature 6)"

lemma noop_verify:
  "usig_signed_verify noop_crypto hc origin sample_usig m =
     (if origin (us_data m) \<in> {0, 1, 2} then Some (Inr ()) else Some (Inl (UnknownId (origin (us_data m)))))"
  by (simp add: usig_signed_verify_def noop_crypto_def usig_noop_ops_def noop_half_verify_def sample_usig_def)

lemma noop_signed_counter: "signed_counter noop_crypto (UsigSigned d (Noop_Signature k)) = k"
  by (simp add: signed_counter_def noop_crypto_def usig_noop_ops_def)

text \<open>
  Claim C8. A valid checkpoint certificate: all its checkpoints carry a verified signature of their
  origin, come from different replicas and agree with the certificate's own checkpoint on the state
  hash, the view and counter of the latest Prepare, the number of accepted batches and the three maps;
  and whatever set of at most \<open>t\<close> replicas is faulty, one of them comes from a replica outside the set.
\<close>

theorem checkpoint_certificate_vouched:
  assumes ok: "checkpoint_certificate_validate H c u cert = valid"
    and len: "length (other_checkpoints cert) \<le> u64_max"
    and faulty: "finite F" "card F \<le> unat (cfg_t c)"
  shows "(\<forall>m \<in> set (my_checkpoint cert # other_checkpoints cert).
      usig_signed_verify H (checkpoint_hash_content H) cp_origin u m = Some (Inr ())) \<and>
    distinct (map (\<lambda>m. cp_origin (us_data m)) (my_checkpoint cert # other_checkpoints cert)) \<and>
    (\<forall>m \<in> set (other_checkpoints cert).
      cp_state_hash (us_data m) = cp_state_hash (us_data (my_checkpoint cert)) \<and>
      cp_view_latest_prep (us_data m) = cp_view_latest_prep (us_data (my_checkpoint cert)) \<and>
      cp_counter_latest_prep (us_data m) = cp_counter_latest_prep (us_data (my_checkpoint cert)) \<and>
      cp_total_amount_accepted_batches (us_data m) = cp_total_amount_accepted_batches (us_data (my_checkpoint cert)) \<and>
      hm_eq (cp_last_executed_client_req (us_data (my_checkpoint cert))) (cp_last_executed_client_req (us_data m)) \<and>
      hm_eq (cp_usig_attestations (us_data (my_checkpoint cert))) (cp_usig_attestations (us_data m)) \<and>
      hm_eq (cp_recovering_replicas (us_data (my_checkpoint cert))) (cp_recovering_replicas (us_data m))) \<and>
    (\<exists>m \<in> set (my_checkpoint cert # other_checkpoints cert). cp_origin (us_data m) \<notin> F)"
proof -
  let ?ms = "my_checkpoint cert # other_checkpoints cert"
  from ok have sufficient: "cfg_t c \<le> of_nat (length (other_checkpoints cert))"
    and origins: "distinct (map (\<lambda>m. cp_origin (us_data m)) ?ms)"
    and same: "\<forall>m \<in> set (other_checkpoints cert). same_checkpoint (my_checkpoint cert) m"
    and signed: "\<forall>m \<in> set ?ms. checkpoint_validate H c u m = valid"
    unfolding checkpoint_certificate_validate_valid by blast+
  have "unat (cfg_t c) < length ?ms" using sufficient len by (simp add: of_nat_length_le)
  from quorum_has_correct [OF origins faulty this]
  have correct: "\<exists>m \<in> set ?ms. cp_origin (us_data m) \<notin> F" by blast
  have verified: "\<forall>m \<in> set ?ms. usig_signed_verify H (checkpoint_hash_content H) cp_origin u m = Some (Inr ())"
    using signed by (simp only: checkpoint_validate_valid)
  show ?thesis by (intro conjI verified origins correct) (use same in \<open>simp add: same_checkpoint_def Let_def\<close>)
qed

theorem checkpoint_certificate_vouched_witness:
  "checkpoint_certificate_validate noop_crypto sample_config sample_usig
      \<lparr>my_checkpoint = sample_checkpoint 0, other_checkpoints = [sample_checkpoint 1]\<rparr> = valid \<and>
   (\<exists>m \<in> set [sample_checkpoint 0, sample_checkpoint 1]. cp_origin (us_data m) \<notin> {0}) \<and>
   cp_state_hash (us_data (sample_checkpoint 1)) = cp_state_hash (us_data (sample_checkpoint 0))"
proof -
  let ?cert = "\<lparr>my_checkpoint = sample_checkpoint 0, other_checkpoints = [sample_checkpoint 1]\<rparr>"
  have ok: "checkpoint_certificate_validate noop_crypto sample_config sample_usig ?cert = valid"
    by (simp add: checkpoint_certificate_validate_valid checkpoint_validate_valid noop_verify)
      (simp add: sample_checkpoint_def sample_config_def same_checkpoint_def hm_eq_def)
  have "length (other_checkpoints ?cert) \<le> u64_max" "card {0 :: replica_id} \<le> unat (cfg_t sample_config)"
    by (simp_all add: u64_max_def sample_config_def)
  from checkpoint_certificate_vouched [OF ok this(1) _ this(2)] ok show ?thesis by simp
qed

text \<open>
  Claim C9. The log of a valid ViewChange has no gap: if no two of its entries have the same counter,
  then every counter from that of the certificate's checkpoint (from 0 when there is no certificate)
  up to the one just below the ViewChange's own counter is the counter of an entry. The origins and
  the signatures of the entries are not looked at by this check.
\<close>

theorem view_change_log_complete:
  assumes ok: "view_change_validate H c u m = valid"
    and distinct: "distinct (map (usig_message_counter H) (vc_variant (us_data m)))"
    and len: "length (vc_variant (us_data m)) \<le> u64_max"
    and nz: "signed_counter H m \<noteq> 0"
    and lo: "(case vc_checkpoint_cert (us_data m) of None \<Rightarrow> 0 | Some cert \<Rightarrow> signed_counter H (my_checkpoint cert)) \<le> k"
    and hi: "k < signed_counter H m"
  shows "\<exists>x \<in> set (vc_variant (us_data m)). usig_message_counter H x = k"
proof -
  let ?log = "vc_variant (us_data m)" and ?cs = "map (usig_message_counter H) (vc_variant (us_data m))"
  note v = view_change_validate_valid [OF ok]
  have ne: "?log \<noteq> []" using v(6) nz by blast
  have cover: "set ?cs = {hd (sort ?cs)..last (sort ?cs)}"
    using sorted_words_cover [of "sort ?cs"] ne len distinct v(4) [OF ne] by simp
  have hd: "hd (sort ?cs) \<le> k"
    using lo v(2) v(3) ne by (cases "vc_checkpoint_cert (us_data m)") auto
  have "usig_message_counter H (last ?log) \<in> set ?cs" using ne by simp
  then have "signed_counter H m - 1 \<le> last (sort ?cs)" unfolding v(5) [OF ne] cover by simp
  moreover have "k \<le> signed_counter H m - 1"
    using hi nz by (simp add: word_le_nat_alt word_less_nat_alt unat_minus_one)
  ultimately have "k \<in> set ?cs" unfolding cover using hd by simp
  then show ?thesis by auto
qed

definition sample_log_message :: "count \<Rightarrow> (bytes, noop_signature, dummy_attestation) log_message" where
  "sample_log_message k = UM_View (VP_Prepare (UsigSigned
     \<lparr>pc_origin = 0, pc_view = 0, pc_request_batch = []\<rparr> (Noop_Signature k)))"

definition sample_view_change :: "count list \<Rightarrow> count \<Rightarrow> (bytes, noop_signature, dummy_attestation) view_change" where
  "sample_view_change ks k = UsigSigned (ViewChangeContent 1 1 None (map sample_log_message ks)) (Noop_Signature k)"

lemma sample_log_counter [simp]: "usig_message_counter noop_crypto (sample_log_message k) = k"
  by (simp add: sample_log_message_def noop_signed_counter)

theorem view_change_log_complete_witness:
  "view_change_validate noop_crypto sample_config sample_usig (sample_view_change [0, 1, 2] 3) = valid \<and>
   (\<exists>x \<in> set (vc_variant (us_data (sample_view_change [0, 1, 2] 3))). usig_message_counter noop_crypto x = 1)"
proof -
  have "view_change_validate noop_crypto sample_config sample_usig (sample_view_change [0, 1, 2] 3) = valid"
    by (simp add: view_change_validate_def Let_def validate_simps noop_verify)
      (simp add: sample_view_change_def noop_signed_counter)
  with view_change_log_complete [OF this, of 1] show ?thesis
    by (simp add: sample_view_change_def noop_signed_counter u64_max_def)
qed

lemma hd_sort_least:
  fixes ks :: "'a :: linorder list"
  assumes "k \<in> set ks" "\<forall>j \<in> set ks. k \<le> j"
  shows "hd (sort ks) = k"
proof -
  have ne: "sort ks \<noteq> []" using assms(1) by (metis empty_iff list.set(1) set_sort)
  then have "\<forall>j \<in> set (sort ks). hd (sort ks) \<le> j"
    using sorted_sort [of ks] by (cases "sort ks") auto
  with ne assms show ?thesis by (metis hd_in_set order.antisym set_sort)
qed

lemma last_sort_greatest:
  fixes ks :: "'a :: linorder list"
  assumes "k \<in> set ks" "\<forall>j \<in> set ks. j \<le> k"
  shows "last (sort ks) = k"
proof -
  have ne: "sort ks \<noteq> []" using assms(1) by (metis empty_iff list.set(1) set_sort)
  then have "\<forall>j \<in> set (sort ks). j \<le> last (sort ks)"
    using sorted_sort [of ks] by (cases "sort ks" rule: rev_cases) (auto simp: sorted_append)
  with ne assms show ?thesis by (metis last_in_set order.antisym set_sort)
qed

lemma view_change_validate_nonempty:
  assumes "vc_variant (us_data m) \<noteq> []" "hd (sort (map (usig_message_counter H) (vc_variant (us_data m)))) = lo"
    "last (sort (map (usig_message_counter H) (vc_variant (us_data m)))) = hi"
  shows "view_change_validate H c u m = valid \<longleftrightarrow>
    usig_signed_verify H (view_change_hash_content H (message_log_hash H)) vc_origin u m = Some (Inr ()) \<and>
    (case vc_checkpoint_cert (us_data m) of
       Some cert \<Rightarrow> checkpoint_certificate_validate H c u cert = valid \<and> lo \<le> signed_counter H (my_checkpoint cert)
     | None \<Rightarrow> lo = 0) \<and>
    of_nat (length (vc_variant (us_data m))) = hi - lo + 1 \<and>
    usig_message_counter H (last (vc_variant (us_data m))) = signed_counter H m - 1"
  using assms by (auto simp: view_change_validate_def Let_def validate_simps split: option.splits)



text \<open>
  Claim C11. A valid NewView certificate is backed by a correct replica: it is signed by the primary of
  its next view and, whatever set of at most \<open>t\<close> replicas is faulty, contains a ViewChange for exactly
  this next view with a verified signature of a replica outside the set.
\<close>

theorem new_view_certificate_backed:
  assumes ok: "new_view_certificate_validate H c u origin next_view vcs = valid"
    and len: "length vcs \<le> u64_max"
    and faulty: "finite F" "card F \<le> unat (cfg_t c)"
  shows "origin = primary c next_view \<and>
    (\<exists>m \<in> set vcs. vc_origin (us_data m) \<notin> F \<and> vc_next_view (us_data m) = next_view \<and>
      usig_signed_verify H (view_change_hash_content H (message_log_hash H)) vc_origin u m = Some (Inr ()))"
proof -
  from ok have primary: "origin = primary c next_view" and sufficient: "cfg_t c < of_nat (length vcs)"
    and each: "\<forall>m \<in> set vcs. vc_next_view (us_data m) = next_view \<and> view_change_validate H c u m = valid"
    and origins: "distinct (map (\<lambda>m. vc_origin (us_data m)) vcs)"
    unfolding new_view_certificate_validate_valid by blast+
  have "unat (cfg_t c) < length vcs" using sufficient len by (simp add: of_nat_length_less)
  from quorum_has_correct [OF origins faulty this]
  obtain m where m: "m \<in> set vcs" "vc_origin (us_data m) \<notin> F" by blast
  then have "vc_next_view (us_data m) = next_view" and ok_m: "view_change_validate H c u m = valid" using each by auto
  with m primary view_change_validate_valid(1) [OF ok_m] show ?thesis by (intro conjI bexI [of _ m]) simp_all
qed

theorem new_view_certificate_backed_witness:
  "\<exists>vcs. new_view_certificate_validate noop_crypto sample_config sample_usig 1 1 vcs = valid \<and>
     (\<exists>m \<in> set vcs. vc_origin (us_data m) \<notin> {1} \<and> vc_next_view (us_data m) = 1)"
proof (intro exI conjI)
  let ?vc = "\<lambda>r. UsigSigned (ViewChangeContent r 1 None []) (Noop_Signature 0)
    :: (bytes, noop_signature, dummy_attestation) view_change"
  let ?vcs = "[?vc 1, ?vc 2]"
  have each: "view_change_validate noop_crypto sample_config sample_usig (?vc r) = valid" if "r \<in> {1, 2}" for r
    using that by (simp add: view_change_validate_def noop_verify noop_signed_counter usig_validation_def)
  show ok: "new_view_certificate_validate noop_crypto sample_config sample_usig 1 1 ?vcs = valid"
    using each [of 1] each [of 2] by (simp add: new_view_certificate_validate_valid)
      (simp add: sample_config_def primary_def)
  have "length ?vcs \<le> u64_max" "card {1 :: replica_id} \<le> unat (cfg_t sample_config)"
    by (simp_all add: u64_max_def sample_config_def)
  from new_view_certificate_backed [OF ok this(1) _ this(2)]
  show "\<exists>m \<in> set ?vcs. vc_origin (us_data m) \<notin> {1} \<and> vc_next_view (us_data m) = 1" by blast
qed

lemma nonce_le_bytes_split: "nonce_le_bytes w = to_le_bytes (ucast w) @ to_le_bytes (ucast (drop_bit 64 w))"
proof -
  have "[0..<16] = [0..<8] @ map (\<lambda>i. i + 8) [0..<8]" by (simp add: upt_rec)
  moreover have "ucast (drop_bit (8 * i) w) = (ucast (drop_bit (8 * i) (ucast w :: u64)) :: byte)" if "i < 8" for i
    by (rule bit_word_eqI) (use that in \<open>auto simp: bit_ucast_iff bit_drop_bit_eq\<close>)
  moreover have "ucast (drop_bit (8 * (i + 8)) w) = (ucast (drop_bit (8 * i) (ucast (drop_bit 64 w) :: u64)) :: byte)"
    if "i < 8" for i
    by (rule bit_word_eqI) (use that in \<open>auto simp: bit_ucast_iff bit_drop_bit_eq algebra_simps\<close>)
  ultimately show ?thesis by (simp add: nonce_le_bytes_def to_le_bytes_def comp_def)
qed

lemma nonce_of_words: "nonce_le_bytes (ucast (a :: u64) + push_bit 64 (ucast (b :: u64))) = to_le_bytes a @ to_le_bytes b"
proof -
  let ?w = "or (ucast a) (push_bit 64 (ucast b)) :: nonce"
  have low: "\<not> bit a n" if "64 \<le> n" for n using that bit_imp_le_length [of a n] by auto
  have sum: "ucast a + push_bit 64 (ucast b) = ?w"
    by (rule disjunctive_add_eq_or, rule bit_word_eqI) (auto simp: low bit_and_iff bit_ucast_iff bit_push_bit_iff)
  have "ucast ?w = a"
    by (rule bit_word_eqI) (auto simp: bit_ucast_iff bit_or_iff bit_push_bit_iff)
  moreover have "ucast (drop_bit 64 ?w) = b"
    by (rule bit_word_eqI) (auto simp: low bit_ucast_iff bit_or_iff bit_push_bit_iff bit_drop_bit_eq)
  ultimately show ?thesis unfolding sum nonce_le_bytes_split by simp
qed



end
