(* ===== verification/Order_Enforcer.thy ===== *)
theory Order_Enforcer
  imports Minbft_Messages
begin

text \<open>
  The order enforcer of \<^verbatim>\<open>minbft/src/usig_msg_order_enforcer.rs\<close>: it hands out the signed messages
  of one replica in the order of their counters, without gaps, and keeps the ones that arrive early.
  Its heap is a list sorted by counter. The iterators that the functions return are consumed completely
  by every caller, so they are the lists of what they yield.
\<close>

section \<open>Counting\<close>

datatype count_checker_error = AlreadySeen | NotNext

record count_checker =
  next_count :: count

definition count_checker_new :: count_checker where
  "count_checker_new = \<lparr>next_count = 0\<rparr>"

definition count_checker_next :: "count \<Rightarrow> count_checker \<Rightarrow> (count_checker_error + unit) \<times> count_checker" where
  "count_checker_next c k =
     (if c < next_count k then (Inl AlreadySeen, k)
      else if c = next_count k then (Inr (), k\<lparr>next_count := next_count k + 1\<rparr>)
      else (Inl NotNext, k))"

section \<open>The enforcer\<close>

record ('p, 'sig, 'att) order_enforcer =
  oe_count_checker :: count_checker
  oe_unprocessed :: "('p, 'sig, 'att) usig_message list"
  oe_pending_new_views :: "(view, ('p, 'sig, 'att) usig_message list) hash_map"

definition order_enforcer_default :: "('p, 'sig, 'att) order_enforcer" where
  "order_enforcer_default =
     \<lparr>oe_count_checker = count_checker_new, oe_unprocessed = [], oe_pending_new_views = []\<rparr>"

fun yield_loop ::
    "('p, 'u, 'sig, 'att, 'z) crypto_scheme \<Rightarrow> count_checker \<Rightarrow> ('p, 'sig, 'att) usig_message list \<Rightarrow>
     ('p, 'sig, 'att) usig_message list \<times> count_checker \<times> ('p, 'sig, 'att) usig_message list" where
  "yield_loop H k [] = ([], k, [])"
| "yield_loop H k (head # rest) =
     (case count_checker_next (usig_message_counter H head) k of
        (Inr _, k') \<Rightarrow> (case yield_loop H k' rest of (out, k'', rest') \<Rightarrow> (head # out, k'', rest'))
      | (Inl AlreadySeen, k') \<Rightarrow> yield_loop H k' rest
      | (Inl NotNext, k') \<Rightarrow> ([], k', head # rest))"

definition yield_to_be_processed ::
    "('p, 'u, 'sig, 'att, 'z) crypto_scheme \<Rightarrow> ('p, 'sig, 'att) order_enforcer \<Rightarrow>
     ('p, 'sig, 'att) usig_message list \<times> ('p, 'sig, 'att) order_enforcer" where
  "yield_to_be_processed H oe =
     (case yield_loop H (oe_count_checker oe) (oe_unprocessed oe) of
        (out, k, rest) \<Rightarrow> (out, oe\<lparr>oe_count_checker := k, oe_unprocessed := rest\<rparr>))"

definition push_pending ::
    "view \<Rightarrow> ('p, 'sig, 'att) usig_message \<Rightarrow> ('p, 'sig, 'att) order_enforcer \<Rightarrow> ('p, 'sig, 'att) order_enforcer" where
  "push_pending v msg oe =
     (let entry = (case hm_get (oe_pending_new_views oe) v of None \<Rightarrow> [] | Some ms \<Rightarrow> ms)
      in oe\<lparr>oe_pending_new_views := hm_insert v (entry @ [msg]) (oe_pending_new_views oe)\<rparr>)"

definition note_pending ::
    "('p, 'sig, 'att) usig_message \<Rightarrow> ('p, 'sig, 'att) order_enforcer \<Rightarrow> ('p, 'sig, 'att) order_enforcer" where
  "note_pending msg oe =
     (let oe = (case msg of UM_NewView nv \<Rightarrow> push_pending (nv_next_view (us_data nv)) msg oe | _ \<Rightarrow> oe);
          oe = (case msg of UM_ViewChange vc \<Rightarrow> push_pending (vc_next_view (us_data vc)) msg oe | _ \<Rightarrow> oe)
      in oe)"

definition push_to_handle ::
    "('p, 'u, 'sig, 'att, 'z) crypto_scheme \<Rightarrow> ('p, 'sig, 'att) usig_message \<Rightarrow> ('p, 'sig, 'att) order_enforcer \<Rightarrow>
     ('p, 'sig, 'att) usig_message list \<times> ('p, 'sig, 'att) order_enforcer" where
  "push_to_handle H msg oe =
     (let oe = note_pending msg oe
      in case count_checker_next (usig_message_counter H msg) (oe_count_checker oe) of
           (Inr _, k) \<Rightarrow>
             (case yield_to_be_processed H (oe\<lparr>oe_count_checker := k\<rparr>) of (out, oe) \<Rightarrow> (msg # out, oe))
         | (Inl AlreadySeen, k) \<Rightarrow> ([], oe)
         | (Inl NotNext, k) \<Rightarrow>
             ([], oe\<lparr>oe_unprocessed := heap_push (usig_message_counter H) msg (oe_unprocessed oe)\<rparr>))"

definition get_pending_new_views :: "view \<Rightarrow> ('p, 'sig, 'att) order_enforcer \<Rightarrow> ('p, 'sig, 'att) usig_message list" where
  "get_pending_new_views current_view oe =
     concat (map (\<lambda>(v, messages). if current_view < v then messages else []) (oe_pending_new_views oe))"

text \<open>
  The loop of \<open>update_in_new_view\<close> ends when the counter passes the accepted one, which never happens
  for the greatest counter since the increment wraps; not ending is \<open>None\<close>.
\<close>

partial_function (option) update_loop :: "count \<Rightarrow> count \<Rightarrow> 'm list \<Rightarrow> (count \<times> 'm list) option" where
  "update_loop accepted nxt heap =
     (if nxt \<le> accepted
      then update_loop accepted (nxt + 1) (case heap_pop heap of None \<Rightarrow> heap | Some (_, rest) \<Rightarrow> rest)
      else Some (nxt, heap))"

definition update_in_new_view ::
    "count \<Rightarrow> ('p, 'sig, 'att) order_enforcer \<Rightarrow> ('p, 'sig, 'att) order_enforcer option" where
  "update_in_new_view counter_accepted_prep oe =
     do {
       (nxt, heap) \<leftarrow> update_loop counter_accepted_prep (next_count (oe_count_checker oe)) (oe_unprocessed oe);
       Some (oe\<lparr>oe_count_checker := \<lparr>next_count = nxt\<rparr>, oe_unprocessed := heap\<rparr>)
     }"

definition update_after_finished_new_view ::
    "view \<Rightarrow> ('p, 'sig, 'att) order_enforcer \<Rightarrow> ('p, 'sig, 'att) order_enforcer" where
  "update_after_finished_new_view new_view oe =
     oe\<lparr>oe_pending_new_views := hm_retain (\<lambda>v _. new_view < v) (oe_pending_new_views oe)\<rparr>"

fun drop_below :: "('m \<Rightarrow> count) \<Rightarrow> count \<Rightarrow> 'm list \<Rightarrow> 'm list" where
  "drop_below cnt c [] = []"
| "drop_below cnt c (head # rest) = (if cnt head < c then drop_below cnt c rest else head # rest)"

definition update_after_recovered_counter ::
    "('p, 'u, 'sig, 'att, 'z) crypto_scheme \<Rightarrow> count \<Rightarrow> ('p, 'sig, 'att) order_enforcer \<Rightarrow>
     ('p, 'sig, 'att) usig_message list \<times> ('p, 'sig, 'att) order_enforcer" where
  "update_after_recovered_counter H counter_accepted_prep oe =
     (let oe = (if next_count (oe_count_checker oe) < counter_accepted_prep
                then oe\<lparr>oe_count_checker := \<lparr>next_count = counter_accepted_prep\<rparr>\<rparr> else oe);
          oe = oe\<lparr>oe_unprocessed := drop_below (usig_message_counter H) counter_accepted_prep (oe_unprocessed oe)\<rparr>
      in yield_to_be_processed H oe)"

text \<open>Pushing a sequence of messages, with everything that is handed out on the way.\<close>

fun push_all ::
    "('p, 'u, 'sig, 'att, 'z) crypto_scheme \<Rightarrow> ('p, 'sig, 'att) usig_message list \<Rightarrow> ('p, 'sig, 'att) order_enforcer \<Rightarrow>
     ('p, 'sig, 'att) usig_message list \<times> ('p, 'sig, 'att) order_enforcer" where
  "push_all H [] oe = ([], oe)"
| "push_all H (m # ms) oe =
     (case push_to_handle H m oe of
        (out, oe') \<Rightarrow> (case push_all H ms oe' of (out', oe'') \<Rightarrow> (out @ out', oe'')))"

section \<open>Invariant and lemmas\<close>

text \<open>
  \<open>seen\<close> is the set of counters received so far (as natural numbers): everything below the next
  counter has been received, the next one has not, and the heap holds exactly the later ones.
\<close>

definition oe_next :: "('p, 'sig, 'att, 'z) order_enforcer_scheme \<Rightarrow> nat" where
  "oe_next oe = unat (next_count (oe_count_checker oe))"

definition oe_inv ::
    "('p, 'u, 'sig, 'att, 'z) crypto_scheme \<Rightarrow> nat set \<Rightarrow> ('p, 'sig, 'att) order_enforcer \<Rightarrow> bool" where
  "oe_inv H seen oe \<longleftrightarrow> heap_wf (usig_message_counter H) (oe_unprocessed oe) \<and>
     {0..<oe_next oe} \<subseteq> seen \<and> oe_next oe \<notin> seen \<and>
     (\<lambda>m. unat (usig_message_counter H m)) ` set (oe_unprocessed oe) = {k \<in> seen. oe_next oe < k}"

abbreviation ucnt :: "('p, 'u, 'sig, 'att, 'z) crypto_scheme \<Rightarrow> ('p, 'sig, 'att) usig_message \<Rightarrow> nat" where
  "ucnt H m \<equiv> unat (usig_message_counter H m)"

lemma count_checker_next_cases:
  "count_checker_next c k =
     (if unat c < unat (next_count k) then (Inl AlreadySeen, k)
      else if unat c = unat (next_count k) then (Inr (), k\<lparr>next_count := next_count k + 1\<rparr>)
      else (Inl NotNext, k))"
  by (simp add: count_checker_next_def word_less_nat_alt word_unat_eq_iff)

lemma yield_loop_spec:
  assumes "heap_wf (usig_message_counter H) heap" "\<forall>m \<in> set heap. ucnt H m < u64_max"
    "yield_loop H k heap = (out, k', rest)"
  shows "map (ucnt H) out = [unat (next_count k)..<unat (next_count k')] \<and>
    unat (next_count k) \<le> unat (next_count k') \<and>
    heap_wf (usig_message_counter H) rest \<and> set out \<subseteq> set heap \<and> set rest \<subseteq> set heap \<and>
    (\<forall>m \<in> set rest. unat (next_count k') < ucnt H m) \<and>
    (\<forall>m \<in> set heap. m \<in> set rest \<or> ucnt H m < unat (next_count k'))"
  using assms
proof (induction heap arbitrary: k out k' rest)
  case Nil
  then show ?case by auto
next
  case (Cons head tl)
  let ?c = "ucnt H head" and ?n = "unat (next_count k)"
  have wf: "heap_wf (usig_message_counter H) tl" "\<forall>m \<in> set tl. ucnt H m < u64_max" "?c < u64_max"
    using Cons.prems by auto
  consider "?c < ?n" | "?c = ?n" | "?n < ?c" by linarith
  then show ?case
  proof cases
    case 1
    then have "yield_loop H k tl = (out, k', rest)"
      using Cons.prems(3) by (simp add: count_checker_next_cases)
    from Cons.IH [OF wf(1,2) this] 1 show ?thesis by auto
  next
    case 2
    have n: "unat (next_count k + 1) = Suc ?n"
      using wf(3) 2 unat_max_u64 by (intro unat_add_one) auto
    obtain out1 where y: "yield_loop H (k\<lparr>next_count := next_count k + 1\<rparr>) tl = (out1, k', rest)"
      "out = head # out1"
      using Cons.prems(3) 2 by (auto simp: count_checker_next_cases split: prod.splits)
    from Cons.IH [OF wf(1,2) y(1)] n y(2) 2 show ?thesis by (auto simp: upt_conv_Cons)
  next
    case 3
    then have "out = []" "k' = k" "rest = head # tl"
      using Cons.prems(3) by (auto simp: count_checker_next_cases)
    moreover have "?n < ucnt H m" if "m \<in> set tl" for m
      using Cons.prems(1) that 3 by (auto simp: word_le_nat_alt intro: order_less_le_trans)
    ultimately show ?thesis using Cons.prems(1) 3 by auto
  qed
qed

lemma push_pending_sel [simp]:
  "oe_count_checker (push_pending v m oe) = oe_count_checker oe"
  "oe_unprocessed (push_pending v m oe) = oe_unprocessed oe"
  by (simp_all add: push_pending_def Let_def)

lemma note_pending_sel [simp]:
  "oe_count_checker (note_pending m oe) = oe_count_checker oe"
  "oe_unprocessed (note_pending m oe) = oe_unprocessed oe"
  by (cases m; simp add: note_pending_def)+

lemma oe_next_note_pending [simp]: "oe_next (note_pending m oe) = oe_next oe"
  by (simp add: oe_next_def)

lemma yield_to_be_processed_spec:
  assumes "yield_to_be_processed H oe = (out, oe')" "heap_wf (usig_message_counter H) (oe_unprocessed oe)"
    "\<forall>m \<in> set (oe_unprocessed oe). ucnt H m < u64_max"
  shows "map (ucnt H) out = [oe_next oe..<oe_next oe'] \<and> oe_next oe \<le> oe_next oe' \<and>
    heap_wf (usig_message_counter H) (oe_unprocessed oe') \<and> set out \<subseteq> set (oe_unprocessed oe) \<and>
    set (oe_unprocessed oe') = {m \<in> set (oe_unprocessed oe). oe_next oe' < ucnt H m} \<and>
    (\<forall>m \<in> set (oe_unprocessed oe). ucnt H m \<noteq> oe_next oe')"
proof -
  obtain k rest where y: "yield_loop H (oe_count_checker oe) (oe_unprocessed oe) = (out, k, rest)"
    "oe' = oe\<lparr>oe_count_checker := k, oe_unprocessed := rest\<rparr>"
    using assms(1) by (auto simp: yield_to_be_processed_def split: prod.splits)
  note spec = yield_loop_spec [OF assms(2,3) y(1)]
  have "m \<in> set rest \<longleftrightarrow> m \<in> set (oe_unprocessed oe) \<and> unat (next_count k) < ucnt H m" for m
    using spec by (meson not_less_iff_gr_or_eq subsetD)
  moreover have "ucnt H m \<noteq> unat (next_count k)" if "m \<in> set (oe_unprocessed oe)" for m
    using spec that by (metis less_irrefl)
  ultimately show ?thesis using spec y(2) by (auto simp: oe_next_def)
qed


lemma push_to_handle_old:
  "ucnt H msg < oe_next oe \<Longrightarrow> push_to_handle H msg oe = ([], note_pending msg oe)"
  by (simp add: push_to_handle_def Let_def count_checker_next_cases oe_next_def)

lemma push_to_handle_early:
  "oe_next oe < ucnt H msg \<Longrightarrow> push_to_handle H msg oe =
     ([], (note_pending msg oe)\<lparr>oe_unprocessed := heap_push (usig_message_counter H) msg (oe_unprocessed oe)\<rparr>)"
  by (simp add: push_to_handle_def Let_def count_checker_next_cases oe_next_def)

definition oe_advance :: "('p, 'sig, 'att) usig_message \<Rightarrow> ('p, 'sig, 'att) order_enforcer \<Rightarrow> ('p, 'sig, 'att) order_enforcer" where
  "oe_advance msg oe = (note_pending msg oe)\<lparr>oe_count_checker :=
     (oe_count_checker oe)\<lparr>next_count := next_count (oe_count_checker oe) + 1\<rparr>\<rparr>"

lemma push_to_handle_next:
  "ucnt H msg = oe_next oe \<Longrightarrow> push_to_handle H msg oe =
     (case yield_to_be_processed H (oe_advance msg oe) of (out, oe) \<Rightarrow> (msg # out, oe))"
  by (simp add: push_to_handle_def Let_def count_checker_next_cases oe_next_def oe_advance_def)

lemma oe_advance_sel:
  "oe_unprocessed (oe_advance msg oe) = oe_unprocessed oe"
  "oe_next oe < u64_max \<Longrightarrow> oe_next (oe_advance msg oe) = Suc (oe_next oe)"
proof -
  show "oe_unprocessed (oe_advance msg oe) = oe_unprocessed oe" by (simp add: oe_advance_def)
  assume "oe_next oe < u64_max"
  then have "next_count (oe_count_checker oe) \<noteq> - 1" using unat_max_u64 by (auto simp: oe_next_def)
  then show "oe_next (oe_advance msg oe) = Suc (oe_next oe)"
    by (simp add: oe_advance_def oe_next_def unat_add_one)
qed

lemma oe_inv_mem:
  assumes "oe_inv H seen oe"
  shows "k \<in> seen \<and> oe_next oe < k \<longleftrightarrow> (\<exists>m \<in> set (oe_unprocessed oe). ucnt H m = k)"
proof -
  have "k \<in> (\<lambda>m. ucnt H m) ` set (oe_unprocessed oe) \<longleftrightarrow> k \<in> seen \<and> oe_next oe < k"
    using assms by (simp add: oe_inv_def)
  then show ?thesis by auto
qed

lemma oe_invI:
  assumes "heap_wf (usig_message_counter H) (oe_unprocessed oe)"
    "\<And>k. k < oe_next oe \<Longrightarrow> k \<in> seen" "oe_next oe \<notin> seen"
    "\<And>k. k \<in> seen \<and> oe_next oe < k \<longleftrightarrow> (\<exists>m \<in> set (oe_unprocessed oe). ucnt H m = k)"
  shows "oe_inv H seen oe"
  using assms by (auto simp: oe_inv_def image_iff)

lemma push_to_handle_spec:
  assumes inv: "oe_inv H seen oe" and bound: "\<forall>k \<in> seen. k < u64_max" "ucnt H msg < u64_max"
    and push: "push_to_handle H msg oe = (out, oe')"
  shows "oe_inv H (insert (ucnt H msg) seen) oe' \<and> map (ucnt H) out = [oe_next oe..<oe_next oe'] \<and>
    oe_next oe \<le> oe_next oe' \<and> set out \<subseteq> insert msg (set (oe_unprocessed oe))"
proof -
  let ?c = "ucnt H msg" and ?n = "oe_next oe"
  have heap: "heap_wf (usig_message_counter H) (oe_unprocessed oe)" "\<forall>m \<in> set (oe_unprocessed oe). ucnt H m < u64_max"
    using inv bound(1) by (auto simp: oe_inv_def)
  note mem = oe_inv_mem [OF inv]
  consider "?c < ?n" | "?c = ?n" | "?n < ?c" by linarith
  then show ?thesis
  proof cases
    case 1
    with push have "out = []" "oe' = note_pending msg oe" by (simp_all add: push_to_handle_old)
    moreover have "insert ?c seen = seen" using 1 inv by (auto simp: oe_inv_def)
    ultimately show ?thesis using inv by (simp add: oe_inv_def)
  next
    case 2
    obtain out1 where y: "yield_to_be_processed H (oe_advance msg oe) = (out1, oe')" "out = msg # out1"
      using push by (auto simp: push_to_handle_next [OF 2] split: prod.splits)
    have "oe_next oe < u64_max" using bound(2) 2 by simp
    note adv = oe_advance_sel(1) [of msg oe] oe_advance_sel(2) [OF this, of msg]
    have spec: "map (ucnt H) out1 = [Suc ?n..<oe_next oe']" "Suc ?n \<le> oe_next oe'"
      "heap_wf (usig_message_counter H) (oe_unprocessed oe')" "set out1 \<subseteq> set (oe_unprocessed oe)"
      "set (oe_unprocessed oe') = {m \<in> set (oe_unprocessed oe). oe_next oe' < ucnt H m}"
      "\<forall>m \<in> set (oe_unprocessed oe). ucnt H m \<noteq> oe_next oe'"
      using yield_to_be_processed_spec [OF y(1)] heap unfolding adv by blast+
    have "oe_inv H (insert ?c seen) oe'"
    proof (rule oe_invI [OF spec(3)])
      fix k
      assume k: "k < oe_next oe'"
      consider "k < ?n" | "k = ?n" | "Suc ?n \<le> k" by linarith
      then show "k \<in> insert ?c seen"
      proof cases
        case 3
        then have "k \<in> ucnt H ` set out1" using spec(1) k by (metis atLeastLessThan_iff set_map set_upt)
        then show ?thesis using spec(4) mem [of k] by blast
      qed (use inv 2 in \<open>auto simp: oe_inv_def\<close>)
    next
      show "oe_next oe' \<notin> insert ?c seen" using mem [of "oe_next oe'"] spec(2,6) 2 by auto
    next
      fix k
      show "k \<in> insert ?c seen \<and> oe_next oe' < k \<longleftrightarrow> (\<exists>m \<in> set (oe_unprocessed oe'). ucnt H m = k)"
        using mem [of k] spec(2) 2 unfolding spec(5) by auto
    qed
    with y(2) spec(1,2,4) 2 show ?thesis by (auto simp: upt_conv_Cons)
  next
    case 3
    with push have o: "out = []"
      "oe' = (note_pending msg oe)\<lparr>oe_unprocessed := heap_push (usig_message_counter H) msg (oe_unprocessed oe)\<rparr>"
      by (simp_all add: push_to_handle_early)
    have n: "oe_next oe' = ?n" using o(2) by (simp add: oe_next_def)
    have "oe_inv H (insert ?c seen) oe'"
      by (rule oe_invI) (use inv 3 heap(1) mem o(2) n in \<open>auto simp: oe_inv_def heap_push_def set_insort_key sorted_insort_key\<close>)
    with o(1) n show ?thesis by simp
  qed
qed

lemma yield_loop_heap: "yield_loop H k heap = (out, k', rest) \<Longrightarrow> set rest \<subseteq> set heap"
proof (induction heap arbitrary: k out k' rest)
  case (Cons m heap)
  then show ?case
    by (auto simp: count_checker_next_cases split: if_splits prod.splits) (meson subsetD)+
qed simp

lemma push_to_handle_heap:
  assumes "push_to_handle H msg oe = (out, oe')"
  shows "set (oe_unprocessed oe') \<subseteq> insert msg (set (oe_unprocessed oe))"
proof -
  consider "ucnt H msg < oe_next oe" | "ucnt H msg = oe_next oe" | "oe_next oe < ucnt H msg" by linarith
  then show ?thesis
  proof cases
    case 2
    then obtain k rest out1 where "yield_loop H k (oe_unprocessed oe) = (out1, oe_count_checker oe', rest)"
      "oe_unprocessed oe' = rest"
      using assms by (auto simp: push_to_handle_next yield_to_be_processed_def oe_advance_def split: prod.splits)
    then show ?thesis using yield_loop_heap by blast
  qed (use assms in \<open>auto simp: push_to_handle_old push_to_handle_early\<close>)
qed

lemma push_all_spec:
  assumes "oe_inv H seen oe" "\<forall>k \<in> seen. k < u64_max" "\<forall>m \<in> set ms. ucnt H m < u64_max"
    "push_all H ms oe = (out, oe')"
  shows "oe_inv H (seen \<union> ucnt H ` set ms) oe' \<and> map (ucnt H) out = [oe_next oe..<oe_next oe'] \<and>
    oe_next oe \<le> oe_next oe' \<and> set out \<subseteq> set ms \<union> set (oe_unprocessed oe) \<and>
    set (oe_unprocessed oe') \<subseteq> set ms \<union> set (oe_unprocessed oe)"
  using assms
proof (induction ms arbitrary: seen oe out)
  case Nil
  then show ?case by auto
next
  case (Cons m ms)
  obtain out1 oe1 out2 where p: "push_to_handle H m oe = (out1, oe1)" "push_all H ms oe1 = (out2, oe')" "out = out1 @ out2"
    using Cons.prems(4) by (auto split: prod.splits)
  have s1: "oe_inv H (insert (ucnt H m) seen) oe1" "map (ucnt H) out1 = [oe_next oe..<oe_next oe1]"
    "oe_next oe \<le> oe_next oe1" "set out1 \<subseteq> insert m (set (oe_unprocessed oe))"
    using push_to_handle_spec [OF Cons.prems(1,2) _ p(1)] Cons.prems(3) by auto
  have "set (oe_unprocessed oe1) \<subseteq> insert m (set (oe_unprocessed oe))"
    by (rule push_to_handle_heap [OF p(1)])
  moreover have "oe_inv H (insert (ucnt H m) seen \<union> ucnt H ` set ms) oe' \<and> map (ucnt H) out2 = [oe_next oe1..<oe_next oe'] \<and>
    oe_next oe1 \<le> oe_next oe' \<and> set out2 \<subseteq> set ms \<union> set (oe_unprocessed oe1) \<and>
    set (oe_unprocessed oe') \<subseteq> set ms \<union> set (oe_unprocessed oe1)"
    by (rule Cons.IH [OF s1(1) _ _ p(2)]) (use Cons.prems(2,3) in auto)
  ultimately show ?case
    using s1 p(3) upt_append [of "oe_next oe" "oe_next oe1" "oe_next oe'"] by auto
qed

lemma oe_inv_default: "oe_inv H {} order_enforcer_default" and oe_next_default: "oe_next order_enforcer_default = 0"
  by (simp_all add: oe_inv_def oe_next_def order_enforcer_default_def count_checker_new_def)

lemma oe_unprocessed_default [simp]: "oe_unprocessed order_enforcer_default = []"
  by (simp add: order_enforcer_default_def)

lemma push_all_default:
  assumes "\<forall>m \<in> set ms. ucnt H m < u64_max" "push_all H ms order_enforcer_default = (out, oe')"
  shows "oe_inv H (ucnt H ` set ms) oe'" "map (ucnt H) out = [0..<oe_next oe']" "set out \<subseteq> set ms"
  using push_all_spec [OF oe_inv_default _ assms] by (simp_all add: oe_next_default)

text \<open>The next counter is the least one that was not received.\<close>

lemma oe_inv_mex:
  assumes "oe_inv H seen oe" "oe_inv H seen oe'"
  shows "oe_next oe = oe_next oe'"
proof -
  have "oe_next a \<le> oe_next b" if "oe_inv H seen a" "oe_inv H seen b" for a b
  proof (rule ccontr)
    assume "\<not> oe_next a \<le> oe_next b"
    then have "oe_next b \<in> seen" using that(1) by (auto simp: oe_inv_def)
    then show False using that(2) by (simp add: oe_inv_def)
  qed
  with assms show ?thesis by (simp add: antisym)
qed

lemma update_loop_stop: "\<not> nxt \<le> accepted \<Longrightarrow> update_loop accepted nxt heap = Some (nxt, heap)"
  by (subst update_loop.simps) simp

lemma update_loop_step: "nxt \<le> accepted \<Longrightarrow> update_loop accepted nxt heap = update_loop accepted (nxt + 1) (tl heap)"
  by (subst update_loop.simps) (auto simp: heap_pop_def split: list.splits)

lemma update_loop_terminates:
  assumes "accepted \<noteq> - 1"
  shows "update_loop accepted nxt heap =
    Some (if nxt \<le> accepted then accepted + 1 else nxt, drop (Suc (unat accepted) - unat nxt) heap)"
proof (induction "Suc (unat accepted) - unat nxt" arbitrary: nxt heap)
  case 0
  then have "\<not> nxt \<le> accepted" by (simp add: word_le_nat_alt)
  with 0 show ?case by (simp add: update_loop_stop)
next
  case (Suc d)
  then have le: "nxt \<le> accepted" by (simp add: word_le_nat_alt)
  with assms have "nxt \<noteq> - 1" using word_order.extremum_uniqueI by blast
  then have n: "unat (nxt + 1) = Suc (unat nxt)" by (rule unat_add_one)
  have d: "d = Suc (unat accepted) - unat (nxt + 1)" using Suc(2) n by simp
  have "\<not> nxt + 1 \<le> accepted \<Longrightarrow> nxt + 1 = accepted + 1"
    using le n by (simp add: word_le_nat_alt word_unat_eq_iff [of nxt accepted])
  moreover have "drop (Suc (unat accepted) - unat nxt) heap = drop d (tl heap)"
    unfolding Suc(2) [symmetric] by (cases heap) simp_all
  ultimately show ?case
    using update_loop_step [OF le, of heap] Suc(1) [OF d, of "tl heap"] le d by auto
qed

lemma update_loop_Some: "update_loop accepted nxt heap = Some r \<Longrightarrow> accepted \<noteq> - 1"
  by (erule update_loop.raw_induct [where P = "\<lambda>a n h r. a \<noteq> - 1", rotated]) (auto split: if_splits)

lemma update_loop_diverges: "update_loop (- 1) nxt heap = None"
  using update_loop_Some [of "- 1" nxt heap] by (cases "update_loop (- 1) nxt heap") auto

section \<open>Properties\<close>

text \<open>
  Claim C13. In whatever order the messages of a replica arrive, with duplicates or not, the enforcer
  hands out received messages only, with the counters \<open>0, 1, 2, \<dots>\<close> each exactly once and in order, up
  to the least counter \<open>k\<close> that has not been received; the messages it keeps back are exactly those
  with a counter above \<open>k\<close>.
\<close>

theorem order_enforcer_hands_out_prefix:
  assumes "\<forall>m \<in> set ms. ucnt H m < u64_max"
    and "push_all H ms order_enforcer_default = (out, oe')"
  shows "\<exists>k. map (ucnt H) out = [0..<k] \<and> set out \<subseteq> set ms \<and> k = oe_next oe' \<and>
    (\<forall>i < k. i \<in> ucnt H ` set ms) \<and> k \<notin> ucnt H ` set ms \<and>
    ucnt H ` set (oe_unprocessed oe') = {i \<in> ucnt H ` set ms. k < i}"
  using push_all_default [OF assms] by (auto simp: oe_inv_def)

definition sample_message :: "nat \<Rightarrow> count \<Rightarrow> (bytes, noop_signature, dummy_attestation) usig_message" where
  "sample_message v c = UM_View (VP_Prepare (UsigSigned
     \<lparr>pc_origin = 0, pc_view = of_nat v, pc_request_batch = []\<rparr> (Noop_Signature c)))"

definition sample_crypto :: "(bytes, usig_noop, noop_signature, dummy_attestation) crypto" where
  "sample_crypto = \<lparr>sha256 = (\<lambda>b. b), hash_payload = (\<lambda>p. p), hash_att = (\<lambda>_. [0]),
     hash_sig = (\<lambda>s. to_le_bytes (noop_signature_counter s)), usig = usig_noop_ops\<rparr>"

lemma sample_message_counter [simp]: "usig_message_counter sample_crypto (sample_message v c) = c"
  by (simp add: sample_message_def signed_counter_def sample_crypto_def usig_noop_ops_def)

theorem order_enforcer_hands_out_prefix_witness:
  "\<exists>out oe'. push_all sample_crypto (map (sample_message 0) [2, 0, 5, 1, 0]) order_enforcer_default = (out, oe') \<and>
     (\<exists>k. map (ucnt sample_crypto) out = [0..<k] \<and> k \<notin> {0, 1, 2, 5} \<and> (\<forall>i < k. i \<in> {0, 1, 2, 5}))"
proof -
  let ?ms = "map (sample_message 0) [2, 0, 5, 1, 0]"
  obtain out oe' where p: "push_all sample_crypto ?ms order_enforcer_default = (out, oe')" by fastforce
  have "\<forall>m \<in> set ?ms. ucnt sample_crypto m < u64_max" by (simp add: u64_max_def)
  from order_enforcer_hands_out_prefix [OF this p]
  obtain k where k: "map (ucnt sample_crypto) out = [0..<k]" "\<forall>i < k. i \<in> ucnt sample_crypto ` set ?ms"
    "k \<notin> ucnt sample_crypto ` set ?ms" by blast
  have "ucnt sample_crypto ` set ?ms = {0, 1, 2, 5}" by (simp add: insert_commute)
  with k p show ?thesis by metis
qed

text \<open>
  What the enforcer hands out does not depend on the order of arrival: if every counter
  identifies a message (which the USIG guarantees), two arrival orders of the same messages give the
  same sequence of processed messages.
\<close>

theorem order_enforcer_arrival_order_irrelevant:
  assumes "\<forall>m \<in> set ms. ucnt H m < u64_max" "inj_on (usig_message_counter H) (set ms)" "set ms = set ms'"
  shows "fst (push_all H ms order_enforcer_default) = fst (push_all H ms' order_enforcer_default)"
proof -
  obtain out oe where p: "push_all H ms order_enforcer_default = (out, oe)" by fastforce
  obtain out' oe' where p': "push_all H ms' order_enforcer_default = (out', oe')" by fastforce
  have b': "\<forall>m \<in> set ms'. ucnt H m < u64_max" using assms by simp
  have "oe_next oe = oe_next oe'"
    using oe_inv_mex push_all_default(1) [OF assms(1) p] push_all_default(1) [OF b' p'] assms(3) by simp
  then have "map (ucnt H) out = map (ucnt H) out'"
    using push_all_default(2) [OF assms(1) p] push_all_default(2) [OF b' p'] by simp
  moreover have "inj_on (ucnt H) (set ms)"
    using assms(2) by (simp add: inj_on_def word_unat_eq_iff)
  then have "inj_on (ucnt H) (set out \<union> set out')"
    by (rule inj_on_subset) (use push_all_default(3) [OF assms(1) p] push_all_default(3) [OF b' p'] assms(3) in simp)
  ultimately have "out = out'" by (simp add: inj_on_map_eq_map)
  with p p' show ?thesis by simp
qed

theorem order_enforcer_arrival_order_irrelevant_witness:
  "fst (push_all sample_crypto [sample_message 0 1, sample_message 0 0] order_enforcer_default) =
   fst (push_all sample_crypto [sample_message 0 0, sample_message 0 1] order_enforcer_default)"
  by (rule order_enforcer_arrival_order_irrelevant) (auto simp: u64_max_def)

lemma drop_below_filter:
  "heap_wf f heap \<Longrightarrow> drop_below f c heap = filter (\<lambda>m. c \<le> f m) heap"
proof (induction heap)
  case (Cons m heap)
  then have "filter (\<lambda>m. c \<le> f m) heap = heap" if "c \<le> f m"
    using that by (intro filter_True) (auto intro: order_trans)
  with Cons show ?case by (auto simp: not_less)
qed simp

text \<open>
  Claim C14. After a recovering replica's counter becomes known, the enforcer resumes there: it hands
  out waiting messages with consecutive counters starting at the recovered counter (or where it was,
  if it was already further), stops at the first counter that is not waiting, and keeps exactly the
  later messages.
\<close>

theorem update_after_recovered_counter_resumes:
  assumes "heap_wf (usig_message_counter H) (oe_unprocessed oe)"
    and "\<forall>m \<in> set (oe_unprocessed oe). ucnt H m < u64_max"
    and "update_after_recovered_counter H c oe = (out, oe')"
  shows "map (ucnt H) out = [max (oe_next oe) (unat c)..<oe_next oe'] \<and> max (oe_next oe) (unat c) \<le> oe_next oe' \<and>
    set out \<subseteq> set (oe_unprocessed oe) \<and>
    set (oe_unprocessed oe') = {m \<in> set (oe_unprocessed oe). oe_next oe' < ucnt H m} \<and>
    (\<forall>m \<in> set (oe_unprocessed oe). ucnt H m \<noteq> oe_next oe')"
proof -
  let ?heap = "filter (\<lambda>m. c \<le> usig_message_counter H m) (oe_unprocessed oe)"
  let ?oe = "(if next_count (oe_count_checker oe) < c then oe\<lparr>oe_count_checker := \<lparr>next_count = c\<rparr>\<rparr> else oe)
    \<lparr>oe_unprocessed := ?heap\<rparr>"
  have y: "yield_to_be_processed H ?oe = (out, oe')"
    using assms(3) unfolding update_after_recovered_counter_def Let_def
    by (auto simp: drop_below_filter [OF assms(1)] split: if_splits)
  have n: "oe_next ?oe = max (oe_next oe) (unat c)"
    by (auto simp: oe_next_def word_less_nat_alt max_def)
  have "heap_wf (usig_message_counter H) (oe_unprocessed ?oe)" "\<forall>m \<in> set (oe_unprocessed ?oe). ucnt H m < u64_max"
    using assms(1,2) by (simp_all add: sorted_filter)
  from yield_to_be_processed_spec [OF y this] n
  have spec: "map (ucnt H) out = [max (oe_next oe) (unat c)..<oe_next oe']" "max (oe_next oe) (unat c) \<le> oe_next oe'"
    "set out \<subseteq> set ?heap" "set (oe_unprocessed oe') = {m \<in> set ?heap. oe_next oe' < ucnt H m}"
    "\<forall>m \<in> set ?heap. ucnt H m \<noteq> oe_next oe'" by simp_all
  have "m \<in> set ?heap" if "m \<in> set (oe_unprocessed oe)" "oe_next oe' \<le> ucnt H m" for m
    using that spec(2) by (auto simp: word_le_nat_alt)
  with spec show ?thesis by auto
qed

theorem update_after_recovered_counter_resumes_witness:
  "\<exists>out oe'. update_after_recovered_counter sample_crypto 3
       (order_enforcer_default\<lparr>oe_unprocessed := [sample_message 0 3, sample_message 0 4, sample_message 0 6]\<rparr>) = (out, oe') \<and>
     map (ucnt sample_crypto) out = [3..<oe_next oe'] \<and> oe_next oe' \<noteq> 3"
proof -
  let ?oe = "order_enforcer_default\<lparr>oe_unprocessed := [sample_message 0 3, sample_message 0 4, sample_message 0 6]\<rparr>"
  obtain out oe' where u: "update_after_recovered_counter sample_crypto 3 ?oe = (out, oe')" by fastforce
  have n: "oe_next ?oe = 0" by (simp add: oe_next_def order_enforcer_default_def count_checker_new_def)
  have wf: "heap_wf (usig_message_counter sample_crypto) (oe_unprocessed ?oe)"
    "\<forall>m \<in> set (oe_unprocessed ?oe). ucnt sample_crypto m < u64_max"
    by (simp_all add: u64_max_def)
  note r = update_after_recovered_counter_resumes [OF wf u, unfolded n]
  have "map (ucnt sample_crypto) out = [3..<oe_next oe']" using r by simp
  moreover have "ucnt sample_crypto (sample_message 0 3) \<noteq> oe_next oe'" using r by simp
  ultimately show ?thesis using u by (intro exI conjI) simp_all
qed

text \<open>
  Claim C15. When a NewView is processed, \<open>update_in_new_view\<close> moves the next expected counter past the
  accepted one and pops one waiting message per increment, whatever its counter is; it returns for
  every accepted counter except the greatest one, for which the increment wraps and it loops forever.
\<close>

theorem update_in_new_view_effect:
  "(accepted \<noteq> - 1 \<longrightarrow>
      update_in_new_view accepted oe =
        Some (oe\<lparr>oe_count_checker := \<lparr>next_count = max (next_count (oe_count_checker oe)) (accepted + 1)\<rparr>,
                 oe_unprocessed := drop (Suc (unat accepted) - oe_next oe) (oe_unprocessed oe)\<rparr>)) \<and>
   update_in_new_view (- 1) oe = None"
proof (intro conjI impI)
  assume "accepted \<noteq> - 1"
  moreover from this have "unat (accepted + 1) = Suc (unat accepted)" by (rule unat_add_one)
  ultimately show "update_in_new_view accepted oe =
      Some (oe\<lparr>oe_count_checker := \<lparr>next_count = max (next_count (oe_count_checker oe)) (accepted + 1)\<rparr>,
               oe_unprocessed := drop (Suc (unat accepted) - oe_next oe) (oe_unprocessed oe)\<rparr>)"
    by (cases "next_count (oe_count_checker oe) = accepted + 1")
      (auto simp: update_in_new_view_def update_loop_terminates oe_next_def max_def word_le_nat_alt word_unat_eq_iff)
qed (simp add: update_in_new_view_def update_loop_diverges)

theorem update_in_new_view_effect_witness:
  "update_in_new_view 4 (order_enforcer_default :: (bytes, noop_signature, dummy_attestation) order_enforcer) =
     Some (order_enforcer_default\<lparr>oe_count_checker := \<lparr>next_count = 5\<rparr>\<rparr>)"
  using update_in_new_view_effect [of 4 "order_enforcer_default :: (bytes, noop_signature, dummy_attestation) order_enforcer"]
  by (simp add: order_enforcer_default_def count_checker_new_def)

lemma yield_loop_out: "yield_loop H k heap = (out, k', rest) \<Longrightarrow> set out \<subseteq> set heap"
proof (induction heap arbitrary: k out k' rest)
  case (Cons m heap)
  then show ?case
    by (auto simp: count_checker_next_cases split: if_splits prod.splits) (meson subsetD)+
qed simp

lemma yield_out:
  assumes "yield_to_be_processed H oe = (out, oe')"
  shows "set out \<subseteq> set (oe_unprocessed oe)" "set (oe_unprocessed oe') \<subseteq> set (oe_unprocessed oe)"
  using assms yield_loop_out [of H "oe_count_checker oe" "oe_unprocessed oe"] yield_loop_heap [of H "oe_count_checker oe" "oe_unprocessed oe"]
  by (auto simp: yield_to_be_processed_def split: prod.splits)

lemma push_to_handle_out:
  assumes "push_to_handle H msg oe = (out, oe')"
  shows "set out \<subseteq> insert msg (set (oe_unprocessed oe))"
proof -
  consider "ucnt H msg < oe_next oe" | "ucnt H msg = oe_next oe" | "oe_next oe < ucnt H msg" by linarith
  then show ?thesis
  proof cases
    case 2
    then obtain out1 where y: "yield_to_be_processed H (oe_advance msg oe) = (out1, oe')" "out = msg # out1"
      using assms by (auto simp: push_to_handle_next split: prod.splits)
    with yield_out(1) [OF y(1)] show ?thesis by (auto simp: oe_advance_sel)
  qed (use assms in \<open>auto simp: push_to_handle_old push_to_handle_early\<close>)
qed

text \<open>All that can happen to an enforcer: the four operations that the replica calls, in any order.\<close>

datatype ('p, 'sig, 'att) oe_step =
    OE_Push "('p, 'sig, 'att) usig_message"
  | OE_In_New_View count
  | OE_Finished_New_View view
  | OE_Recovered_Counter count

fun oe_run ::
    "('p, 'u, 'sig, 'att, 'z) crypto_scheme \<Rightarrow> ('p, 'sig, 'att) oe_step list \<Rightarrow> ('p, 'sig, 'att) order_enforcer \<Rightarrow>
     (('p, 'sig, 'att) usig_message list \<times> ('p, 'sig, 'att) order_enforcer) option" where
  "oe_run H [] oe = Some ([], oe)"
| "oe_run H (step # steps) oe =
     do {
       (out, oe) \<leftarrow> (case step of
           OE_Push m \<Rightarrow> Some (push_to_handle H m oe)
         | OE_In_New_View c \<Rightarrow> map_option (Pair []) (update_in_new_view c oe)
         | OE_Finished_New_View v \<Rightarrow> Some ([], update_after_finished_new_view v oe)
         | OE_Recovered_Counter c \<Rightarrow> Some (update_after_recovered_counter H c oe));
       (out', oe) \<leftarrow> oe_run H steps oe;
       Some (out @ out', oe)
     }"

lemma update_in_new_view_heap:
  assumes "update_in_new_view c oe = Some oe'"
  shows "oe_unprocessed oe' = drop (Suc (unat c) - oe_next oe) (oe_unprocessed oe)"
    and "next_count (oe_count_checker oe') = max (next_count (oe_count_checker oe)) (c + 1)" and "c \<noteq> - 1"
proof -
  show c: "c \<noteq> - 1" using assms by (auto simp: update_in_new_view_def update_loop_diverges)
  then have "unat (c + 1) = Suc (unat c)" by (rule unat_add_one)
  then show "oe_unprocessed oe' = drop (Suc (unat c) - oe_next oe) (oe_unprocessed oe)"
    "next_count (oe_count_checker oe') = max (next_count (oe_count_checker oe)) (c + 1)"
    using assms c by (auto simp: update_in_new_view_def update_loop_terminates oe_next_def max_def word_le_nat_alt word_unat_eq_iff
      simp del: of_nat_Suc)
qed

lemma drop_below_subset: "set (drop_below f c heap) \<subseteq> set heap"
  by (induction heap) auto

text \<open>Whatever happens, a message that is handed out waited or was pushed.\<close>

lemma oe_run_out:
  assumes "oe_run H steps oe = Some (out, oe')"
  shows "set out \<subseteq> set (oe_unprocessed oe) \<union> {m. OE_Push m \<in> set steps}"
  using assms
proof (induction steps arbitrary: oe out)
  case (Cons step steps)
  obtain out1 oe1 out2 where first: "(case step of
           OE_Push m \<Rightarrow> Some (push_to_handle H m oe)
         | OE_In_New_View c \<Rightarrow> map_option (Pair []) (update_in_new_view c oe)
         | OE_Finished_New_View v \<Rightarrow> Some ([], update_after_finished_new_view v oe)
         | OE_Recovered_Counter c \<Rightarrow> Some (update_after_recovered_counter H c oe)) = Some (out1, oe1)"
    and rest: "oe_run H steps oe1 = Some (out2, oe')" and out: "out = out1 @ out2"
    using Cons.prems by (auto split: bind_splits)
  have "set out1 \<union> set (oe_unprocessed oe1) \<subseteq> set (oe_unprocessed oe) \<union> {m. step = OE_Push m}"
  proof (cases step)
    case (OE_Push m)
    with first show ?thesis using push_to_handle_out [of H m oe out1 oe1] push_to_handle_heap [of H m oe out1 oe1] by auto
  next
    case (OE_In_New_View c)
    with first show ?thesis using update_in_new_view_heap(1) [of c oe oe1] by (auto dest: in_set_dropD)
  next
    case (OE_Finished_New_View v)
    with first show ?thesis by (auto simp: update_after_finished_new_view_def)
  next
    case (OE_Recovered_Counter c)
    with first show ?thesis
      using yield_out [of H _ out1 oe1] drop_below_subset [of "usig_message_counter H" c "oe_unprocessed oe"]
      by (auto simp: update_after_recovered_counter_def Let_def split: if_splits) fastforce+
  qed
  with Cons.IH [OF rest] out show ?case by auto
qed simp

text \<open>Without a message with counter \<open>c\<close>, only messages below \<open>c\<close> are handed out.\<close>

lemma yield_loop_stuck:
  assumes "yield_loop H k heap = (out, k', rest)" "unat (next_count k) \<le> c" "c \<le> u64_max" "\<forall>m \<in> set heap. ucnt H m \<noteq> c"
  shows "(\<forall>m \<in> set out. ucnt H m < c) \<and> unat (next_count k') \<le> c"
  using assms
proof (induction heap arbitrary: k out)
  case (Cons head heap)
  consider "ucnt H head < unat (next_count k)" | "ucnt H head = unat (next_count k)" | "unat (next_count k) < ucnt H head"
    by linarith
  then show ?case
  proof cases
    case 1
    with Cons show ?thesis by (simp add: count_checker_next_cases)
  next
    case 2
    then have less: "unat (next_count k) < c" using Cons.prems by auto
    then have n: "unat (next_count k + 1) = Suc (unat (next_count k))"
      using Cons.prems(3) unat_max_u64 by (intro unat_add_one) auto
    obtain out1 where y: "yield_loop H (k\<lparr>next_count := next_count k + 1\<rparr>) heap = (out1, k', rest)" "out = head # out1"
      using Cons.prems(1) 2 by (auto simp: count_checker_next_cases split: prod.splits)
    from Cons.IH [OF y(1)] Cons.prems n less y(2) 2 show ?thesis by auto
  next
    case 3
    with Cons.prems show ?thesis by (auto simp: count_checker_next_cases)
  qed
qed auto

lemma push_to_handle_stuck:
  assumes "push_to_handle H msg oe = (out, oe')" "oe_next oe \<le> c" "c \<le> u64_max"
    "\<forall>m \<in> insert msg (set (oe_unprocessed oe)). ucnt H m \<noteq> c"
  shows "(\<forall>m \<in> set out. ucnt H m < c) \<and> oe_next oe' \<le> c"
proof -
  consider "ucnt H msg < oe_next oe" | "ucnt H msg = oe_next oe" | "oe_next oe < ucnt H msg" by linarith
  then show ?thesis
  proof cases
    case 2
    then obtain out1 k rest where y: "yield_loop H (oe_count_checker (oe_advance msg oe)) (oe_unprocessed oe) = (out1, k, rest)"
      "out = msg # out1" "oe_count_checker oe' = k"
      using assms(1) by (auto simp: push_to_handle_next yield_to_be_processed_def oe_advance_sel split: prod.splits)
    have "oe_next (oe_advance msg oe) = Suc (oe_next oe)" "oe_next oe < c" using 2 assms by (auto intro!: oe_advance_sel)
    with yield_loop_stuck [OF y(1), of c] assms(3,4) y(2,3) 2 show ?thesis by (auto simp: oe_next_def)
  qed (use assms in \<open>auto simp: push_to_handle_old push_to_handle_early oe_next_def\<close>)
qed

lemma push_all_stuck:
  assumes "push_all H ms oe = (out, oe')" "oe_next oe \<le> c" "c \<le> u64_max"
    "\<forall>m \<in> set ms \<union> set (oe_unprocessed oe). ucnt H m \<noteq> c"
  shows "(\<forall>m \<in> set out. ucnt H m < c) \<and> oe_next oe' \<le> c"
  using assms
proof (induction ms arbitrary: oe out)
  case (Cons m ms)
  obtain out1 oe1 out2 where p: "push_to_handle H m oe = (out1, oe1)" "push_all H ms oe1 = (out2, oe')" "out = out1 @ out2"
    using Cons.prems(1) by (auto split: prod.splits)
  have first: "(\<forall>m \<in> set out1. ucnt H m < c) \<and> oe_next oe1 \<le> c"
    by (rule push_to_handle_stuck [OF p(1) Cons.prems(2,3)]) (use Cons.prems(4) in auto)
  have "\<forall>m \<in> set ms \<union> set (oe_unprocessed oe1). ucnt H m \<noteq> c"
    using push_to_handle_heap [OF p(1)] Cons.prems(4) by auto
  with Cons.IH [OF p(2)] first Cons.prems(3) p(3) show ?case by auto
qed auto

lemma in_set_drop_nth:
  assumes "x \<in> set (drop n xs)"
  shows "\<exists>j. n \<le> j \<and> j < length xs \<and> x = xs ! j"
proof -
  from assms obtain i where "i < length xs - n" "x = xs ! (n + i)" by (auto simp: in_set_conv_nth)
  then show ?thesis by (intro exI [of _ "n + i"]) auto
qed



end
