(* ===== verification/Collectors.thy ===== *)
theory Collectors
  imports Minbft_Validate
begin

text \<open>
  The collectors of \<^verbatim>\<open>minbft/src/peer_message_processor/collector/\<close>: the generic
  \<open>CollectorMessages\<close> with its instance for checkpoints, the collectors of ReqViewChanges, of
  ViewChanges, of Prepares and Commits, and of forwarded messages. What the users of the first three
  rely on, that the amount returned counts the different origins, is the locale \<open>vote_collector\<close>.
\<close>

section \<open>CollectorMessages\<close>

type_synonym ('k, 'm) collector_messages = "('k, (replica_id, 'm) hash_map) hash_map"

definition cm_new :: "('k, 'm) collector_messages" where
  "cm_new = []"

definition cm_collect ::
    "'m \<Rightarrow> replica_id \<Rightarrow> 'k \<Rightarrow> ('k, 'm) collector_messages \<Rightarrow> u64 \<times> ('k, 'm) collector_messages" where
  "cm_collect msg from key c =
     (case hm_get c key of
        Some messages \<Rightarrow>
          if hm_get messages from \<noteq> None then (of_nat (length messages), c)
          else (let messages = hm_insert from msg messages
                in (of_nat (length messages), hm_insert key messages c))
      | None \<Rightarrow>
          (let messages = hm_insert from msg []
           in (of_nat (length messages), hm_insert key messages c)))"

text \<open>\<open>gt\<close> is the order of the key type, by which entries with smaller or equal keys are discarded.\<close>

definition cm_retrieve ::
    "('k \<Rightarrow> 'k \<Rightarrow> bool) \<Rightarrow> 'k \<Rightarrow> config \<Rightarrow> ('k, 'm) collector_messages \<Rightarrow>
     ('m \<times> 'm list) option \<times> ('k, 'm) collector_messages" where
  "cm_retrieve gt key config c =
     (case hm_get c key of
        None \<Rightarrow> (None, c)
      | Some messages \<Rightarrow>
          if length messages \<le> unat (cfg_t config) then (None, c)
          else if \<not> hm_contains messages (cfg_id config) then (None, c)
          else
            (let c = hm_remove key c;
                 my_retrieved_message = hm_get messages (cfg_id config);
                 other_retrieved_messages = map snd (filter (\<lambda>(rep_id, msg). rep_id \<noteq> cfg_id config) messages);
                 c = hm_retain (\<lambda>n _. gt n key) c
             in (case my_retrieved_message of
                   None \<Rightarrow> (None, c)
                 | Some mine \<Rightarrow> (Some (mine, other_retrieved_messages), c))))"

section \<open>Checkpoints\<close>

record key_checkpoints =
  kc_state_hash :: bytes
  kc_total_amount_accepted_batches :: u64
  kc_counter_latest_prep :: count
  kc_view_latest_prep :: view

definition key_checkpoints_gt :: "key_checkpoints \<Rightarrow> key_checkpoints \<Rightarrow> bool" where
  "key_checkpoints_gt a b \<longleftrightarrow> kc_total_amount_accepted_batches a > kc_total_amount_accepted_batches b"

definition checkpoint_key :: "('sig, 'att) checkpoint \<Rightarrow> key_checkpoints" where
  "checkpoint_key m = \<lparr>kc_state_hash = cp_state_hash (us_data m),
     kc_total_amount_accepted_batches = cp_total_amount_accepted_batches (us_data m),
     kc_counter_latest_prep = cp_counter_latest_prep (us_data m),
     kc_view_latest_prep = cp_view_latest_prep (us_data m)\<rparr>"

type_synonym ('sig, 'att) collector_checkpoints = "(key_checkpoints, ('sig, 'att) checkpoint) collector_messages"

definition collect_checkpoint ::
    "('sig, 'att) checkpoint \<Rightarrow> ('sig, 'att) collector_checkpoints \<Rightarrow> u64 \<times> ('sig, 'att) collector_checkpoints" where
  "collect_checkpoint msg c = cm_collect msg (cp_origin (us_data msg)) (checkpoint_key msg) c"

definition retrieve_collected_checkpoints ::
    "('sig, 'att) checkpoint \<Rightarrow> config \<Rightarrow> ('sig, 'att) collector_checkpoints \<Rightarrow>
     ('sig, 'att) checkpoint_certificate option \<times> ('sig, 'att) collector_checkpoints" where
  "retrieve_collected_checkpoints msg config c =
     (case cm_retrieve key_checkpoints_gt (checkpoint_key msg) config c of
        (None, c') \<Rightarrow> (None, c')
      | (Some (mine, others), c') \<Rightarrow> (Some \<lparr>my_checkpoint = mine, other_checkpoints = others\<rparr>, c'))"

section \<open>ReqViewChanges\<close>

record key_rvc =
  krvc_prev_view :: view
  krvc_next_view :: view

definition key_rvc_gt :: "key_rvc \<Rightarrow> key_rvc \<Rightarrow> bool" where
  "key_rvc_gt a b \<longleftrightarrow> krvc_prev_view b < krvc_prev_view a \<or>
     krvc_prev_view a = krvc_prev_view b \<and> krvc_next_view b < krvc_next_view a"

type_synonym collector_req_view_changes = "(key_rvc, replica_id hash_set) hash_map"

definition rvc_collector_new :: collector_req_view_changes where
  "rvc_collector_new = []"

definition rvc_key :: "req_view_change \<Rightarrow> key_rvc" where
  "rvc_key msg = \<lparr>krvc_prev_view = rvc_prev_view msg, krvc_next_view = rvc_next_view msg\<rparr>"

definition rvc_collect ::
    "req_view_change \<Rightarrow> replica_id \<Rightarrow> collector_req_view_changes \<Rightarrow> u64 \<times> collector_req_view_changes" where
  "rvc_collect msg from c =
     (let key = rvc_key msg;
          collected_rvc = (case hm_get c key of
              Some collected_rvc \<Rightarrow> hs_insert from collected_rvc
            | None \<Rightarrow> hs_insert from []);
          c = hm_insert key collected_rvc c
      in (of_nat (length collected_rvc), c))"

definition rvc_clean_up :: "view \<Rightarrow> view \<Rightarrow> collector_req_view_changes \<Rightarrow> collector_req_view_changes" where
  "rvc_clean_up prev_view next_view c =
     hm_retain (\<lambda>k _. key_rvc_gt k \<lparr>krvc_prev_view = prev_view, krvc_next_view = next_view\<rparr>) c"

section \<open>ViewChanges\<close>

type_synonym ('p, 'sig, 'att) collector_view_changes =
  "(view, (replica_id, ('p, 'sig, 'att) view_change) hash_map) hash_map"

definition vc_collector_new :: "('p, 'sig, 'att) collector_view_changes" where
  "vc_collector_new = []"

definition collect_view_change ::
    "('p, 'sig, 'att) view_change \<Rightarrow> ('p, 'sig, 'att) collector_view_changes \<Rightarrow>
     u64 \<times> ('p, 'sig, 'att) collector_view_changes" where
  "collect_view_change msg c =
     (let from = vc_origin (us_data msg);
          next_view = vc_next_view (us_data msg);
          messages = (case hm_get c next_view of None \<Rightarrow> [] | Some messages \<Rightarrow> messages)
      in if hm_get messages from \<noteq> None then (of_nat (length messages), hm_insert next_view messages c)
         else (let messages = hm_insert from msg messages
               in (of_nat (length messages), hm_insert next_view messages c)))"

definition retrieve_collected_view_changes ::
    "('p, 'sig, 'att) view_change \<Rightarrow> config \<Rightarrow> ('p, 'sig, 'att) collector_view_changes \<Rightarrow>
     ('p, 'sig, 'att) view_change list option \<times> ('p, 'sig, 'att) collector_view_changes" where
  "retrieve_collected_view_changes msg config c =
     (case hm_get c (vc_next_view (us_data msg)) of
        None \<Rightarrow> (None, c)
      | Some messages \<Rightarrow>
          if length messages \<le> unat (cfg_t config) then (None, c)
          else (Some (hm_values messages), hm_remove (vc_next_view (us_data msg)) c))"

section \<open>Prepares and Commits\<close>

record ('p, 'sig, 'att) collector_commits =
  recv_commits :: "(count, replica_id hash_set) hash_map"
  recv_commit_msgs :: "(count, ('p, 'sig, 'att) usig_message list) hash_map"
  prepares :: "(count, ('p, 'sig, 'att) prepare) btree_map"

definition collector_commits_new :: "('p, 'sig, 'att) collector_commits" where
  "collector_commits_new = \<lparr>recv_commits = [], recv_commit_msgs = [], prepares = []\<rparr>"

text \<open>The first part of \<open>collect\<close>, which is the same for a Prepare and for a Commit.\<close>

definition note_commit ::
    "count \<Rightarrow> replica_id \<Rightarrow> ('p, 'sig, 'att) view_peer_message \<Rightarrow> ('p, 'sig, 'att) prepare \<Rightarrow>
     ('p, 'sig, 'att) collector_commits \<Rightarrow> ('p, 'sig, 'att) collector_commits option" where
  "note_commit counter origin msg prepare c =
     do {
       c \<leftarrow> (case hm_get (recv_commits c) counter of
           Some collected_commit_origins \<Rightarrow> do {
             let recv = hm_insert counter (hs_insert origin collected_commit_origins) (recv_commits c);
             msgs \<leftarrow> hm_get (recv_commit_msgs c) counter;
             Some (c\<lparr>recv_commits := recv,
                     recv_commit_msgs := hm_insert counter (msgs @ [UM_View msg]) (recv_commit_msgs c)\<rparr>)
           }
         | None \<Rightarrow>
             Some (c\<lparr>recv_commits := hm_insert counter (hs_insert origin []) (recv_commits c),
                     recv_commit_msgs := hm_insert counter [UM_View msg] (recv_commit_msgs c)\<rparr>));
       Some (c\<lparr>prepares := bt_insert counter prepare (prepares c)\<rparr>)
     }"

fun accept_prepares ::
    "config \<Rightarrow> (count, ('p, 'sig, 'att) prepare) btree_map \<Rightarrow> ('p, 'sig, 'att) collector_commits \<Rightarrow>
     ((('p, 'sig, 'att) prepare \<times> ('p, 'sig, 'att) usig_message list) list \<times> ('p, 'sig, 'att) collector_commits) option" where
  "accept_prepares config [] c = Some ([], c\<lparr>prepares := []\<rparr>)"
| "accept_prepares config ((key, prepare) # rest) c =
     do {
       commits \<leftarrow> hm_get (recv_commits c) key;
       if length commits \<le> unat (cfg_t config)
       then Some ([], c\<lparr>prepares := (key, prepare) # rest\<rparr>)
       else do {
         commit_msgs \<leftarrow> hm_get (recv_commit_msgs c) key;
         (accepted, c) \<leftarrow> accept_prepares config rest
           (c\<lparr>recv_commits := hm_remove key (recv_commits c),
              recv_commit_msgs := hm_remove key (recv_commit_msgs c)\<rparr>);
         Some ((prepare, commit_msgs) # accepted, c)
       }
     }"

definition collect_commit ::
    "('p, 'u, 'sig, 'att, 'z) crypto_scheme \<Rightarrow> ('p, 'sig, 'att) view_peer_message \<Rightarrow> config \<Rightarrow>
     ('p, 'sig, 'att) collector_commits \<Rightarrow>
     ((('p, 'sig, 'att) prepare \<times> ('p, 'sig, 'att) usig_message list) list \<times> ('p, 'sig, 'att) collector_commits) option" where
  "collect_commit H msg config c =
     do {
       c \<leftarrow> (case msg of
           VP_Prepare prepare \<Rightarrow> note_commit (signed_counter H prepare) (prepare_origin prepare) msg prepare c
         | VP_Commit commit \<Rightarrow>
             note_commit (signed_counter H (commit_prepare commit)) (commit_origin commit) msg (commit_prepare commit) c);
       accept_prepares config (prepares c) c
     }"

section \<open>Forwarded messages\<close>

record ('p, 'sig, 'att) collector_forwards =
  recv_forwards :: "(count \<times> ('p, 'sig, 'att) usig_message list) option list option list"

definition collector_forwards_new :: "config \<Rightarrow> ('p, 'sig, 'att) collector_forwards option" where
  "collector_forwards_new config =
     (let n = unat (cfg_n config); recv = replicate n (Some (replicate n None))
      in if unat (cfg_id config) < n
         then Some \<lparr>recv_forwards = recv[unat (cfg_id config) := None]\<rparr>
         else None)"

text \<open>
  The votes of one row: how often each counter was forwarded, with the pending messages of the last
  forwarder of that counter.
\<close>

fun tally_forwards ::
    "(count \<times> 'm list) option list \<Rightarrow> (count, u64) hash_map \<Rightarrow> (count, 'm list) hash_map \<Rightarrow>
     (count, u64) hash_map \<times> (count, 'm list) hash_map" where
  "tally_forwards [] h nv = (h, nv)"
| "tally_forwards (None # counts) h nv = tally_forwards counts h nv"
| "tally_forwards (Some (counter, new_view) # counts) h nv =
     tally_forwards counts
       (hm_insert counter ((case hm_get h counter of None \<Rightarrow> 0 | Some k \<Rightarrow> k) + 1) h)
       (hm_insert counter new_view nv)"

definition row_quorums :: "config \<Rightarrow> nat \<Rightarrow> (count \<times> 'm list) option list option \<Rightarrow> (replica_id \<times> count \<times> 'm list) list" where
  "row_quorums config replica entry =
     (case entry of
        None \<Rightarrow> []
      | Some counts \<Rightarrow>
          (case tally_forwards counts [] [] of
             (h, nv) \<Rightarrow>
               map (\<lambda>(counter, k). (of_nat replica, counter, case hm_get nv counter of None \<Rightarrow> [] | Some ms \<Rightarrow> ms))
                 (filter (\<lambda>(counter, k). cfg_t config < k) h)))"

definition collect_forward ::
    "('p, 'u, 'sig, 'att, 'z) crypto_scheme \<Rightarrow> replica_id \<Rightarrow> ('p, 'sig, 'att) view_peer_message \<Rightarrow>
     ('p, 'sig, 'att) usig_message list \<Rightarrow> config \<Rightarrow> ('p, 'sig, 'att) collector_forwards \<Rightarrow>
     ((replica_id \<times> count \<times> ('p, 'sig, 'att) usig_message list) list \<times> ('p, 'sig, 'att) collector_forwards) option" where
  "collect_forward H forwarder msg pending_new_views config c =
     do {
       let original_sender = unat (view_peer_origin msg);
       rows \<leftarrow> (case index_vec (recv_forwards c) original_sender of
           Some (Some received) \<Rightarrow>
             if unat forwarder < length received
             then Some ((recv_forwards c)[original_sender :=
                    Some (received[unat forwarder := Some (view_peer_counter H msg, pending_new_views)])])
             else None
         | _ \<Rightarrow> Some (recv_forwards c));
       let vec = concat (map (\<lambda>(replica, entry). row_quorums config replica entry) (zip [0..<length rows] rows));
       let rows = fold (\<lambda>(replica, _) rows. rows[unat replica := None]) vec rows;
       Some (vec, c\<lparr>recv_forwards := rows\<rparr>)
     }"

section \<open>What the users of a collector rely on\<close>

locale vote_collector =
  fixes invar :: "'c \<Rightarrow> bool"
    and voters :: "'c \<Rightarrow> 'k \<Rightarrow> replica_id set"
    and empty :: 'c
    and key :: "'m \<Rightarrow> 'k"
    and origin :: "'m \<Rightarrow> replica_id"
    and collect :: "'m \<Rightarrow> 'c \<Rightarrow> u64 \<times> 'c"
  assumes invar_empty: "invar empty"
    and voters_empty: "voters empty k = {}"
    and invar_collect: "invar c \<Longrightarrow> collect m c = (a, c') \<Longrightarrow> invar c'"
    and voters_collect: "invar c \<Longrightarrow> collect m c = (a, c') \<Longrightarrow>
        voters c' = (voters c)(key m := insert (origin m) (voters c (key m)))"
    and amount_collect: "invar c \<Longrightarrow> collect m c = (a, c') \<Longrightarrow> a = of_nat (card (voters c' (key m)))"
begin

fun collect_all :: "'m list \<Rightarrow> 'c \<Rightarrow> 'c" where
  "collect_all [] c = c"
| "collect_all (m # ms) c = collect_all ms (snd (collect m c))"

lemma collect_all_voters:
  "invar c \<Longrightarrow> invar (collect_all ms c) \<and> voters (collect_all ms c) k = voters c k \<union> {origin m | m. m \<in> set ms \<and> key m = k}"
proof (induction ms arbitrary: c)
  case Nil
  then show ?case by simp
next
  case (Cons m ms)
  obtain a c' where x: "collect m c = (a, c')" by fastforce
  have "voters c' k = (if k = key m then insert (origin m) (voters c k) else voters c k)"
    using voters_collect [OF Cons.prems x] by simp
  with Cons.IH [OF invar_collect [OF Cons.prems x]] x show ?case by auto
qed

lemma quorum_vote:
  assumes "invar c" "collect m c = (a, c')" "(t :: u64) < a" "finite F" "card F \<le> unat t"
  shows "\<exists>q \<in> voters c' (key m). q \<notin> F"
proof (rule ccontr)
  assume "\<not> ?thesis"
  then have "card (voters c' (key m)) \<le> card F" using assms(4) by (intro card_mono) auto
  moreover have "unat a \<le> card (voters c' (key m))"
    using amount_collect [OF assms(1,2)] by (simp add: unat_of_nat)
  moreover have "unat t < unat a" using assms(3) by (simp add: word_less_nat_alt)
  ultimately show False using assms(5) by simp
qed

lemma quorum_from_empty:
  assumes "collect m (collect_all ms empty) = (a, c')" "(t :: u64) < a" "finite F" "card F \<le> unat t"
  shows "\<exists>m'. m' \<in> set (m # ms) \<and> key m' = key m \<and> origin m' \<notin> F"
proof -
  note inv = collect_all_voters [OF invar_empty, of ms]
  obtain q where q: "q \<in> voters c' (key m)" "q \<notin> F"
    using quorum_vote [OF _ assms] inv by blast
  have "voters c' (key m) = insert (origin m) {origin m' | m'. m' \<in> set ms \<and> key m' = key m}"
    using voters_collect [OF _ assms(1)] inv by (simp add: voters_empty)
  with q show ?thesis by auto
qed

end

definition hm_voters :: "('k, (replica_id, 'm) hash_map) hash_map \<Rightarrow> 'k \<Rightarrow> replica_id set" where
  "hm_voters c k = (case hm_get c k of None \<Rightarrow> {} | Some messages \<Rightarrow> set (hm_keys messages))"

definition hm_collector_wf :: "('k, (replica_id, 'm) hash_map) hash_map \<Rightarrow> bool" where
  "hm_collector_wf c \<longleftrightarrow> hm_wf c \<and> (\<forall>k messages. hm_get c k = Some messages \<longrightarrow> hm_wf messages)"

lemma hm_collector_wf_update:
  "hm_collector_wf c \<Longrightarrow> hm_wf messages \<Longrightarrow> hm_collector_wf (hm_insert k messages c)"
  by (auto simp: hm_collector_wf_def split: if_splits)

lemma hm_collector_wf_get: "hm_collector_wf c \<Longrightarrow> hm_get c k = Some messages \<Longrightarrow> hm_wf messages"
  by (simp add: hm_collector_wf_def)

lemma hm_voters_update:
  "hm_voters (hm_insert k messages c) = (hm_voters c)(k := set (hm_keys messages))"
  by (auto simp: hm_voters_def fun_eq_iff)

lemma hm_key_known: "hm_get m r \<noteq> None \<longleftrightarrow> r \<in> set (hm_keys m)"
  by (simp add: map_of_eq_None_iff)

lemma hm_vote:
  assumes "hm_wf ms" "ms' = (if hm_get ms r \<noteq> None then ms else hm_insert r m ms)"
  shows "hm_wf ms' \<and> set (hm_keys ms') = insert r (set (hm_keys ms)) \<and> length ms' = card (insert r (set (hm_keys ms)))"
proof -
  have "set (hm_keys ms') = insert r (set (hm_keys ms))"
    using assms(2) hm_key_known [of ms r] by (auto simp: hm_keys_insert simp del: set_map)
  moreover have "hm_wf ms'" using assms by simp
  moreover from this have "length ms' = card (set (hm_keys ms'))" by (simp only: hm_card_keys)
  ultimately show ?thesis by (simp only:)
qed

text \<open>Both map-based collectors record a vote in the messages of its key.\<close>

lemma collector_vote:
  assumes "hm_collector_wf c" "ms = (case hm_get c k of None \<Rightarrow> [] | Some messages \<Rightarrow> messages)"
    "ms' = (if hm_get ms r \<noteq> None then ms else hm_insert r m ms)"
    "c' = hm_insert k ms' c \<or> (c' = c \<and> hm_get c k = Some ms')" "a = of_nat (length ms')"
  shows "hm_collector_wf c' \<and> hm_voters c' = (hm_voters c)(k := insert r (hm_voters c k)) \<and>
    a = of_nat (card (hm_voters c' k))"
proof -
  have wf: "hm_wf ms" using assms(1,2) by (auto split: option.splits dest: hm_collector_wf_get)
  have old: "hm_voters c k = set (hm_keys ms)" using assms(2) by (auto simp: hm_voters_def split: option.splits)
  note vote = hm_vote [OF wf assms(3)]
  have new: "hm_voters c' = (hm_voters c)(k := insert r (hm_voters c k))"
    using assms(4) vote old by (auto simp: hm_voters_update hm_voters_def fun_eq_iff simp del: set_map)
  moreover have "hm_collector_wf c'" using assms(1,4) vote by (auto intro: hm_collector_wf_update)
  ultimately show ?thesis using vote old assms(5) by (simp del: set_map)
qed

lemma cm_collect_spec:
  assumes "hm_collector_wf c" "cm_collect m r k c = (a, c')"
  shows "hm_collector_wf c' \<and> hm_voters c' = (hm_voters c)(k := insert r (hm_voters c k)) \<and>
    a = of_nat (card (hm_voters c' k))"
  by (rule collector_vote [OF assms(1) refl refl])
    (use assms(2) in \<open>auto simp: cm_collect_def Let_def split: option.splits if_splits\<close>)

lemma collect_view_change_spec:
  assumes "hm_collector_wf c" "collect_view_change m c = (a, c')"
  shows "hm_collector_wf c' \<and>
    hm_voters c' = (hm_voters c)(vc_next_view (us_data m) := insert (vc_origin (us_data m)) (hm_voters c (vc_next_view (us_data m)))) \<and>
    a = of_nat (card (hm_voters c' (vc_next_view (us_data m))))"
  by (rule collector_vote [OF assms(1) refl refl])
    (use assms(2) in \<open>auto simp: collect_view_change_def Let_def split: option.splits if_splits\<close>)

interpretation checkpoint_votes: vote_collector hm_collector_wf hm_voters cm_new checkpoint_key
    "\<lambda>m. cp_origin (us_data m)" collect_checkpoint
proof (unfold_locales, goal_cases)
  case (3 c m a c')
  then show ?case unfolding collect_checkpoint_def by (blast dest: cm_collect_spec)
next
  case (4 c m a c')
  then show ?case unfolding collect_checkpoint_def by (blast dest: cm_collect_spec)
next
  case (5 c m a c')
  then show ?case unfolding collect_checkpoint_def by (blast dest: cm_collect_spec)
qed (simp_all add: cm_new_def hm_collector_wf_def hm_voters_def)

interpretation view_change_votes: vote_collector hm_collector_wf hm_voters vc_collector_new
    "\<lambda>m. vc_next_view (us_data m)" "\<lambda>m. vc_origin (us_data m)" collect_view_change
proof (unfold_locales, goal_cases)
  case (3 c m a c')
  then show ?case by (blast dest: collect_view_change_spec)
next
  case (4 c m a c')
  then show ?case by (blast dest: collect_view_change_spec)
next
  case (5 c m a c')
  then show ?case by (blast dest: collect_view_change_spec)
qed (simp_all add: vc_collector_new_def hm_collector_wf_def hm_voters_def)

definition rvc_voters :: "collector_req_view_changes \<Rightarrow> key_rvc \<Rightarrow> replica_id set" where
  "rvc_voters c k = (case hm_get c k of None \<Rightarrow> {} | Some s \<Rightarrow> set s)"

definition rvc_wf :: "collector_req_view_changes \<Rightarrow> bool" where
  "rvc_wf c \<longleftrightarrow> hm_wf c \<and> (\<forall>k s. hm_get c k = Some s \<longrightarrow> distinct s)"

interpretation rvc_votes: vote_collector rvc_wf rvc_voters rvc_collector_new "\<lambda>(m, r). rvc_key m" "\<lambda>(m, r). r"
    "\<lambda>(m, r). rvc_collect m r"
proof (unfold_locales, goal_cases)
  case (3 c m a c')
  then show ?case
    by (auto simp: rvc_collect_def Let_def rvc_wf_def split: option.splits if_splits prod.splits)
next
  case (4 c m a c')
  then show ?case
    by (auto simp: rvc_collect_def Let_def rvc_voters_def fun_eq_iff split: option.splits prod.splits)
next
  case (5 c m a c')
  then show ?case
    by (auto simp: rvc_collect_def Let_def rvc_voters_def rvc_wf_def distinct_card
        simp del: List.set_insert split: option.splits prod.splits)
qed (auto simp: rvc_collector_new_def rvc_wf_def rvc_voters_def)

section \<open>The collector of Commits\<close>

fun vp_prepare :: "('p, 'sig, 'att) view_peer_message \<Rightarrow> ('p, 'sig, 'att) prepare" where
  "vp_prepare (VP_Prepare p) = p"
| "vp_prepare (VP_Commit c) = commit_prepare c"

definition backed_by ::
    "('p, 'u, 'sig, 'att, 'z) crypto_scheme \<Rightarrow> count \<Rightarrow> ('p, 'sig, 'att) usig_message list \<Rightarrow> bool" where
  "backed_by H k ms \<longleftrightarrow> (\<forall>m \<in> set ms. \<exists>v. m = UM_View v \<and> signed_counter H (vp_prepare v) = k)"

text \<open>
  The three maps of the collector have the same keys; under a key are the origins of the messages
  collected for it and a Prepare with that counter that one of these messages carries.
\<close>

definition cc_entry ::
    "('p, 'u, 'sig, 'att, 'z) crypto_scheme \<Rightarrow> count \<Rightarrow> replica_id hash_set \<Rightarrow>
     ('p, 'sig, 'att) usig_message list option \<Rightarrow> ('p, 'sig, 'att) prepare option \<Rightarrow> bool" where
  "cc_entry H k os mo po \<longleftrightarrow> distinct os \<and>
     (\<exists>ms v. mo = Some ms \<and> set os = usig_message_origin ` set ms \<and> backed_by H k ms \<and>
       UM_View v \<in> set ms \<and> po = Some (vp_prepare v))"

definition cc_ok ::
    "('p, 'u, 'sig, 'att, 'z) crypto_scheme \<Rightarrow> (count, ('p, 'sig, 'att) prepare) btree_map \<Rightarrow>
     (count, replica_id hash_set) hash_map \<Rightarrow> (count, ('p, 'sig, 'att) usig_message list) hash_map \<Rightarrow> bool" where
  "cc_ok H ps recv msgs \<longleftrightarrow> sorted_wrt (<) (map fst ps) \<and> hm_wf recv \<and> hm_wf msgs \<and>
     set (hm_keys ps) = set (hm_keys recv) \<and>
     (\<forall>k os. hm_get recv k = Some os \<longrightarrow> cc_entry H k os (hm_get msgs k) (hm_get ps k))"

abbreviation cc_inv :: "('p, 'u, 'sig, 'att, 'z) crypto_scheme \<Rightarrow> ('p, 'sig, 'att) collector_commits \<Rightarrow> bool" where
  "cc_inv H c \<equiv> cc_ok H (prepares c) (recv_commits c) (recv_commit_msgs c)"

lemma cc_inv_new: "cc_inv H collector_commits_new"
  by (simp add: collector_commits_new_def cc_ok_def)

lemma bt_insert_keys: "set (map fst (bt_insert k v m)) = insert k (set (map fst m))"
  by (induction m rule: bt_insert.induct [of _ k v]) auto

lemma bt_insert_sorted: "sorted_wrt (<) (map fst m) \<Longrightarrow> sorted_wrt (<) (map fst (bt_insert k v m))"
proof (induction m)
  case (Cons x m)
  obtain k' v' where x: "x = (k', v')" by (cases x)
  have "\<forall>y \<in> set (map fst (bt_insert k v m)). k' < y" if "k' < k"
    using that Cons.prems bt_insert_keys [of k v m] by (auto simp: x)
  with Cons show ?case by (auto simp: x)
qed simp

lemma bt_insert_get: "map_of (bt_insert k v m) = (map_of m)(k \<mapsto> v)" if "sorted_wrt (<) (map fst m)"
  using that
proof (induction m)
  case (Cons x m)
  obtain k' v' where x: "x = (k', v')" by (cases x)
  have "map_of m k = None" if "k < k'" using that Cons.prems by (auto simp: x map_of_eq_None_iff)
  with Cons show ?case by (auto simp: x fun_eq_iff)
qed simp

lemma note_commit_eq:
  assumes "cc_inv H c" "signed_counter H p = k" "vp_prepare v = p" "view_peer_origin v = r"
  shows "\<exists>os ms. note_commit k r v p c = Some (c\<lparr>recv_commits := hm_insert k os (recv_commits c),
    recv_commit_msgs := hm_insert k ms (recv_commit_msgs c), prepares := bt_insert k p (prepares c)\<rparr>) \<and>
    cc_entry H k os (Some ms) (Some p)"
proof (cases "hm_get (recv_commits c) k")
  case None
  have "cc_entry H k (hs_insert r []) (Some [UM_View v]) (Some p)"
    using assms(2-4) by (simp add: backed_by_def cc_entry_def)
  with None show ?thesis by (intro exI [of _ "hs_insert r []"] exI [of _ "[UM_View v]"]) (simp add: note_commit_def)
next
  case (Some os)
  with assms(1) have "cc_entry H k os (hm_get (recv_commit_msgs c) k) (hm_get (prepares c) k)"
    unfolding cc_ok_def by blast
  then obtain ms where ms: "distinct os" "hm_get (recv_commit_msgs c) k = Some ms"
    "set os = usig_message_origin ` set ms" "backed_by H k ms" by (auto simp: cc_entry_def)
  have "cc_entry H k (hs_insert r os) (Some (ms @ [UM_View v])) (Some p)"
    using ms assms(2-4) by (auto simp: backed_by_def cc_entry_def)
  with Some ms(2) show ?thesis
    by (intro exI [of _ "hs_insert r os"] exI [of _ "ms @ [UM_View v]"]) (simp add: note_commit_def Let_def)
qed

lemma cc_ok_insert:
  assumes "cc_ok H ps recv msgs" "cc_entry H k os (Some ms) (Some p)"
  shows "cc_ok H (bt_insert k p ps) (hm_insert k os recv) (hm_insert k ms msgs)"
  unfolding cc_ok_def
proof (intro conjI allI impI)
  have sorted: "sorted_wrt (<) (map fst ps)" using assms(1) by (simp add: cc_ok_def)
  then show "sorted_wrt (<) (hm_keys (bt_insert k p ps))" by (rule bt_insert_sorted)
  have keys: "set (hm_keys ps) = set (hm_keys recv)" using assms(1) by (simp add: cc_ok_def)
  show "set (hm_keys (bt_insert k p ps)) = set (hm_keys (hm_insert k os recv))"
    unfolding bt_insert_keys hm_keys_insert keys ..
  show "hm_wf (hm_insert k os recv)" "hm_wf (hm_insert k ms msgs)"
    using assms(1) by (simp_all add: cc_ok_def)
  fix k' os'
  assume get: "hm_get (hm_insert k os recv) k' = Some os'"
  show "cc_entry H k' os' (hm_get (hm_insert k ms msgs) k') (hm_get (bt_insert k p ps) k')"
  proof (cases "k' = k")
    case True
    with get assms(2) show ?thesis by (simp add: bt_insert_get [OF sorted])
  next
    case False
    with get have "hm_get recv k' = Some os'" by simp
    with assms(1) have "cc_entry H k' os' (hm_get msgs k') (hm_get ps k')" unfolding cc_ok_def by blast
    with False show ?thesis by (simp add: bt_insert_get [OF sorted])
  qed
qed

lemma note_commit_ok:
  assumes "cc_inv H c" "signed_counter H p = k" "vp_prepare v = p" "view_peer_origin v = r"
  shows "\<exists>c'. note_commit k r v p c = Some c' \<and> cc_inv H c'"
proof -
  obtain os ms where n: "note_commit k r v p c = Some (c\<lparr>recv_commits := hm_insert k os (recv_commits c),
      recv_commit_msgs := hm_insert k ms (recv_commit_msgs c), prepares := bt_insert k p (prepares c)\<rparr>)"
    and entry: "cc_entry H k os (Some ms) (Some p)"
    using note_commit_eq [OF assms] by blast
  from cc_ok_insert [OF assms(1) entry] n show ?thesis by simp
qed

lemma cc_ok_remove_first:
  assumes "cc_ok H ((k, p) # ps) recv msgs"
  shows "cc_ok H ps (hm_remove k recv) (hm_remove k msgs)"
  unfolding cc_ok_def
proof (intro conjI allI impI)
  have k: "k \<notin> set (hm_keys ps)" and keys: "set (hm_keys ((k, p) # ps)) = set (hm_keys recv)"
    using assms by (auto simp: cc_ok_def)
  have "set (hm_keys (hm_remove k recv)) = set (hm_keys recv) - {k}"
    by (simp add: delete_keys del: set_map)
  also have "\<dots> = set (hm_keys ps)" using k keys by auto
  finally show "set (hm_keys ps) = set (hm_keys (hm_remove k recv))" ..
next
  fix k' os
  assume "hm_get (hm_remove k recv) k' = Some os"
  then have ne: "k' \<noteq> k" and get: "hm_get recv k' = Some os" by (auto split: if_splits)
  from assms get have "cc_entry H k' os (hm_get msgs k') (hm_get ((k, p) # ps) k')"
    unfolding cc_ok_def by blast
  with ne show "cc_entry H k' os (hm_get (hm_remove k msgs) k') (hm_get ps k')" by simp
qed (use assms in \<open>simp_all add: cc_ok_def\<close>)

text \<open>A Prepare is accepted with the messages collected for it, from more than \<open>t\<close> different origins.\<close>

definition quorum_backed ::
    "('p, 'u, 'sig, 'att, 'z) crypto_scheme \<Rightarrow> config \<Rightarrow> ('p, 'sig, 'att) prepare \<times> ('p, 'sig, 'att) usig_message list \<Rightarrow> bool" where
  "quorum_backed H config a \<longleftrightarrow> unat (cfg_t config) < card (usig_message_origin ` set (snd a)) \<and>
     backed_by H (signed_counter H (fst a)) (snd a)"

text \<open>The Prepare with the least counter that is left does not have enough Commits yet.\<close>

definition waits_for_commits :: "config \<Rightarrow> ('p, 'sig, 'att) collector_commits \<Rightarrow> bool" where
  "waits_for_commits config c \<longleftrightarrow> (case prepares c of [] \<Rightarrow> True
     | (k, p) # _ \<Rightarrow> (case hm_get (recv_commits c) k of None \<Rightarrow> False | Some os \<Rightarrow> length os \<le> unat (cfg_t config)))"

definition accepts_prefix ::
    "('p, 'u, 'sig, 'att, 'z) crypto_scheme \<Rightarrow> config \<Rightarrow> (count, ('p, 'sig, 'att) prepare) btree_map \<Rightarrow>
     (('p, 'sig, 'att) prepare \<times> ('p, 'sig, 'att) usig_message list) list \<Rightarrow> ('p, 'sig, 'att) collector_commits \<Rightarrow> bool" where
  "accepts_prefix H config ps acc c' \<longleftrightarrow> cc_inv H c' \<and> map snd ps = map fst acc @ map snd (prepares c') \<and>
     list_all (quorum_backed H config) acc \<and> waits_for_commits config c'"

lemma accept_prepares_ok:
  assumes "cc_ok H ps (recv_commits c) (recv_commit_msgs c)"
  shows "\<exists>acc c'. accept_prepares config ps c = Some (acc, c') \<and> accepts_prefix H config ps acc c'"
  using assms
proof (induction ps arbitrary: c)
  case Nil
  then show ?case by (simp add: accepts_prefix_def waits_for_commits_def)
next
  case (Cons x ps)
  obtain k p where x: "x = (k, p)" by (cases x)
  have "k \<in> set (hm_keys (x # ps))" by (simp add: x)
  also have "\<dots> = set (hm_keys (recv_commits c))" using Cons.prems unfolding cc_ok_def by blast
  finally have "hm_get (recv_commits c) k \<noteq> None" unfolding hm_key_known .
  then obtain os where os: "hm_get (recv_commits c) k = Some os" by blast
  with Cons.prems have "cc_entry H k os (hm_get (recv_commit_msgs c) k) (hm_get ((k, p) # ps) k)"
    unfolding cc_ok_def x by blast
  then obtain ms v where ms: "distinct os" "hm_get (recv_commit_msgs c) k = Some ms"
    "set os = usig_message_origin ` set ms" "backed_by H k ms" "UM_View v \<in> set ms" "p = vp_prepare v"
    by (auto simp: cc_entry_def)
  show ?case
  proof (cases "length os \<le> unat (cfg_t config)")
    case True
    with os have "accept_prepares config (x # ps) c = Some ([], c\<lparr>prepares := x # ps\<rparr>)" by (simp add: x)
    moreover have "accepts_prefix H config (x # ps) [] (c\<lparr>prepares := x # ps\<rparr>)"
      using Cons.prems os True by (simp add: accepts_prefix_def waits_for_commits_def x)
    ultimately show ?thesis by blast
  next
    case False
    let ?c = "c\<lparr>recv_commits := hm_remove k (recv_commits c), recv_commit_msgs := hm_remove k (recv_commit_msgs c)\<rparr>"
    have "cc_ok H ps (recv_commits ?c) (recv_commit_msgs ?c)"
      using cc_ok_remove_first [OF Cons.prems [unfolded x]] by simp
    from Cons.IH [OF this] obtain acc c' where IH: "accept_prepares config ps ?c = Some (acc, c')"
      "accepts_prefix H config ps acc c'" by blast
    have "signed_counter H p = k" using ms(4-6) by (auto simp: backed_by_def)
    moreover have "unat (cfg_t config) < card (usig_message_origin ` set ms)"
      using False distinct_card [OF ms(1)] ms(3) by simp
    ultimately have "quorum_backed H config (p, ms)" using ms(4) by (simp add: quorum_backed_def)
    with IH(2) have "accepts_prefix H config (x # ps) ((p, ms) # acc) c'" by (simp add: accepts_prefix_def x)
    moreover have "accept_prepares config (x # ps) c = Some ((p, ms) # acc, c')"
      using False os ms(2) IH(1) by (simp add: x)
    ultimately show ?thesis by blast
  qed
qed

lemma collect_commit_ok:
  assumes "cc_inv H c"
  shows "\<exists>c1 acc c'. collect_commit H msg config c = Some (acc, c') \<and> cc_inv H c1 \<and>
    note_commit (signed_counter H (vp_prepare msg)) (view_peer_origin msg) msg (vp_prepare msg) c = Some c1 \<and>
    accepts_prefix H config (prepares c1) acc c'"
proof -
  obtain c1 where c1: "note_commit (signed_counter H (vp_prepare msg)) (view_peer_origin msg) msg (vp_prepare msg) c = Some c1"
    "cc_inv H c1"
    using note_commit_ok [OF assms refl refl refl] by blast
  moreover have "collect_commit H msg config c = accept_prepares config (prepares c1) c1"
    using c1(1) by (cases msg) (simp_all add: collect_commit_def)
  ultimately show ?thesis using accept_prepares_ok [OF c1(2), of config] by auto
qed

section \<open>Properties of the collectors\<close>

definition rvc_collect_all :: "(req_view_change \<times> replica_id) list \<Rightarrow> collector_req_view_changes \<Rightarrow> collector_req_view_changes" where
  "rvc_collect_all = fold (\<lambda>(m, r) c. snd (rvc_collect m r c))"

lemma rvc_collect_all_votes: "rvc_votes.collect_all ms c = rvc_collect_all ms c"
  by (induction ms arbitrary: c) (auto simp: rvc_collect_all_def)

text \<open>
  Claim C18. A replica sees more than \<open>t\<close> ReqViewChanges for a pair of views only if a replica outside
  any given set of \<open>t\<close> faulty replicas asked for exactly this pair: whatever was collected before,
  repeated and conflicting requests of one replica are counted once per pair.
\<close>

theorem req_view_change_quorum:
  assumes "rvc_collect m r (rvc_collect_all ms rvc_collector_new) = (a, c')" "t < a" "finite F" "card F \<le> unat t"
  shows "\<exists>m' r'. (m', r') \<in> set ((m, r) # ms) \<and> rvc_prev_view m' = rvc_prev_view m \<and>
    rvc_next_view m' = rvc_next_view m \<and> r' \<notin> F"
  using rvc_votes.quorum_from_empty [of "(m, r)" ms a c' t F] assms
  by (auto simp: rvc_collect_all_votes rvc_key_def)

theorem req_view_change_quorum_witness:
  "\<exists>m' (r' :: replica_id). (m', r') \<in> set [(\<lparr>rvc_prev_view = 0, rvc_next_view = 1\<rparr>, 2), (\<lparr>rvc_prev_view = 0, rvc_next_view = 1\<rparr>, 1),
      (\<lparr>rvc_prev_view = 0, rvc_next_view = 1\<rparr>, 1)] \<and> rvc_prev_view m' = 0 \<and> rvc_next_view m' = 1 \<and> r' \<notin> {1}"
proof -
  let ?m = "\<lparr>rvc_prev_view = 0, rvc_next_view = 1\<rparr>"
  have "rvc_collect ?m 2 (rvc_collect_all [(?m, 1), (?m, 1)] rvc_collector_new) =
      (2, [(\<lparr>krvc_prev_view = 0, krvc_next_view = 1\<rparr>, [2, 1])])"
    by (simp add: rvc_collect_all_def rvc_collect_def rvc_collector_new_def rvc_key_def)
  from req_view_change_quorum [OF this, of 1 "{1}"] show ?thesis by simp
qed

text \<open>What is kept in the collector of checkpoints: under its key and origin, a checkpoint that was collected.\<close>

definition kept_checkpoint ::
    "('sig, 'att) checkpoint set \<Rightarrow> key_checkpoints \<Rightarrow> replica_id \<Rightarrow> ('sig, 'att) checkpoint \<Rightarrow> bool" where
  "kept_checkpoint S k r m \<longleftrightarrow> m \<in> S \<and> checkpoint_key m = k \<and> cp_origin (us_data m) = r"

definition cm_from :: "('sig, 'att) checkpoint set \<Rightarrow> ('sig, 'att) collector_checkpoints \<Rightarrow> bool" where
  "cm_from S c \<longleftrightarrow> (\<forall>k messages r m. hm_get c k = Some messages \<longrightarrow> hm_get messages r = Some m \<longrightarrow> kept_checkpoint S k r m)"

definition collect_checkpoints :: "('sig, 'att) checkpoint list \<Rightarrow> ('sig, 'att) collector_checkpoints" where
  "collect_checkpoints ms = fold (\<lambda>m c. snd (collect_checkpoint m c)) ms cm_new"

definition checkpoint_voters :: "('sig, 'att) checkpoint list \<Rightarrow> key_checkpoints \<Rightarrow> replica_id set" where
  "checkpoint_voters ms k = (\<lambda>m. cp_origin (us_data m)) ` set (filter (\<lambda>m. checkpoint_key m = k) ms)"

lemma cm_from_collect:
  assumes "cm_from S c"
  shows "cm_from (insert m S) (snd (collect_checkpoint m c))"
  unfolding cm_from_def
proof (intro allI impI)
  fix k messages r m'
  assume new: "hm_get (snd (collect_checkpoint m c)) k = Some messages" "hm_get messages r = Some m'"
  have old: "kept_checkpoint (insert m S) k r m'" if "hm_get c k = Some messages" "hm_get messages r = Some m'"
    for k messages r m' using assms that by (auto simp: cm_from_def kept_checkpoint_def)
  have "kept_checkpoint (insert m S) (checkpoint_key m) (cp_origin (us_data m)) m" by (simp add: kept_checkpoint_def)
  then show "kept_checkpoint (insert m S) k r m'" using new old
    by (auto simp: collect_checkpoint_def cm_collect_def Let_def split: option.splits if_splits)
qed

lemma collect_checkpoints_from: "cm_from (set ms) (collect_checkpoints ms)"
proof -
  have "cm_from S c \<Longrightarrow> cm_from (S \<union> set ms) (fold (\<lambda>m c. snd (collect_checkpoint m c)) ms c)" for S c
  proof (induction ms arbitrary: S c)
    case (Cons m ms)
    from Cons.IH [OF cm_from_collect [OF Cons.prems, of m]] show ?case by simp
  qed simp
  from this [of "{}" cm_new] show ?thesis by (simp add: collect_checkpoints_def cm_from_def cm_new_def)
qed

lemma checkpoint_votes_fold:
  "checkpoint_votes.collect_all ms c = fold (\<lambda>m c. snd (collect_checkpoint m c)) ms c"
  by (induction ms arbitrary: c) simp_all

lemma collect_checkpoints_voters:
  "hm_collector_wf (collect_checkpoints ms) \<and> hm_voters (collect_checkpoints ms) k = checkpoint_voters ms k"
proof -
  have "checkpoint_voters ms k = {cp_origin (us_data m) | m. m \<in> set ms \<and> checkpoint_key m = k}"
    by (auto simp: checkpoint_voters_def)
  with checkpoint_votes.collect_all_voters [OF checkpoint_votes.invar_empty, of ms k] show ?thesis
    unfolding checkpoint_votes_fold collect_checkpoints_def checkpoint_votes.voters_empty by simp
qed

lemma hm_get_mem: "hm_wf m \<Longrightarrow> (k, v) \<in> set m \<Longrightarrow> hm_get m k = Some v"
  by (rule map_of_is_SomeI) simp_all

lemma own_first_certificate:
  assumes "hm_wf messages" "hm_get messages q = Some mine"
    and kept: "\<And>r m. hm_get messages r = Some m \<Longrightarrow> kept_checkpoint S k r m"
    and others: "others = map snd (filter (\<lambda>(r, m). r \<noteq> q) messages)"
  shows "cp_origin (us_data mine) = q \<and> set (mine # others) \<subseteq> S \<and> checkpoint_key ` set (mine # others) = {k} \<and>
    distinct (map (\<lambda>m. cp_origin (us_data m)) (mine # others)) \<and>
    (\<lambda>m. cp_origin (us_data m)) ` set (mine # others) = set (hm_keys messages)"
proof -
  have each: "kept_checkpoint S k r m" if "(r, m) \<in> set messages" for r m
    using kept hm_get_mem [OF assms(1) that] by blast
  have mine: "kept_checkpoint S k q mine" using kept assms(2) by blast
  have origins: "map (\<lambda>m. cp_origin (us_data m)) others = map fst (filter (\<lambda>(r, m). r \<noteq> q) messages)"
    unfolding others by (auto simp: kept_checkpoint_def dest: each)
  have "q \<in> set (hm_keys messages)" using assms(2) hm_key_known by fastforce
  then have "insert q (fst ` set (filter (\<lambda>(r, m). r \<noteq> q) messages)) = set (hm_keys messages)" by force
  then have all: "(\<lambda>m. cp_origin (us_data m)) ` set (mine # others) = set (hm_keys messages)"
    using arg_cong [OF origins, of set] mine by (simp add: kept_checkpoint_def image_image)
  have "distinct (map fst (filter (\<lambda>(r, m). r \<noteq> q) messages))" using assms(1) by (rule distinct_map_filter)
  moreover have "q \<notin> set (map fst (filter (\<lambda>(r, m). r \<noteq> q) messages))" by auto
  ultimately have "distinct (map (\<lambda>m. cp_origin (us_data m)) (mine # others))"
    using mine by (simp add: origins kept_checkpoint_def del: set_map)
  moreover have "set (mine # others) \<subseteq> S" "checkpoint_key ` set (mine # others) = {k}"
    using mine each by (auto simp: others kept_checkpoint_def)
  ultimately show ?thesis using all mine by (simp add: kept_checkpoint_def)
qed

lemma retrieve_collected_spec:
  assumes "retrieve_collected_checkpoints m config (collect_checkpoints ms) = (res, c')"
  shows "(res \<noteq> None \<longleftrightarrow> unat (cfg_t config) < card (checkpoint_voters ms (checkpoint_key m)) \<and>
      cfg_id config \<in> checkpoint_voters ms (checkpoint_key m)) \<and>
    (\<forall>cert. res = Some cert \<longrightarrow>
      (let all = my_checkpoint cert # other_checkpoints cert
       in cp_origin (us_data (my_checkpoint cert)) = cfg_id config \<and> set all \<subseteq> set ms \<and>
          checkpoint_key ` set all = {checkpoint_key m} \<and> distinct (map (\<lambda>m. cp_origin (us_data m)) all) \<and>
          (\<lambda>m. cp_origin (us_data m)) ` set all = checkpoint_voters ms (checkpoint_key m)) \<and>
      list_all (\<lambda>k. kc_total_amount_accepted_batches (checkpoint_key m) < kc_total_amount_accepted_batches k) (hm_keys c'))"
proof (cases "hm_get (collect_checkpoints ms) (checkpoint_key m)")
  case None
  have "checkpoint_voters ms (checkpoint_key m) = {}"
    using collect_checkpoints_voters [of ms "checkpoint_key m"] None by (simp add: hm_voters_def)
  with None assms show ?thesis by (auto simp: retrieve_collected_checkpoints_def cm_retrieve_def)
next
  case (Some messages)
  let ?k = "checkpoint_key m" and ?id = "cfg_id config"
  have voters: "checkpoint_voters ms ?k = set (hm_keys messages)" and wf: "hm_wf messages"
    using collect_checkpoints_voters [of ms ?k] Some by (auto simp: hm_voters_def hm_collector_wf_def)
  have amount: "card (checkpoint_voters ms ?k) = length messages" unfolding voters by (rule hm_card_keys [OF wf])
  have kept: "kept_checkpoint (set ms) ?k r x" if "hm_get messages r = Some x" for r x
    using collect_checkpoints_from [of ms] Some that by (simp add: cm_from_def)
  show ?thesis
  proof (cases "unat (cfg_t config) < length messages \<and> ?id \<in> set (hm_keys messages)")
    case False
    then have "res = None" using assms Some hm_key_known [of messages ?id]
      by (auto simp: retrieve_collected_checkpoints_def cm_retrieve_def hm_contains_def split: if_splits)
    with False show ?thesis unfolding amount unfolding voters by blast
  next
    case True
    then obtain mine where mine: "hm_get messages ?id = Some mine" using hm_key_known [of messages ?id] by blast
    define others where others: "others = map snd (filter (\<lambda>(r, m). r \<noteq> ?id) messages)"
    have res: "res = Some \<lparr>my_checkpoint = mine, other_checkpoints = others\<rparr>"
      and c': "c' = hm_retain (\<lambda>n _. key_checkpoints_gt n ?k) (hm_remove ?k (collect_checkpoints ms))"
      using assms Some True mine
      by (simp_all add: retrieve_collected_checkpoints_def cm_retrieve_def hm_contains_def Let_def others)
    have "list_all (\<lambda>k. kc_total_amount_accepted_batches ?k < kc_total_amount_accepted_batches k) (hm_keys c')"
      unfolding c' by (auto simp: list_all_iff key_checkpoints_gt_def hm_retain_def)
    with own_first_certificate [OF wf mine kept others] True show ?thesis
      unfolding amount unfolding voters res
      by (simp only: Let_def option.inject option.distinct simp_thms checkpoint_certificate.select_convs all_simps)
  qed
qed

text \<open>
  Claim C19. What process_checkpoint gets back from its collector of checkpoints, whatever was
  collected before: a certificate is returned if and only if more than \<open>t\<close> different replicas, the
  replica itself among them, sent a checkpoint with the state hash, the number of accepted batches,
  the counter and the view of the given one. It consists of collected checkpoints of these replicas,
  one of each, the own one first, and every checkpoint that is not for a larger number of accepted
  batches is dropped from the collector.
\<close>

theorem checkpoint_certificate_collected:
  assumes "retrieve_collected_checkpoints m config (collect_checkpoints ms) = (res, c')"
  shows "(res \<noteq> None \<longleftrightarrow> unat (cfg_t config) < card (checkpoint_voters ms (checkpoint_key m)) \<and>
      cfg_id config \<in> checkpoint_voters ms (checkpoint_key m)) \<and>
    (\<forall>cert. res = Some cert \<longrightarrow>
      (let all = my_checkpoint cert # other_checkpoints cert
       in cp_origin (us_data (my_checkpoint cert)) = cfg_id config \<and> set all \<subseteq> set ms \<and>
          checkpoint_key ` set all = {checkpoint_key m} \<and> distinct (map (\<lambda>m. cp_origin (us_data m)) all) \<and>
          (\<lambda>m. cp_origin (us_data m)) ` set all = checkpoint_voters ms (checkpoint_key m)) \<and>
      list_all (\<lambda>k. kc_total_amount_accepted_batches (checkpoint_key m) < kc_total_amount_accepted_batches k) (hm_keys c'))"
  by (rule retrieve_collected_spec [OF assms])

theorem checkpoint_certificate_collected_witness:
  "fst (retrieve_collected_checkpoints (sample_checkpoint 1) sample_config
      (collect_checkpoints [sample_checkpoint 1, sample_checkpoint 0, sample_checkpoint 1])) \<noteq> None"
proof -
  let ?ms = "[sample_checkpoint 1, sample_checkpoint 0, sample_checkpoint 1]"
  obtain res c' where r: "retrieve_collected_checkpoints (sample_checkpoint 1) sample_config (collect_checkpoints ?ms) = (res, c')"
    by fastforce
  have "checkpoint_voters ?ms (checkpoint_key (sample_checkpoint 1)) = {0, 1}"
    by (auto simp: checkpoint_voters_def checkpoint_key_def sample_checkpoint_def)
  with checkpoint_certificate_collected [OF r] r show ?thesis by (simp add: sample_config_def)
qed

lemma collected_certificate_members:
  assumes ret: "retrieve_collected_checkpoints m config (collect_checkpoints ms) = (Some cert, c')"
    and once: "inj_on (\<lambda>m. cp_origin (us_data m)) (set ms)"
    and x: "x \<in> set ms" "checkpoint_key x = checkpoint_key m"
  shows "x \<in> set (my_checkpoint cert # other_checkpoints cert)"
proof -
  let ?all = "my_checkpoint cert # other_checkpoints cert"
  have all: "set ?all \<subseteq> set ms" "(\<lambda>m. cp_origin (us_data m)) ` set ?all = checkpoint_voters ms (checkpoint_key m)"
    using retrieve_collected_spec [OF ret] unfolding Let_def by blast+
  have "cp_origin (us_data x) \<in> checkpoint_voters ms (checkpoint_key m)" using x by (auto simp: checkpoint_voters_def)
  then obtain y where y: "y \<in> set ?all" "cp_origin (us_data y) = cp_origin (us_data x)" unfolding all(2) [symmetric] by fastforce
  with once all(1) x(1) have "y = x" by (meson inj_onD subsetD)
  with y(1) show ?thesis by simp
qed

text \<open>
  Claim C20. The certificate that the collector assembles need not be one that other replicas accept:
  the key under which checkpoints are collected leaves out the last executed requests, the
  attestations and the recovering replicas, which the validation of a certificate compares. Whenever
  every replica sent at most one of the collected checkpoints, more than \<open>t\<close> of them, the own one
  included, have the same key, and a single one with this key differs from the own one in these
  maps, the collector returns a certificate, and every replica rejects it.
\<close>

theorem collected_certificate_can_be_invalid:
  assumes once: "inj_on (\<lambda>m. cp_origin (us_data m)) (set ms)"
    and quorum: "unat (cfg_t config) < card (checkpoint_voters ms (checkpoint_key mine))"
    and mine: "mine \<in> set ms" "cp_origin (us_data mine) = cfg_id config"
    and other: "other \<in> set ms" "checkpoint_key other = checkpoint_key mine"
    and differ: "\<not> hm_eq (cp_last_executed_client_req (us_data mine)) (cp_last_executed_client_req (us_data other)) \<or>
      \<not> hm_eq (cp_usig_attestations (us_data mine)) (cp_usig_attestations (us_data other)) \<or>
      \<not> hm_eq (cp_recovering_replicas (us_data mine)) (cp_recovering_replicas (us_data other))"
    and others: "other \<noteq> mine"
  shows "\<exists>cert c'. retrieve_collected_checkpoints mine config (collect_checkpoints ms) = (Some cert, c') \<and>
    (\<forall>config' u. checkpoint_certificate_validate H config' u cert \<noteq> valid)"
proof -
  obtain res c' where ret: "retrieve_collected_checkpoints mine config (collect_checkpoints ms) = (res, c')" by fastforce
  have "cp_origin (us_data mine) \<in> checkpoint_voters ms (checkpoint_key mine)" using mine(1) by (auto simp: checkpoint_voters_def)
  then have "cfg_id config \<in> checkpoint_voters ms (checkpoint_key mine)" unfolding mine(2) .
  with retrieve_collected_spec [OF ret] quorum obtain cert where cert: "res = Some cert" by blast
  let ?all = "my_checkpoint cert # other_checkpoints cert"
  have spec: "cp_origin (us_data (my_checkpoint cert)) = cfg_id config" "set ?all \<subseteq> set ms"
    using retrieve_collected_spec [OF ret] cert unfolding Let_def by blast+
  have "my_checkpoint cert \<in> set ms" using spec(2) by simp
  then have own: "my_checkpoint cert = mine" using once mine spec(1) by (metis inj_onD)
  have "other \<in> set ?all" by (rule collected_certificate_members [OF ret [unfolded cert] once other])
  with own others have "other \<in> set (other_checkpoints cert)" by simp
  moreover have "\<not> same_checkpoint mine other" using differ by (auto simp: same_checkpoint_def Let_def)
  ultimately have "checkpoint_certificate_validate H config' u cert \<noteq> valid" for config' u
    unfolding checkpoint_certificate_validate_valid own by blast
  with ret cert show ?thesis by blast
qed

theorem collected_certificate_can_be_invalid_witness:
  "\<exists>other cert c'. checkpoint_validate noop_crypto sample_config sample_usig (sample_checkpoint 0) = valid \<and>
     checkpoint_validate noop_crypto sample_config sample_usig other = valid \<and>
     retrieve_collected_checkpoints (sample_checkpoint 0) sample_config (collect_checkpoints [sample_checkpoint 0, other]) = (Some cert, c') \<and>
     (\<forall>config' u. checkpoint_certificate_validate noop_crypto config' u cert \<noteq> valid)"
proof -
  let ?other = "UsigSigned ((us_data (sample_checkpoint 1))\<lparr>cp_last_executed_client_req := [(7, 7)]\<rparr>) (us_signature (sample_checkpoint 1))"
  let ?ms = "[sample_checkpoint 0, ?other]"
  have ok: "checkpoint_validate noop_crypto sample_config sample_usig (sample_checkpoint 0) = valid"
    "checkpoint_validate noop_crypto sample_config sample_usig ?other = valid"
    by (simp_all add: checkpoint_validate_def sample_checkpoint_def noop_verify usig_validation_def)
  have key: "checkpoint_key ?other = checkpoint_key (sample_checkpoint 0)" by (simp add: checkpoint_key_def sample_checkpoint_def)
  then have "checkpoint_voters ?ms (checkpoint_key (sample_checkpoint 0)) = {0, 1}"
    by (simp add: checkpoint_voters_def) (simp add: sample_checkpoint_def)
  then have "\<exists>cert c'. retrieve_collected_checkpoints (sample_checkpoint 0) sample_config (collect_checkpoints ?ms) = (Some cert, c') \<and>
      (\<forall>config' u. checkpoint_certificate_validate noop_crypto config' u cert \<noteq> valid)"
    using key by (intro collected_certificate_can_be_invalid [where other = ?other])
      (simp_all add: sample_config_def, simp_all add: sample_checkpoint_def hm_eq_def)
  with ok show ?thesis by blast
qed

subsection \<open>The accepted Prepares\<close>

lemma cc_ok_keys:
  assumes "cc_ok H ps recv msgs"
  shows "map (\<lambda>x. signed_counter H (snd x)) ps = map fst ps"
proof (rule map_cong [OF refl])
  fix x assume x: "x \<in> set ps"
  obtain k p where kp: "x = (k, p)" by (cases x)
  have sorted: "sorted_wrt (<) (map fst ps)" and keys: "set (hm_keys ps) = set (hm_keys recv)"
    using assms unfolding cc_ok_def by blast+
  have "hm_wf ps" using sorted by (simp only: strict_sorted_iff)
  then have get: "hm_get ps k = Some p" using x kp by (intro hm_get_mem) simp_all
  have "k \<in> set (hm_keys ps)" using x kp by force
  then have "hm_get recv k \<noteq> None" unfolding keys hm_key_known .
  then obtain os where "hm_get recv k = Some os" by blast
  with assms have "cc_entry H k os (hm_get msgs k) (hm_get ps k)" unfolding cc_ok_def by blast
  then show "signed_counter H (snd x) = fst x" using get kp by (auto simp: cc_entry_def backed_by_def)
qed

lemma collect_commit_order:
  assumes "cc_inv H c" "collect_commit H msg config c = Some (acc, c')"
  shows "cc_inv H c' \<and> sorted_wrt (<) (map (\<lambda>a. signed_counter H (fst a)) acc @ hm_keys (prepares c')) \<and>
    set (map (\<lambda>a. signed_counter H (fst a)) acc @ hm_keys (prepares c')) =
      insert (signed_counter H (vp_prepare msg)) (set (hm_keys (prepares c)))"
proof -
  obtain c1 where c1: "cc_inv H c1" "accepts_prefix H config (prepares c1) acc c'"
    "note_commit (signed_counter H (vp_prepare msg)) (view_peer_origin msg) msg (vp_prepare msg) c = Some c1"
    using collect_commit_ok [OF assms(1), of msg config] assms(2) by auto
  have prep: "prepares c1 = bt_insert (signed_counter H (vp_prepare msg)) (vp_prepare msg) (prepares c)"
    using note_commit_eq [OF assms(1) refl refl refl, of msg] c1(3) by auto
  have inv: "cc_inv H c'" and split: "map snd (prepares c1) = map fst acc @ map snd (prepares c')"
    using c1(2) by (auto simp: accepts_prefix_def)
  have "map fst (prepares c1) = map (signed_counter H) (map snd (prepares c1))"
    using cc_ok_keys [OF c1(1)] by (simp add: comp_def)
  also have "\<dots> = map (\<lambda>a. signed_counter H (fst a)) acc @ hm_keys (prepares c')"
    using cc_ok_keys [OF inv] by (simp add: split comp_def)
  finally have keys: "map fst (prepares c1) = map (\<lambda>a. signed_counter H (fst a)) acc @ hm_keys (prepares c')" .
  have "sorted_wrt (<) (map fst (prepares c1))" using c1(1) by (simp add: cc_ok_def)
  then show ?thesis using inv bt_insert_keys [of _ "vp_prepare msg" "prepares c"] unfolding keys [symmetric] prep by blast
qed

text \<open>The messages that the collector keeps are messages it was given.\<close>

definition cc_from :: "('p, 'sig, 'att) view_peer_message set \<Rightarrow> ('p, 'sig, 'att) collector_commits \<Rightarrow> bool" where
  "cc_from S c \<longleftrightarrow> (\<forall>k ms. hm_get (recv_commit_msgs c) k = Some ms \<longrightarrow> set ms \<subseteq> UM_View ` S)"

lemma cc_from_frame [simp]:
  "cc_from S (c\<lparr>prepares := ps\<rparr>) = cc_from S c" "cc_from S (c\<lparr>recv_commits := rs\<rparr>) = cc_from S c"
  by (simp_all add: cc_from_def)

lemma cc_from_get: "cc_from S c \<Longrightarrow> hm_get (recv_commit_msgs c) k = Some ms \<Longrightarrow> set ms \<subseteq> UM_View ` S"
  by (simp add: cc_from_def)

lemma cc_from_remove: "cc_from S c \<Longrightarrow> cc_from S (c\<lparr>recv_commit_msgs := hm_remove k (recv_commit_msgs c)\<rparr>)"
  by (simp add: cc_from_def)

fun collect_commits ::
    "('p, 'u, 'sig, 'att, 'z) crypto_scheme \<Rightarrow> config \<Rightarrow> ('p, 'sig, 'att) view_peer_message list \<Rightarrow>
     ('p, 'sig, 'att) collector_commits \<Rightarrow>
     ((('p, 'sig, 'att) prepare \<times> ('p, 'sig, 'att) usig_message list) list \<times> ('p, 'sig, 'att) collector_commits) option" where
  "collect_commits H config [] c = Some ([], c)"
| "collect_commits H config (m # ms) c =
     do {
       (acc, c) \<leftarrow> collect_commit H m config c;
       (acc', c) \<leftarrow> collect_commits H config ms c;
       Some (acc @ acc', c)
     }"

lemma note_commit_from:
  assumes "note_commit k r v p c = Some c1" "cc_from S c"
  shows "cc_from (insert v S) c1"
  unfolding cc_from_def
proof (intro allI impI)
  have "recv_commit_msgs c1 = hm_insert k ([] @ [UM_View v]) (recv_commit_msgs c)" if "hm_get (recv_commits c) k = None"
    using assms(1) that by (auto simp: note_commit_def)
  moreover have "\<exists>ms0. recv_commit_msgs c1 = hm_insert k (ms0 @ [UM_View v]) (recv_commit_msgs c) \<and>
      hm_get (recv_commit_msgs c) k = Some ms0" if "hm_get (recv_commits c) k = Some os" for os
    using assms(1) that by (auto simp: note_commit_def Let_def split: Option.bind_splits)
  ultimately obtain ms0 where c1: "recv_commit_msgs c1 = hm_insert k (ms0 @ [UM_View v]) (recv_commit_msgs c)"
    and ms0: "ms0 = [] \<or> hm_get (recv_commit_msgs c) k = Some ms0"
    by (cases "hm_get (recv_commits c) k") blast+
  have old: "set ms \<subseteq> UM_View ` insert v S" if "hm_get (recv_commit_msgs c) k' = Some ms" for k' ms
    using assms(2) that unfolding cc_from_def by blast
  fix k' ms
  assume "hm_get (recv_commit_msgs c1) k' = Some ms"
  then show "set ms \<subseteq> UM_View ` insert v S"
    using ms0 old [of k ms0] old [of k' ms] by (auto simp: c1 split: if_splits)
qed

lemma accept_prepares_from:
  "accept_prepares config ps c = Some (acc, c') \<Longrightarrow> cc_from S c \<Longrightarrow>
     cc_from S c' \<and> list_all (\<lambda>a. set (snd a) \<subseteq> UM_View ` S) acc"
proof (induction config ps c arbitrary: acc c' rule: accept_prepares.induct)
  case (1 config c)
  then show ?case by auto
next
  case (2 config k p rest c)
  let ?c = "c\<lparr>recv_commits := hm_remove k (recv_commits c), recv_commit_msgs := hm_remove k (recv_commit_msgs c)\<rparr>"
  obtain os where os: "hm_get (recv_commits c) k = Some os" using 2(2) by (auto split: Option.bind_splits)
  show ?case
  proof (cases "length os \<le> unat (cfg_t config)")
    case True
    then show ?thesis using 2(2,3) os by auto
  next
    case False
    then obtain ms acc0 where ms: "hm_get (recv_commit_msgs c) k = Some ms"
      "accept_prepares config rest ?c = Some (acc0, c')" "acc = (p, ms) # acc0"
      using 2(2) os by (auto split: Option.bind_splits)
    have "cc_from S ?c" using cc_from_remove [OF 2(3), of k] by (simp add: cc_from_def)
    from 2(1) [OF os False ms(1,2) this] show ?thesis using cc_from_get [OF 2(3) ms(1)] ms(3) by simp
  qed
qed

definition accepted_by ::
    "('p, 'u, 'sig, 'att, 'z) crypto_scheme \<Rightarrow> config \<Rightarrow> ('p, 'sig, 'att) view_peer_message set \<Rightarrow>
     ('p, 'sig, 'att) prepare \<times> ('p, 'sig, 'att) usig_message list \<Rightarrow> bool" where
  "accepted_by H config S a \<longleftrightarrow> set (snd a) \<subseteq> UM_View ` S \<and> quorum_backed H config a"

lemma accepted_by_mono:
  assumes "S \<subseteq> T" "list_all (accepted_by H config S) acc"
  shows "list_all (accepted_by H config T) acc"
proof -
  have "accepted_by H config T a" if "accepted_by H config S a" for a
    using that subset_trans [OF _ image_mono [OF assms(1)], of "set (snd a)" UM_View] by (simp add: accepted_by_def)
  with assms(2) show ?thesis by (simp add: list_all_iff)
qed

lemma collect_commits_run:
  assumes "cc_inv H c" "cc_from S c" "waits_for_commits config c"
  shows "\<exists>acc c'. collect_commits H config ms c = Some (acc, c') \<and> list_all (accepted_by H config (S \<union> set ms)) acc \<and>
    waits_for_commits config c'"
  using assms
proof (induction ms arbitrary: S c)
  case (Cons m ms)
  obtain c1 acc c2 where c1: "collect_commit H m config c = Some (acc, c2)"
    "note_commit (signed_counter H (vp_prepare m)) (view_peer_origin m) m (vp_prepare m) c = Some c1"
    "accepts_prefix H config (prepares c1) acc c2"
    using collect_commit_ok [OF Cons.prems(1), of m config] by blast
  then have c2: "cc_inv H c2" "list_all (quorum_backed H config) acc" "waits_for_commits config c2"
    unfolding accepts_prefix_def by blast+
  have "collect_commit H m config c = accept_prepares config (prepares c1) c1"
    using c1(2) by (cases m) (simp_all add: collect_commit_def)
  with c1(1) accept_prepares_from [OF _ note_commit_from [OF c1(2) Cons.prems(2)]]
  have src: "cc_from (insert m S) c2" "list_all (\<lambda>a. set (snd a) \<subseteq> UM_View ` insert m S) acc" by auto
  obtain acc' c' where IH: "collect_commits H config ms c2 = Some (acc', c')"
    "list_all (accepted_by H config (insert m S \<union> set ms)) acc'" "waits_for_commits config c'"
    using Cons.IH [OF c2(1) src(1) c2(3)] by blast
  have "list_all (accepted_by H config (insert m S)) acc"
    using src(2) c2(2) by (simp add: list_all_iff accepted_by_def)
  then have "list_all (accepted_by H config (S \<union> set (m # ms))) acc" by (rule accepted_by_mono [rotated]) auto
  with IH c1(1) show ?case by simp
qed simp

subsection \<open>The collector of Commits as a list of messages\<close>

text \<open>
  The specification of the collector keeps the messages themselves, in the order of their arrival. When
  a message arrives, the counters are served in ascending order: as long as messages of more than \<open>t\<close>
  different replicas carry a Prepare with the least counter, the Prepare of the last such message is
  accepted together with all of them, and they are taken out.
\<close>

definition vp_counter :: "('p, 'u, 'sig, 'att, 'z) crypto_scheme \<Rightarrow> ('p, 'sig, 'att) view_peer_message \<Rightarrow> count" where
  "vp_counter H m = signed_counter H (vp_prepare m)"

definition with_counter ::
    "('p, 'u, 'sig, 'att, 'z) crypto_scheme \<Rightarrow> count \<Rightarrow> ('p, 'sig, 'att) view_peer_message list \<Rightarrow> ('p, 'sig, 'att) view_peer_message list" where
  "with_counter H k pending = filter (\<lambda>m. vp_counter H m = k) pending"

fun accept_spec ::
    "('p, 'u, 'sig, 'att, 'z) crypto_scheme \<Rightarrow> config \<Rightarrow> count list \<Rightarrow> ('p, 'sig, 'att) view_peer_message list \<Rightarrow>
     (('p, 'sig, 'att) prepare \<times> ('p, 'sig, 'att) usig_message list) list \<times> ('p, 'sig, 'att) view_peer_message list" where
  "accept_spec H config [] pending = ([], pending)"
| "accept_spec H config (k # ks) pending =
     (let ms = with_counter H k pending
      in if card (view_peer_origin ` set ms) \<le> unat (cfg_t config) then ([], pending)
         else (case accept_spec H config ks (filter (\<lambda>m. vp_counter H m \<noteq> k) pending) of
                 (acc, rest) \<Rightarrow> ((vp_prepare (last ms), map UM_View ms) # acc, rest)))"

fun commits_spec ::
    "('p, 'u, 'sig, 'att, 'z) crypto_scheme \<Rightarrow> config \<Rightarrow> ('p, 'sig, 'att) view_peer_message list \<Rightarrow> ('p, 'sig, 'att) view_peer_message list \<Rightarrow>
     (('p, 'sig, 'att) prepare \<times> ('p, 'sig, 'att) usig_message list) list \<times> ('p, 'sig, 'att) view_peer_message list" where
  "commits_spec H config [] pending = ([], pending)"
| "commits_spec H config (m # ms) pending =
     (case accept_spec H config (sorted_list_of_set (vp_counter H ` set (pending @ [m]))) (pending @ [m]) of
        (acc, pending) \<Rightarrow> (case commits_spec H config ms pending of (acc', pending) \<Rightarrow> (acc @ acc', pending)))"

text \<open>The three maps hold, for the messages with one counter, their origins, themselves and the last Prepare.\<close>

definition cc_holds ::
    "('p, 'sig, 'att) view_peer_message list \<Rightarrow> replica_id hash_set option \<Rightarrow>
     ('p, 'sig, 'att) usig_message list option \<Rightarrow> ('p, 'sig, 'att) prepare option \<Rightarrow> bool" where
  "cc_holds ms ro mo po \<longleftrightarrow>
     (if ms = [] then ro = None \<and> po = None
      else mo = Some (map UM_View ms) \<and> po = Some (vp_prepare (last ms)) \<and>
        (\<exists>os. ro = Some os \<and> distinct os \<and> set os = view_peer_origin ` set ms))"

definition cc_abs ::
    "('p, 'u, 'sig, 'att, 'z) crypto_scheme \<Rightarrow> ('p, 'sig, 'att) view_peer_message list \<Rightarrow>
     (count, ('p, 'sig, 'att) prepare) btree_map \<Rightarrow> ('p, 'sig, 'att) collector_commits \<Rightarrow> bool" where
  "cc_abs H pending ps c \<longleftrightarrow> sorted_wrt (<) (map fst ps) \<and> set (map fst ps) = vp_counter H ` set pending \<and>
     (\<forall>k. cc_holds (with_counter H k pending) (hm_get (recv_commits c) k) (hm_get (recv_commit_msgs c) k) (hm_get ps k))"

lemma cc_abs_get:
  "cc_abs H pending ps c \<Longrightarrow> cc_holds (with_counter H k pending) (hm_get (recv_commits c) k) (hm_get (recv_commit_msgs c) k) (hm_get ps k)"
  by (simp add: cc_abs_def)

lemma with_counter_append:
  "with_counter H k (pending @ [m]) = (if k = vp_counter H m then with_counter H k pending @ [m] else with_counter H k pending)"
  by (simp add: with_counter_def)

lemma with_counter_remove:
  "with_counter H k' (filter (\<lambda>m. vp_counter H m \<noteq> k) pending) = (if k' = k then [] else with_counter H k' pending)"
  by (auto simp: with_counter_def filter_empty_conv intro: filter_cong)

lemma note_commit_abs:
  assumes "cc_abs H pending (prepares c) c"
  shows "\<exists>c1. note_commit (vp_counter H m) (view_peer_origin m) m (vp_prepare m) c = Some c1 \<and>
    cc_abs H (pending @ [m]) (prepares c1) c1"
proof -
  let ?k = "vp_counter H m"
  note old = cc_abs_get [OF assms]
  have sorted: "sorted_wrt (<) (map fst (prepares c))" using assms by (simp add: cc_abs_def)
  obtain os where c1: "note_commit ?k (view_peer_origin m) m (vp_prepare m) c =
      Some (c\<lparr>recv_commits := hm_insert ?k os (recv_commits c),
        recv_commit_msgs := hm_insert ?k (map UM_View (with_counter H ?k pending @ [m])) (recv_commit_msgs c),
        prepares := bt_insert ?k (vp_prepare m) (prepares c)\<rparr>)"
    and os: "distinct os" "set os = insert (view_peer_origin m) (view_peer_origin ` set (with_counter H ?k pending))"
    using old [of ?k]
    by (cases "with_counter H ?k pending = []") (auto simp: cc_holds_def note_commit_def Let_def)
  have "cc_abs H (pending @ [m]) (bt_insert ?k (vp_prepare m) (prepares c))
      (c\<lparr>recv_commits := hm_insert ?k os (recv_commits c),
        recv_commit_msgs := hm_insert ?k (map UM_View (with_counter H ?k pending @ [m])) (recv_commit_msgs c),
        prepares := bt_insert ?k (vp_prepare m) (prepares c)\<rparr>)"
    unfolding cc_abs_def
  proof (intro conjI allI)
    show "set (hm_keys (bt_insert ?k (vp_prepare m) (prepares c))) = vp_counter H ` set (pending @ [m])"
      using assms unfolding bt_insert_keys cc_abs_def by simp
  qed (use old os in \<open>auto simp: with_counter_append bt_insert_get [OF sorted] cc_holds_def intro: bt_insert_sorted [OF sorted]\<close>)
  with c1 show ?thesis by simp
qed

lemma cc_abs_remove_first:
  assumes "cc_abs H pending ((k, p) # ps) c"
  shows "cc_abs H (filter (\<lambda>m. vp_counter H m \<noteq> k) pending) ps
    (c\<lparr>recv_commits := hm_remove k (recv_commits c), recv_commit_msgs := hm_remove k (recv_commit_msgs c)\<rparr>)"
  unfolding cc_abs_def
proof (intro conjI allI)
  have k: "k \<notin> set (hm_keys ps)" and keys: "insert k (set (hm_keys ps)) = vp_counter H ` set pending"
    using assms by (auto simp: cc_abs_def)
  have "set (hm_keys ps) = vp_counter H ` set pending - {k}" using k keys by auto
  also have "\<dots> = vp_counter H ` set (filter (\<lambda>m. vp_counter H m \<noteq> k) pending)" by auto
  finally show "set (hm_keys ps) = vp_counter H ` set (filter (\<lambda>m. vp_counter H m \<noteq> k) pending)" .
  fix k'
  have "hm_get ps k = None" using k by (simp add: map_of_eq_None_iff)
  with cc_abs_get [OF assms, of k']
  show "cc_holds (with_counter H k' (filter (\<lambda>m. vp_counter H m \<noteq> k) pending))
      (hm_get (recv_commits (c\<lparr>recv_commits := hm_remove k (recv_commits c), recv_commit_msgs := hm_remove k (recv_commit_msgs c)\<rparr>)) k')
      (hm_get (recv_commit_msgs (c\<lparr>recv_commits := hm_remove k (recv_commits c), recv_commit_msgs := hm_remove k (recv_commit_msgs c)\<rparr>)) k')
      (hm_get ps k')"
    unfolding with_counter_remove by (auto simp: cc_holds_def)
qed (use assms in \<open>simp add: cc_abs_def\<close>)

lemma accept_prepares_abs:
  assumes "cc_abs H pending ps c"
  shows "\<exists>acc c' pending'. accept_prepares config ps c = Some (acc, c') \<and>
    accept_spec H config (map fst ps) pending = (acc, pending') \<and> cc_abs H pending' (prepares c') c'"
  using assms
proof (induction ps arbitrary: c pending)
  case Nil
  then show ?case by (auto simp: cc_abs_def)
next
  case (Cons x ps)
  obtain k p where x: "x = (k, p)" by (cases x)
  let ?ms = "with_counter H k pending"
  let ?c = "c\<lparr>recv_commits := hm_remove k (recv_commits c), recv_commit_msgs := hm_remove k (recv_commit_msgs c)\<rparr>"
  from cc_abs_get [OF Cons.prems, of k] obtain os where get: "hm_get (recv_commits c) k = Some os" "distinct os"
      "set os = view_peer_origin ` set ?ms" "hm_get (recv_commit_msgs c) k = Some (map UM_View ?ms)" "p = vp_prepare (last ?ms)"
    by (auto simp: x cc_holds_def split: if_splits)
  have amount: "length os = card (view_peer_origin ` set ?ms)" using distinct_card [OF get(2)] get(3) by simp
  show ?case
  proof (cases "length os \<le> unat (cfg_t config)")
    case True
    with get(1) amount Cons.prems show ?thesis by (auto simp: x cc_abs_def)
  next
    case False
    from Cons.IH [OF cc_abs_remove_first [OF Cons.prems [unfolded x]]]
    obtain acc c' pending' where "accept_prepares config ps ?c = Some (acc, c')"
      "accept_spec H config (map fst ps) (filter (\<lambda>m. vp_counter H m \<noteq> k) pending) = (acc, pending')"
      "cc_abs H pending' (prepares c') c'" by blast
    with get amount False show ?thesis by (simp add: x Let_def)
  qed
qed

lemma collect_commit_abs:
  assumes "cc_abs H pending (prepares c) c"
  shows "\<exists>acc c' pending'. collect_commit H m config c = Some (acc, c') \<and>
    accept_spec H config (sorted_list_of_set (vp_counter H ` set (pending @ [m]))) (pending @ [m]) = (acc, pending') \<and>
    cc_abs H pending' (prepares c') c'"
proof -
  obtain c1 where c1: "note_commit (vp_counter H m) (view_peer_origin m) m (vp_prepare m) c = Some c1"
    "cc_abs H (pending @ [m]) (prepares c1) c1" using note_commit_abs [OF assms] by blast
  have "map fst (prepares c1) = sorted_list_of_set (vp_counter H ` set (pending @ [m]))"
    using c1(2) unfolding cc_abs_def strict_sorted_iff by (metis sorted_list_of_set.idem_if_sorted_distinct)
  moreover have "collect_commit H m config c = accept_prepares config (prepares c1) c1"
    using c1(1) by (cases m) (simp_all add: collect_commit_def vp_counter_def)
  ultimately show ?thesis using accept_prepares_abs [OF c1(2), of config] by simp
qed

lemma collect_commits_abs:
  assumes "cc_abs H pending (prepares c) c"
  shows "\<exists>acc c' pending'. collect_commits H config ms c = Some (acc, c') \<and>
    commits_spec H config ms pending = (acc, pending') \<and> cc_abs H pending' (prepares c') c'"
  using assms
proof (induction ms arbitrary: c pending)
  case (Cons m ms)
  obtain acc c1 pending1 where c1: "collect_commit H m config c = Some (acc, c1)"
    "accept_spec H config (sorted_list_of_set (vp_counter H ` set (pending @ [m]))) (pending @ [m]) = (acc, pending1)"
    "cc_abs H pending1 (prepares c1) c1" using collect_commit_abs [OF Cons.prems] by blast
  from Cons.IH [OF c1(3)] obtain acc' c' pending' where "collect_commits H config ms c1 = Some (acc', c')"
    "commits_spec H config ms pending1 = (acc', pending')" "cc_abs H pending' (prepares c') c'" by blast
  with c1 show ?case by (simp del: set_append)
qed simp

lemma accept_spec_pending: "set (snd (accept_spec H config ks pending)) \<subseteq> set pending"
  by (induction H config ks pending rule: accept_spec.induct) (auto simp: Let_def split: prod.splits)

lemma commits_spec_pending: "set (snd (commits_spec H config ms pending)) \<subseteq> set ms \<union> set pending"
proof (induction ms arbitrary: pending)
  case (Cons m ms)
  let ?ks = "sorted_list_of_set (vp_counter H ` set (pending @ [m]))"
  obtain acc pending1 where first: "accept_spec H config ?ks (pending @ [m]) = (acc, pending1)" by fastforce
  have "set pending1 \<subseteq> insert m (set pending)" using accept_spec_pending [of H config ?ks "pending @ [m]"] unfolding first by simp
  with Cons.IH [of pending1] show ?case by (auto simp: first split: prod.splits simp del: set_append dest: subsetD)
qed simp

lemma accept_spec_accepted:
  assumes "accept_spec H config ks pending = (acc, rest)" "a \<in> set acc"
  shows "\<exists>ms. ms \<noteq> [] \<and> set ms \<subseteq> set pending \<and> a = (vp_prepare (last ms), map UM_View ms)"
  using assms
proof (induction ks arbitrary: pending acc)
  case (Cons k ks)
  let ?ms = "with_counter H k pending" and ?rest = "filter (\<lambda>m. vp_counter H m \<noteq> k) pending"
  obtain acc1 where acc: "\<not> card (view_peer_origin ` set ?ms) \<le> unat (cfg_t config)" "accept_spec H config ks ?rest = (acc1, rest)"
      "acc = (vp_prepare (last ?ms), map UM_View ?ms) # acc1"
    using Cons.prems by (auto simp: Let_def split: if_splits prod.splits)
  show ?case
  proof (cases "a \<in> set acc1")
    case True
    from Cons.IH [OF acc(2) this] show ?thesis by auto
  next
    case False
    then have "a = (vp_prepare (last ?ms), map UM_View ?ms)" using Cons.prems(2) acc(3) by simp
    moreover have "?ms \<noteq> []" using acc(1) by auto
    ultimately show ?thesis by (intro exI [of _ ?ms]) (auto simp: with_counter_def)
  qed
qed simp

lemma cc_abs_new: "cc_abs H [] (prepares collector_commits_new) collector_commits_new"
  by (simp add: cc_abs_def collector_commits_new_def cc_holds_def with_counter_def)

text \<open>
  Claim C17. Whatever Prepares and Commits a replica collects in a view, the collector does not panic
  and accepts exactly what the specification on the received messages accepts: the counters are served
  in ascending order, and a Prepare is accepted as soon as received and not yet used messages of more
  than \<open>t\<close> different replicas carry a Prepare with its counter, which is then the least one. All the
  messages that an accepted Prepare comes with were received, come from more than \<open>t\<close> different
  replicas and carry a Prepare with its counter; and of the messages that are left, those with the
  least counter come from at most \<open>t\<close> replicas, so nothing is held back.
\<close>

theorem commits_collected:
  assumes "commits_spec H config msgs [] = (acc, pending)"
  shows "(\<exists>c. collect_commits H config msgs collector_commits_new = Some (acc, c)) \<and>
     list_all (accepted_by H config (set msgs)) acc \<and> set pending \<subseteq> set msgs \<and>
     (pending \<noteq> [] \<longrightarrow> card (view_peer_origin ` set (with_counter H (Min (vp_counter H ` set pending)) pending)) \<le> unat (cfg_t config))"
proof -
  obtain c where c: "collect_commits H config msgs collector_commits_new = Some (acc, c)" "cc_abs H pending (prepares c) c"
    using collect_commits_abs [OF cc_abs_new, of H config msgs] assms by auto
  have run: "list_all (accepted_by H config (set msgs)) acc" "waits_for_commits config c"
    using collect_commits_run [OF cc_inv_new, where S = "{}" and config = config and ms = msgs and H = H] c(1)
    by (simp_all add: cc_from_def waits_for_commits_def collector_commits_new_def)
  have "card (view_peer_origin ` set (with_counter H (Min (vp_counter H ` set pending)) pending)) \<le> unat (cfg_t config)"
    if "pending \<noteq> []"
  proof -
    from c(2) that obtain k p ps where ps: "prepares c = (k, p) # ps" by (cases "prepares c") (auto simp: cc_abs_def)
    have keys: "vp_counter H ` set pending = insert k (fst ` set ps)" "\<forall>x \<in> set ps. k < fst x"
      using c(2) unfolding ps cc_abs_def by auto
    have "Min (vp_counter H ` set pending) = k" unfolding keys(1) using keys(2) by (intro Min_eqI) (auto simp: less_imp_le)
    with run(2) cc_abs_get [OF c(2), of k] show ?thesis
      by (auto simp: ps waits_for_commits_def cc_holds_def distinct_card [symmetric] split: option.splits if_splits)
  qed
  with c run(1) commits_spec_pending [of H config msgs "[]"] assms show ?thesis by auto
qed

theorem commits_collected_witness:
  "\<exists>p com acc pending c. commits_spec noop_crypto sample_config [VP_Prepare p, VP_Commit com] [] = (acc, pending) \<and>
     map fst acc = [p] \<and> pending = [] \<and>
     collect_commits noop_crypto sample_config [VP_Prepare p, VP_Commit com] collector_commits_new = Some (acc, c)"
proof -
  define p :: "(bytes, noop_signature, dummy_attestation) prepare" where
    "p = UsigSigned \<lparr>pc_origin = 0, pc_view = 0, pc_request_batch = []\<rparr> (Noop_Signature 4)"
  define com where "com = UsigSigned \<lparr>cc_origin = 1, cc_prepare = p\<rparr> (Noop_Signature 9)"
  have k: "vp_counter noop_crypto (VP_Prepare p) = 4" "vp_counter noop_crypto (VP_Commit com) = 4"
    by (simp_all add: vp_counter_def p_def com_def noop_signed_counter)
  have o: "view_peer_origin (VP_Prepare p) = 0" "view_peer_origin (VP_Commit com) = 1"
    by (simp_all add: p_def com_def)
  have spec: "commits_spec noop_crypto sample_config [VP_Prepare p, VP_Commit com] [] =
      ([(p, map UM_View [VP_Prepare p, VP_Commit com])], [])"
    by (simp add: k with_counter_def o sample_config_def Let_def del: view_peer_origin.simps) (simp add: com_def)
  from commits_collected [OF spec] obtain c where "collect_commits noop_crypto sample_config [VP_Prepare p, VP_Commit com] collector_commits_new =
      Some ([(p, map UM_View [VP_Prepare p, VP_Commit com])], c)" by blast
  with spec show ?thesis
    by (intro exI [of _ p] exI [of _ com] exI [of _ "[(p, map UM_View [VP_Prepare p, VP_Commit com])]"] exI [of _ "[]"] exI [of _ c] conjI)
      (simp_all only: list.map fst_conv)
qed

end
