(* ===== verification/Batchers.thy ===== *)
theory Batchers
  imports Minbft_Messages
begin

text \<open>
  The request batchers of \<^verbatim>\<open>minbft/src/request_batcher/\<close>: \<open>TrivialRequestBatcher\<close>, \<open>AESC\<close> with its
  optimizers \<open>ESO\<close>, \<open>EMABatcher\<close>, and the choice between them (\<open>BatchConfiguration::init\<close> in
  \<^verbatim>\<open>minbft/src/config.rs\<close>). A \<open>Box<dyn RequestBatcher>\<close> is the sum of the three.

  The readings of the clock and of the random number generator are part of the explicit state
  \<open>runtime\<close>: the n-th call of \<open>Instant::now\<close> gives the n-th reading, in nanoseconds, and likewise for
  \<open>gen_range(-1..1)\<close>. The arithmetic of \<open>f32\<close> that EMABatcher uses is the record \<open>f32_ops\<close> of functions
  on bit patterns; no theorem depends on what it computes. What all batchers promise, that the
  requests leave in the order in which they came and none is lost, is the locale \<open>fifo_batcher\<close>.
\<close>

section \<open>Clock, random numbers and floating-point arithmetic\<close>

record f32_ops =
  f32_add :: "f32 \<Rightarrow> f32 \<Rightarrow> f32"
  f32_sub :: "f32 \<Rightarrow> f32 \<Rightarrow> f32"
  f32_mul :: "f32 \<Rightarrow> f32 \<Rightarrow> f32"
  f32_div :: "f32 \<Rightarrow> f32 \<Rightarrow> f32"
  f32_lt :: "f32 \<Rightarrow> f32 \<Rightarrow> bool"
  f32_ceil_as_usize :: "f32 \<Rightarrow> nat"
  as_secs_f32 :: "duration \<Rightarrow> f32"
  from_secs_f32 :: "f32 \<Rightarrow> duration option"

abbreviation f32_zero :: f32 where
  "f32_zero \<equiv> 0"

abbreviation f32_one :: f32 where
  "f32_one \<equiv> 0x3F800000"

type_synonym instant = nat

record runtime =
  rt_clock :: "nat \<Rightarrow> instant"
  rt_clock_pos :: nat
  rt_rng :: "nat \<Rightarrow> int"
  rt_rng_pos :: nat
  rt_f32 :: f32_ops

definition instant_now :: "runtime \<Rightarrow> instant \<times> runtime" where
  "instant_now rt = (rt_clock rt (rt_clock_pos rt), rt\<lparr>rt_clock_pos := rt_clock_pos rt + 1\<rparr>)"

definition gen_range :: "runtime \<Rightarrow> int \<times> runtime" where
  "gen_range rt = (rt_rng rt (rt_rng_pos rt), rt\<lparr>rt_rng_pos := rt_rng_pos rt + 1\<rparr>)"

definition duration_since :: "instant \<Rightarrow> instant \<Rightarrow> duration" where
  "duration_since later earlier = later - earlier"

definition saturating_add :: "duration \<Rightarrow> duration \<Rightarrow> duration" where
  "saturating_add a b = min duration_max (a + b)"

definition saturating_sub :: "duration \<Rightarrow> duration \<Rightarrow> duration" where
  "saturating_sub a b = a - b"

definition from_millis :: "nat \<Rightarrow> duration" where
  "from_millis ms = ms * 1000000"

type_synonym ('p, 'att) controller_output = "('p, 'att) request_batch option \<times> timeout option"

section \<open>TrivialRequestBatcher\<close>

record ('p, 'att) trivial_request_batcher =
  trb_next_batch :: "('p, 'att) client_request list"
  trb_timeout :: duration
  trb_max_size :: "nat option"
  trb_timeout_started :: bool

definition trivial_new :: "duration \<Rightarrow> nat option \<Rightarrow> ('p, 'att) trivial_request_batcher" where
  "trivial_new timeout max_size =
     \<lparr>trb_next_batch = [], trb_timeout = timeout, trb_max_size = max_size, trb_timeout_started = False\<rparr>"

definition trivial_batch ::
    "('p, 'att) client_request \<Rightarrow> ('p, 'att) trivial_request_batcher \<Rightarrow>
     ('p, 'att) controller_output \<times> ('p, 'att) trivial_request_batcher" where
  "trivial_batch request b =
     (let b = b\<lparr>trb_next_batch := trb_next_batch b @ [request]\<rparr>;
          rest = (if trb_timeout_started b then ((None, None), b)
                  else ((None, Some (timeout_batch (trb_timeout b))), b\<lparr>trb_timeout_started := True\<rparr>))
      in case trb_max_size b of
           Some max_size \<Rightarrow>
             if max_size \<le> length (trb_next_batch b)
             then ((Some (trb_next_batch b), None), b\<lparr>trb_timeout_started := False, trb_next_batch := []\<rparr>)
             else rest
         | None \<Rightarrow> rest)"

definition trivial_timeout ::
    "('p, 'att) trivial_request_batcher \<Rightarrow> ('p, 'att) controller_output \<times> ('p, 'att) trivial_request_batcher" where
  "trivial_timeout b =
     (let b = b\<lparr>trb_timeout_started := False\<rparr>
      in if trb_next_batch b = [] then ((None, None), b)
         else ((Some (trb_next_batch b), None), b\<lparr>trb_next_batch := []\<rparr>))"

definition trivial_update ::
    "('p, 'att) request_batch \<Rightarrow> ('p, 'att) trivial_request_batcher \<Rightarrow>
     ('p, 'att) controller_output \<times> ('p, 'att) trivial_request_batcher" where
  "trivial_update commited_batch b = ((None, None), b)"

section \<open>AESC\<close>

datatype direction = Increasing | Descreasing

record eso =
  eso_waiting_time :: duration
  eso_perf_index :: duration
  eso_probing_direction :: direction

definition eso_new :: eso where
  "eso_new = \<lparr>eso_waiting_time = 0, eso_perf_index = duration_max, eso_probing_direction = Increasing\<rparr>"

fun flip_direction :: "direction \<Rightarrow> direction" where
  "flip_direction Increasing = Descreasing"
| "flip_direction Descreasing = Increasing"

definition eso_update :: "duration \<Rightarrow> eso \<Rightarrow> runtime \<Rightarrow> direction \<times> eso \<times> runtime" where
  "eso_update new_perf_index e rt =
     (let dir = (if new_perf_index \<le> eso_perf_index e then eso_probing_direction e
                 else flip_direction (eso_probing_direction e));
          (pertupation, rt) = gen_range rt;
          gamma = 1;
          delta = (case dir of Increasing \<Rightarrow> gamma | Descreasing \<Rightarrow> - gamma) + pertupation;
          e = e\<lparr>eso_probing_direction := dir, eso_perf_index := new_perf_index\<rparr>;
          delta_duration = from_millis (nat \<bar>delta\<bar>)
      in if 0 < delta
         then (Increasing, e\<lparr>eso_waiting_time := saturating_add (eso_waiting_time e) delta_duration\<rparr>, rt)
         else (Descreasing, e\<lparr>eso_waiting_time := saturating_sub (eso_waiting_time e) delta_duration\<rparr>, rt))"

type_synonym batch_id = "client_id \<times> request_id"

record ('p, 'att) aesc =
  aesc_requests :: "('p, 'att) client_request list"
  aesc_optimizers :: "eso list"
  aesc_issue_events :: "(batch_id, instant) hash_map"
  aesc_last_batch :: "instant option"
  aesc_max_inflight :: nat

definition aesc_new :: "nat \<Rightarrow> nat \<Rightarrow> ('p, 'att) aesc" where
  "aesc_new max_batch_size max_inflight =
     \<lparr>aesc_requests = [], aesc_optimizers = replicate max_batch_size eso_new, aesc_issue_events = [],
      aesc_last_batch = None, aesc_max_inflight = max_inflight\<rparr>"

definition aesc_optimizer :: "('p, 'att) aesc \<Rightarrow> eso option" where
  "aesc_optimizer b =
     (case index_vec (aesc_optimizers b) (length (aesc_requests b) - 1) of
        Some e \<Rightarrow> Some e
      | None \<Rightarrow> (case aesc_optimizers b of [] \<Rightarrow> None | es \<Rightarrow> Some (last es)))"

definition time_since_last :: "instant option \<Rightarrow> runtime \<Rightarrow> duration \<times> runtime" where
  "time_since_last last_batch rt =
     (case last_batch of
        None \<Rightarrow> (duration_max, rt)
      | Some event \<Rightarrow> (let (now, rt) = instant_now rt in (duration_since now event, rt)))"

definition aesc_get_next_batch ::
    "('p, 'att) aesc \<Rightarrow> runtime \<Rightarrow> (('p, 'att) controller_output \<times> ('p, 'att) aesc \<times> runtime) option" where
  "aesc_get_next_batch b rt =
     (if aesc_requests b = [] then Some ((None, None), b, rt)
      else if aesc_max_inflight b \<le> length (aesc_issue_events b) then Some ((None, None), b, rt)
      else do {
        e \<leftarrow> aesc_optimizer b;
        let (since, rt) = time_since_last (aesc_last_batch b) rt;
        if eso_waiting_time e \<le> since
        then do {
          let k = min (length (aesc_optimizers b)) (length (aesc_requests b));
          let batch = take k (aesc_requests b);
          first_req \<leftarrow> (case batch of [] \<Rightarrow> None | r # _ \<Rightarrow> Some r);
          let (now, rt) = instant_now rt;
          Some ((Some batch, None),
                b\<lparr>aesc_requests := drop k (aesc_requests b), aesc_last_batch := Some now,
                  aesc_issue_events := hm_insert (cr_client first_req, cr_id first_req) now (aesc_issue_events b)\<rparr>, rt)
        }
        else Some ((None, Some (timeout_batch (saturating_sub (eso_waiting_time e) since))), b, rt)
      })"

definition aesc_batch ::
    "('p, 'att) client_request \<Rightarrow> ('p, 'att) aesc \<Rightarrow> runtime \<Rightarrow>
     (('p, 'att) controller_output \<times> ('p, 'att) aesc \<times> runtime) option" where
  "aesc_batch new_request b rt = aesc_get_next_batch (b\<lparr>aesc_requests := aesc_requests b @ [new_request]\<rparr>) rt"

definition raise_timeouts :: "nat \<Rightarrow> duration \<Rightarrow> eso list \<Rightarrow> eso list" where
  "raise_timeouts i t es =
     take i es @ map (\<lambda>e. if eso_waiting_time e < t then e\<lparr>eso_waiting_time := t\<rparr> else e) (drop i es)"

definition lower_timeouts :: "nat \<Rightarrow> duration \<Rightarrow> eso list \<Rightarrow> eso list" where
  "lower_timeouts i t es =
     map (\<lambda>e. if t < eso_waiting_time e then e\<lparr>eso_waiting_time := t\<rparr> else e) (take i es) @ drop i es"

definition aesc_learn :: "nat \<Rightarrow> duration \<Rightarrow> ('p, 'att) aesc \<Rightarrow> runtime \<Rightarrow> (('p, 'att) aesc \<times> runtime) option" where
  "aesc_learn batch_size latency b rt =
     do {
       e \<leftarrow> index_vec (aesc_optimizers b) (batch_size - 1);
       let (update_direction, e, rt) = eso_update latency e rt;
       let es = (aesc_optimizers b)[batch_size - 1 := e];
       let new_timeout = eso_waiting_time e;
       let es = (case update_direction of
           Increasing \<Rightarrow> raise_timeouts (batch_size - 1) new_timeout es
         | Descreasing \<Rightarrow> lower_timeouts (batch_size - 1) new_timeout es);
       Some (b\<lparr>aesc_optimizers := es\<rparr>, rt)
     }"

definition aesc_update ::
    "('p, 'att) request_batch \<Rightarrow> ('p, 'att) aesc \<Rightarrow> runtime \<Rightarrow>
     (('p, 'att) controller_output \<times> ('p, 'att) aesc \<times> runtime) option" where
  "aesc_update batch b rt =
     (case batch of
        [] \<Rightarrow> aesc_get_next_batch b rt
      | req # _ \<Rightarrow>
          (case hm_get (aesc_issue_events b) (cr_client req, cr_id req) of
             None \<Rightarrow> aesc_get_next_batch b rt
           | Some issue_event \<Rightarrow> do {
               let b = b\<lparr>aesc_issue_events := hm_remove (cr_client req, cr_id req) (aesc_issue_events b)\<rparr>;
               let (now, rt) = instant_now rt;
               (b, rt) \<leftarrow> aesc_learn (length batch) (duration_since now issue_event) b rt;
               aesc_get_next_batch b rt
             }))"

section \<open>EMABatcher\<close>

record timeout_scheduler =
  ts_timeout_started :: "instant option"
  ts_timeout :: duration

definition timeout_scheduler_new :: timeout_scheduler where
  "timeout_scheduler_new = \<lparr>ts_timeout_started = None, ts_timeout = duration_max\<rparr>"

definition set_new_duration :: "duration \<Rightarrow> timeout_scheduler \<Rightarrow> timeout_scheduler" where
  "set_new_duration timeout s = s\<lparr>ts_timeout := timeout\<rparr>"

definition scheduler_timeout :: "timeout_scheduler \<Rightarrow> runtime \<Rightarrow> timeout \<times> timeout_scheduler \<times> runtime" where
  "scheduler_timeout s rt =
     (let (now, rt) = instant_now rt
      in case ts_timeout_started s of
           Some start_time \<Rightarrow> (timeout_batch (saturating_sub (ts_timeout s) (duration_since now start_time)), s, rt)
         | None \<Rightarrow> (timeout_batch (ts_timeout s), s\<lparr>ts_timeout_started := Some now\<rparr>, rt))"

record exponential_moving_average =
  ema_last_value :: "f32 option"
  ema_decay :: f32

definition ema_new :: "f32 \<Rightarrow> exponential_moving_average" where
  "ema_new decay = \<lparr>ema_last_value = None, ema_decay = decay\<rparr>"

definition ema_update :: "f32_ops \<Rightarrow> duration \<Rightarrow> exponential_moving_average \<Rightarrow> exponential_moving_average" where
  "ema_update F new_val a =
     (let secs = as_secs_f32 F new_val;
          previous = (case ema_last_value a of Some v \<Rightarrow> v | None \<Rightarrow> secs)
      in a\<lparr>ema_last_value := Some (f32_add F (f32_mul F (f32_sub F f32_one (ema_decay a)) previous)
             (f32_mul F (ema_decay a) secs))\<rparr>)"

record ('p, 'att) ema_batcher =
  emab_next_batch :: "('p, 'att) client_request list"
  emab_last_arrival :: instant
  emab_timeout_scheduler :: timeout_scheduler
  emab_max_batch_size :: nat
  emab_start_times :: "(batch_id, instant) hash_map"
  emab_mean_time_to_ordering :: exponential_moving_average
  emab_mean_time_between_arrivals :: exponential_moving_average

definition ema_batcher_new :: "f32 \<Rightarrow> f32 \<Rightarrow> runtime \<Rightarrow> (('p, 'att) ema_batcher \<times> runtime) option" where
  "ema_batcher_new commit_decay arrival_decay rt =
     do {
       rust_assert (f32_lt (rt_f32 rt) f32_zero commit_decay);
       rust_assert (f32_lt (rt_f32 rt) commit_decay f32_one);
       let (now, rt) = instant_now rt;
       Some (\<lparr>emab_next_batch = [], emab_last_arrival = now, emab_timeout_scheduler = timeout_scheduler_new,
              emab_max_batch_size = 1, emab_start_times = [],
              emab_mean_time_to_ordering = ema_new commit_decay,
              emab_mean_time_between_arrivals = ema_new arrival_decay\<rparr>, rt)
     }"

definition batch_id_of :: "('p, 'att) request_batch \<Rightarrow> batch_id option" where
  "batch_id_of batch = (case batch of [] \<Rightarrow> None | r # _ \<Rightarrow> Some (cr_client r, cr_id r))"

definition ema_get_next_batch ::
    "bool \<Rightarrow> ('p, 'att) ema_batcher \<Rightarrow> runtime \<Rightarrow>
     (('p, 'att) controller_output \<times> ('p, 'att) ema_batcher \<times> runtime) option" where
  "ema_get_next_batch timed_out b rt =
     (if emab_max_batch_size b \<le> length (emab_next_batch b) \<or> (emab_next_batch b \<noteq> [] \<and> timed_out)
      then do {
        let batch = emab_next_batch b;
        i \<leftarrow> batch_id_of batch;
        let (now, rt) = instant_now rt;
        Some ((Some batch, None),
              b\<lparr>emab_next_batch := [], emab_start_times := hm_insert i now (emab_start_times b)\<rparr>, rt)
      }
      else if emab_next_batch b \<noteq> []
      then (let (t, s, rt) = scheduler_timeout (emab_timeout_scheduler b) rt
            in Some ((None, Some t), b\<lparr>emab_timeout_scheduler := s\<rparr>, rt))
      else Some ((None, None), b, rt))"

definition adapt_batch_parameters :: "f32_ops \<Rightarrow> ('p, 'att) ema_batcher \<Rightarrow> ('p, 'att) ema_batcher option" where
  "adapt_batch_parameters F b =
     (case ema_last_value (emab_mean_time_between_arrivals b) of
        None \<Rightarrow> Some b
      | Some time_between_arrivals \<Rightarrow>
          (case ema_last_value (emab_mean_time_to_ordering b) of
             None \<Rightarrow> Some b
           | Some time_to_ordering \<Rightarrow>
               (let b = b\<lparr>emab_max_batch_size :=
                      f32_ceil_as_usize F (f32_div F time_to_ordering time_between_arrivals)\<rparr>
                in if f32_lt F time_to_ordering time_between_arrivals
                   then Some (b\<lparr>emab_max_batch_size := 1\<rparr>)
                   else do {
                     d \<leftarrow> from_secs_f32 F time_to_ordering;
                     Some (b\<lparr>emab_timeout_scheduler := set_new_duration d (emab_timeout_scheduler b)\<rparr>)
                   })))"

definition emab_batch ::
    "('p, 'att) client_request \<Rightarrow> ('p, 'att) ema_batcher \<Rightarrow> runtime \<Rightarrow>
     (('p, 'att) controller_output \<times> ('p, 'att) ema_batcher \<times> runtime) option" where
  "emab_batch request b rt =
     do {
       let b = b\<lparr>emab_next_batch := emab_next_batch b @ [request]\<rparr>;
       let (now, rt) = instant_now rt;
       let d = duration_since now (emab_last_arrival b);
       let b = b\<lparr>emab_last_arrival := now,
                 emab_mean_time_between_arrivals := ema_update (rt_f32 rt) d (emab_mean_time_between_arrivals b)\<rparr>;
       b \<leftarrow> adapt_batch_parameters (rt_f32 rt) b;
       ema_get_next_batch False b rt
     }"

definition emab_timeout ::
    "('p, 'att) ema_batcher \<Rightarrow> runtime \<Rightarrow> (('p, 'att) controller_output \<times> ('p, 'att) ema_batcher \<times> runtime) option" where
  "emab_timeout b rt = ema_get_next_batch True b rt"

definition emab_update ::
    "('p, 'att) request_batch \<Rightarrow> ('p, 'att) ema_batcher \<Rightarrow> runtime \<Rightarrow>
     (('p, 'att) controller_output \<times> ('p, 'att) ema_batcher \<times> runtime) option" where
  "emab_update commited_batch b rt =
     do {
       let (now, rt) = instant_now rt;
       i \<leftarrow> batch_id_of commited_batch;
       start \<leftarrow> hm_get (emab_start_times b) i;
       let b = b\<lparr>emab_start_times := hm_remove i (emab_start_times b)\<rparr>;
       let b = b\<lparr>emab_mean_time_to_ordering :=
           ema_update (rt_f32 rt) (duration_since now start) (emab_mean_time_to_ordering b)\<rparr>;
       b \<leftarrow> adapt_batch_parameters (rt_f32 rt) b;
       ema_get_next_batch False b rt
     }"

section \<open>The configured batcher\<close>

datatype ('p, 'att) request_batcher =
  RB_Trivial "('p, 'att) trivial_request_batcher"
| RB_AESC "('p, 'att) aesc"
| RB_EMA "('p, 'att) ema_batcher"

fun batcher_init :: "batch_configuration \<Rightarrow> runtime \<Rightarrow> (('p, 'att) request_batcher \<times> runtime) option" where
  "batcher_init (BC_Trivial batch_timeout max_batch_size) rt = Some (RB_Trivial (trivial_new batch_timeout max_batch_size), rt)"
| "batcher_init (BC_AESC max_batch_size max_inflight) rt = Some (RB_AESC (aesc_new max_batch_size max_inflight), rt)"
| "batcher_init (BC_EMA commit_decay arrival_decay) rt =
     do {
       (b, rt) \<leftarrow> ema_batcher_new commit_decay arrival_decay rt;
       Some (RB_EMA b, rt)
     }"

type_synonym ('p, 'att) batcher_result = "(('p, 'att) controller_output \<times> ('p, 'att) request_batcher \<times> runtime) option"

abbreviation batcher_result :: "('b \<Rightarrow> ('p, 'att) request_batcher) \<Rightarrow>
    (('p, 'att) controller_output \<times> 'b \<times> runtime) option \<Rightarrow> ('p, 'att) batcher_result" where
  "batcher_result K r \<equiv> map_option (\<lambda>(out, b, rt). (out, K b, rt)) r"

fun batcher_batch :: "('p, 'att) client_request \<Rightarrow> ('p, 'att) request_batcher \<Rightarrow> runtime \<Rightarrow> ('p, 'att) batcher_result" where
  "batcher_batch r (RB_Trivial b) rt = (case trivial_batch r b of (out, b) \<Rightarrow> Some (out, RB_Trivial b, rt))"
| "batcher_batch r (RB_AESC b) rt = batcher_result RB_AESC (aesc_batch r b rt)"
| "batcher_batch r (RB_EMA b) rt = batcher_result RB_EMA (emab_batch r b rt)"

fun batcher_timeout :: "('p, 'att) request_batcher \<Rightarrow> runtime \<Rightarrow> ('p, 'att) batcher_result" where
  "batcher_timeout (RB_Trivial b) rt = (case trivial_timeout b of (out, b) \<Rightarrow> Some (out, RB_Trivial b, rt))"
| "batcher_timeout (RB_AESC b) rt = batcher_result RB_AESC (aesc_get_next_batch b rt)"
| "batcher_timeout (RB_EMA b) rt = batcher_result RB_EMA (emab_timeout b rt)"

fun batcher_update :: "('p, 'att) request_batch \<Rightarrow> ('p, 'att) request_batcher \<Rightarrow> runtime \<Rightarrow> ('p, 'att) batcher_result" where
  "batcher_update batch (RB_Trivial b) rt = (case trivial_update batch b of (out, b) \<Rightarrow> Some (out, RB_Trivial b, rt))"
| "batcher_update batch (RB_AESC b) rt = batcher_result RB_AESC (aesc_update batch b rt)"
| "batcher_update batch (RB_EMA b) rt = batcher_result RB_EMA (emab_update batch b rt)"

section \<open>What the replica relies on\<close>

datatype 'r batcher_event = BE_Batch 'r | BE_Timeout | BE_Update "'r list"

fun offered :: "'r batcher_event list \<Rightarrow> 'r list" where
  "offered [] = []"
| "offered (BE_Batch r # es) = r # offered es"
| "offered (BE_Timeout # es) = offered es"
| "offered (BE_Update _ # es) = offered es"

definition emitted :: "'r list option \<Rightarrow> 'r list" where
  "emitted out = (case out of None \<Rightarrow> [] | Some batch \<Rightarrow> batch)"

fun run_batcher ::
    "('r \<Rightarrow> 'b \<Rightarrow> 'e \<Rightarrow> (('r list option \<times> 't) \<times> 'b \<times> 'e) option) \<Rightarrow>
     ('b \<Rightarrow> 'e \<Rightarrow> (('r list option \<times> 't) \<times> 'b \<times> 'e) option) \<Rightarrow>
     ('r list \<Rightarrow> 'b \<Rightarrow> 'e \<Rightarrow> (('r list option \<times> 't) \<times> 'b \<times> 'e) option) \<Rightarrow>
     'r batcher_event list \<Rightarrow> 'b \<Rightarrow> 'e \<Rightarrow> ('r list list \<times> 'b \<times> 'e) option" where
  "run_batcher batch timeout update [] b rt = Some ([], b, rt)"
| "run_batcher batch timeout update (e # es) b rt =
     do {
       ((out, _), b, rt) \<leftarrow> (case e of
           BE_Batch r \<Rightarrow> batch r b rt | BE_Timeout \<Rightarrow> timeout b rt | BE_Update x \<Rightarrow> update x b rt);
       (outs, b, rt) \<leftarrow> run_batcher batch timeout update es b rt;
       Some ((case out of None \<Rightarrow> outs | Some x \<Rightarrow> x # outs), b, rt)
     }"

locale fifo_batcher =
  fixes pending :: "'b \<Rightarrow> 'r list"
    and batch :: "'r \<Rightarrow> 'b \<Rightarrow> 'e \<Rightarrow> (('r list option \<times> 't) \<times> 'b \<times> 'e) option"
    and timeout :: "'b \<Rightarrow> 'e \<Rightarrow> (('r list option \<times> 't) \<times> 'b \<times> 'e) option"
    and update :: "'r list \<Rightarrow> 'b \<Rightarrow> 'e \<Rightarrow> (('r list option \<times> 't) \<times> 'b \<times> 'e) option"
  assumes batch_fifo: "batch r b rt = Some ((out, t), b', rt') \<Longrightarrow>
      emitted out @ pending b' = pending b @ [r] \<and> out \<noteq> Some []"
    and timeout_fifo: "timeout b rt = Some ((out, t), b', rt') \<Longrightarrow>
      emitted out @ pending b' = pending b \<and> out \<noteq> Some []"
    and update_fifo: "update x b rt = Some ((out, t), b', rt') \<Longrightarrow>
      emitted out @ pending b' = pending b \<and> out \<noteq> Some []"
begin

lemma run_fifo:
  "run_batcher batch timeout update es b rt = Some (outs, b', rt') \<Longrightarrow>
     concat outs @ pending b' = pending b @ offered es \<and> [] \<notin> set outs"
proof (induction es arbitrary: b rt outs)
  case (Cons e es)
  from Cons.prems obtain out t b1 rt1 outs1
    where step: "(case e of BE_Batch r \<Rightarrow> batch r b rt | BE_Timeout \<Rightarrow> timeout b rt | BE_Update x \<Rightarrow> update x b rt)
        = Some ((out, t), b1, rt1)"
      and rest: "run_batcher batch timeout update es b1 rt1 = Some (outs1, b', rt')"
      and outs: "outs = (case out of None \<Rightarrow> outs1 | Some x \<Rightarrow> x # outs1)"
    by (auto split: Option.bind_splits)
  have "emitted out @ pending b1 @ offered es = pending b @ offered (e # es) \<and> out \<noteq> Some []"
  proof (cases e)
    case (BE_Batch r)
    then have "emitted out @ pending b1 = pending b @ [r] \<and> out \<noteq> Some []" using step batch_fifo by simp
    then have "(emitted out @ pending b1) @ offered es = (pending b @ [r]) @ offered es \<and> out \<noteq> Some []" by simp
    then show ?thesis using BE_Batch by simp
  next
    case BE_Timeout
    then have "emitted out @ pending b1 = pending b \<and> out \<noteq> Some []" using step timeout_fifo by simp
    then show ?thesis using BE_Timeout by (metis append_assoc offered.simps(3))
  next
    case (BE_Update x)
    then have "emitted out @ pending b1 = pending b \<and> out \<noteq> Some []" using step update_fifo by simp
    then show ?thesis using BE_Update by (metis append_assoc offered.simps(4))
  qed
  with Cons.IH [OF rest] outs show ?case by (auto simp: emitted_def split: option.splits)
qed simp

end

section \<open>The batchers keep the order of the requests\<close>

lemma trivial_fifo:
  "trivial_batch r b = ((out, t), b') \<Longrightarrow> emitted out @ trb_next_batch b' = trb_next_batch b @ [r] \<and> out \<noteq> Some []"
  "trivial_timeout b = ((out, t), b') \<Longrightarrow> emitted out @ trb_next_batch b' = trb_next_batch b \<and> out \<noteq> Some []"
  "trivial_update x b = ((out, t), b') \<Longrightarrow> emitted out @ trb_next_batch b' = trb_next_batch b \<and> out \<noteq> Some []"
  by (auto simp: trivial_batch_def trivial_timeout_def trivial_update_def emitted_def Let_def split: option.splits if_splits)

lemma aesc_get_next_batch_fifo:
  assumes "aesc_get_next_batch b rt = Some ((out, t), b', rt')"
  shows "emitted out @ aesc_requests b' = aesc_requests b \<and> out \<noteq> Some []"
proof -
  let ?k = "min (length (aesc_optimizers b)) (length (aesc_requests b))"
  have "(\<exists>r rs. take ?k (aesc_requests b) = r # rs \<and> out = Some (r # rs) \<and> aesc_requests b' = drop ?k (aesc_requests b)) \<or>
      out = None \<and> b' = b"
    using assms by (auto simp: aesc_get_next_batch_def Let_def split: if_splits Option.bind_splits prod.splits list.splits)
  moreover have "take ?k (aesc_requests b) @ drop ?k (aesc_requests b) = aesc_requests b" by (rule append_take_drop_id)
  ultimately show ?thesis unfolding emitted_def by fastforce
qed

lemma aesc_learn_requests: "aesc_learn k d b rt = Some (b', rt') \<Longrightarrow> aesc_requests b' = aesc_requests b"
  by (auto simp: aesc_learn_def Let_def split: Option.bind_splits prod.splits)

lemma aesc_update_fifo:
  assumes "aesc_update x b rt = Some ((out, t), b', rt')"
  shows "emitted out @ aesc_requests b' = aesc_requests b \<and> out \<noteq> Some []"
proof -
  obtain b1 rt1 where "aesc_get_next_batch b1 rt1 = Some ((out, t), b', rt')" "aesc_requests b1 = aesc_requests b"
    using assms by (auto simp: aesc_update_def Let_def dest!: aesc_learn_requests
        split: list.splits option.splits Option.bind_splits prod.splits)
  then show ?thesis using aesc_get_next_batch_fifo by fastforce
qed

lemma ema_get_next_batch_fifo:
  "ema_get_next_batch f b rt = Some ((out, t), b', rt') \<Longrightarrow>
     emitted out @ emab_next_batch b' = emab_next_batch b \<and> out \<noteq> Some []"
  by (auto simp: ema_get_next_batch_def Let_def emitted_def batch_id_of_def
      split: if_splits Option.bind_splits prod.splits list.splits)

lemma adapt_batch_parameters_frame [simp]:
  "adapt_batch_parameters F b = Some b' \<Longrightarrow>
     emab_next_batch b' = emab_next_batch b \<and> emab_start_times b' = emab_start_times b"
  by (auto simp: adapt_batch_parameters_def Let_def split: option.splits if_splits Option.bind_splits)

lemma emab_fifo:
  "emab_batch r b rt = Some ((out, t), b', rt') \<Longrightarrow>
     emitted out @ emab_next_batch b' = emab_next_batch b @ [r] \<and> out \<noteq> Some []"
  "emab_timeout b rt = Some ((out, t), b', rt') \<Longrightarrow> emitted out @ emab_next_batch b' = emab_next_batch b \<and> out \<noteq> Some []"
  "emab_update x b rt = Some ((out, t), b', rt') \<Longrightarrow> emitted out @ emab_next_batch b' = emab_next_batch b \<and> out \<noteq> Some []"
  by (auto simp: emab_batch_def emab_timeout_def emab_update_def Let_def
      dest!: ema_get_next_batch_fifo adapt_batch_parameters_frame split: Option.bind_splits prod.splits)

interpretation aesc: fifo_batcher aesc_requests aesc_batch aesc_get_next_batch aesc_update
proof (unfold_locales, goal_cases)
  case (1 r b rt out t b' rt')
  then show ?case using aesc_get_next_batch_fifo unfolding aesc_batch_def by fastforce
qed (fact aesc_get_next_batch_fifo, fact aesc_update_fifo)

fun batcher_pending :: "('p, 'att) request_batcher \<Rightarrow> ('p, 'att) client_request list" where
  "batcher_pending (RB_Trivial b) = trb_next_batch b"
| "batcher_pending (RB_AESC b) = aesc_requests b"
| "batcher_pending (RB_EMA b) = emab_next_batch b"

interpretation configured: fifo_batcher batcher_pending batcher_batch batcher_timeout batcher_update
proof (unfold_locales, goal_cases)
  case (1 r b rt out t b' rt')
  then show ?case by (cases b) (auto dest: trivial_fifo(1) aesc.batch_fifo emab_fifo(1) split: prod.splits)
next
  case (2 b rt out t b' rt')
  then show ?case by (cases b) (auto dest: trivial_fifo(2) aesc.timeout_fifo emab_fifo(2) split: prod.splits)
next
  case (3 x b rt out t b' rt')
  then show ?case by (cases b) (auto dest: trivial_fifo(3) aesc.update_fifo emab_fifo(3) split: prod.splits)
qed

lemma batcher_init_pending: "batcher_init c rt = Some (b, rt') \<Longrightarrow> batcher_pending b = []"
  by (cases c) (auto simp: trivial_new_def aesc_new_def ema_batcher_new_def Let_def
      split: Option.bind_splits prod.splits)

text \<open>
  Claim C21. Whichever batcher is configured, and in whatever order requests arrive, batch timeouts
  fire and batches are reported as committed: as long as the batcher does not panic, the batches it
  issues are not empty and, one after the other and followed by the requests it still holds, are
  exactly the requests it was given, in the order in which they were given.
\<close>

theorem batcher_keeps_requests_in_order:
  assumes "batcher_init c rt = Some (b, rt1)"
    and "run_batcher batcher_batch batcher_timeout batcher_update events b rt1 = Some (batches, b', rt2)"
  shows "concat batches @ batcher_pending b' = offered events \<and> [] \<notin> set batches"
  using configured.run_fifo [OF assms(2)] batcher_init_pending [OF assms(1)] by simp

definition sample_request :: "client_id \<Rightarrow> request_id \<Rightarrow> (bytes, dummy_attestation) client_request" where
  "sample_request c i = \<lparr>cr_client = c, cr_payload = WRP_Client i []\<rparr>"

definition sample_runtime :: runtime where
  "sample_runtime = \<lparr>rt_clock = (\<lambda>i. i), rt_clock_pos = 0, rt_rng = (\<lambda>_. 0), rt_rng_pos = 0,
     rt_f32 = \<lparr>f32_add = (\<lambda>a b. a), f32_sub = (\<lambda>a b. a), f32_mul = (\<lambda>a b. a), f32_div = (\<lambda>a b. a), f32_lt = (<),
       f32_ceil_as_usize = unat, as_secs_f32 = of_nat, from_secs_f32 = (\<lambda>x. Some (unat x))\<rparr>\<rparr>"

theorem batcher_keeps_requests_in_order_witness:
  "\<exists>b rt1 batches b' rt2. batcher_init (BC_Trivial 5 (Some 2)) sample_runtime = Some (b, rt1) \<and>
     run_batcher batcher_batch batcher_timeout batcher_update
       [BE_Batch (sample_request 1 0), BE_Batch (sample_request 2 0), BE_Timeout, BE_Batch (sample_request 1 1)] b rt1 =
         Some (batches, b', rt2) \<and>
     concat batches @ batcher_pending b' = [sample_request 1 0, sample_request 2 0, sample_request 1 1]"
proof -
  let ?c = "BC_Trivial 5 (Some 2)"
  let ?b = "RB_Trivial (trivial_new 5 (Some 2))"
  let ?es = "[BE_Batch (sample_request 1 0), BE_Batch (sample_request 2 0), BE_Timeout, BE_Batch (sample_request 1 1)]"
  have init: "batcher_init ?c sample_runtime = Some (?b, sample_runtime)" by simp
  obtain batches b' rt2 where run: "run_batcher batcher_batch batcher_timeout batcher_update ?es ?b sample_runtime =
      Some (batches, b', rt2)"
    by (simp add: trivial_batch_def trivial_timeout_def trivial_new_def Let_def)
  from batcher_keeps_requests_in_order [OF init run] init run show ?thesis by auto
qed

section \<open>AESC\<close>

definition aesc_ok :: "nat \<Rightarrow> nat \<Rightarrow> ('p, 'att) aesc \<Rightarrow> bool" where
  "aesc_ok k m b \<longleftrightarrow> length (aesc_optimizers b) = k \<and> sorted (map eso_waiting_time (aesc_optimizers b)) \<and>
     aesc_max_inflight b = m \<and> length (aesc_issue_events b) \<le> m"

fun event_size_ok :: "nat \<Rightarrow> 'r batcher_event \<Rightarrow> bool" where
  "event_size_ok k (BE_Update x) \<longleftrightarrow> length x \<le> k"
| "event_size_ok k _ \<longleftrightarrow> True"

lemma length_adjusted [simp]:
  "length (raise_timeouts i t es) = length es" "length (lower_timeouts i t es) = length es"
  by (simp_all add: raise_timeouts_def lower_timeouts_def)

lemma nth_raise_timeouts:
  "j < length es \<Longrightarrow> eso_waiting_time (raise_timeouts i t es ! j) =
     (if j < i then eso_waiting_time (es ! j) else max t (eso_waiting_time (es ! j)))"
  by (auto simp: raise_timeouts_def nth_append min_def max_def)

lemma nth_lower_timeouts:
  "j < length es \<Longrightarrow> eso_waiting_time (lower_timeouts i t es ! j) =
     (if j < i then min t (eso_waiting_time (es ! j)) else eso_waiting_time (es ! j))"
  by (auto simp: lower_timeouts_def nth_append min_def)

lemma sorted_raise_timeouts:
  assumes "sorted (map eso_waiting_time es)" "i < length es" "eso_waiting_time (es ! i) \<le> eso_waiting_time e"
  shows "sorted (map eso_waiting_time (raise_timeouts i (eso_waiting_time e) (es[i := e])))"
proof -
  have mono: "eso_waiting_time (es ! j) \<le> eso_waiting_time (es ! k)" if "j \<le> k" "k < length es" for j k
    using sorted_nth_mono [OF assms(1), of j k] that by simp
  show ?thesis unfolding sorted_iff_nth_mono
  proof (intro allI impI)
    fix j k assume "j \<le> k" "k < length (map eso_waiting_time (raise_timeouts i (eso_waiting_time e) (es[i := e])))"
    then show "map eso_waiting_time (raise_timeouts i (eso_waiting_time e) (es[i := e])) ! j \<le>
        map eso_waiting_time (raise_timeouts i (eso_waiting_time e) (es[i := e])) ! k"
      using mono [of j k] mono [of j i] assms(2,3) by (auto simp: nth_raise_timeouts nth_list_update max_def)
  qed
qed

lemma sorted_lower_timeouts:
  assumes "sorted (map eso_waiting_time es)" "i < length es" "eso_waiting_time e \<le> eso_waiting_time (es ! i)"
  shows "sorted (map eso_waiting_time (lower_timeouts i (eso_waiting_time e) (es[i := e])))"
proof -
  have mono: "eso_waiting_time (es ! j) \<le> eso_waiting_time (es ! k)" if "j \<le> k" "k < length es" for j k
    using sorted_nth_mono [OF assms(1), of j k] that by simp
  show ?thesis unfolding sorted_iff_nth_mono
  proof (intro allI impI)
    fix j k assume "j \<le> k" "k < length (map eso_waiting_time (lower_timeouts i (eso_waiting_time e) (es[i := e])))"
    then show "map eso_waiting_time (lower_timeouts i (eso_waiting_time e) (es[i := e])) ! j \<le>
        map eso_waiting_time (lower_timeouts i (eso_waiting_time e) (es[i := e])) ! k"
      using mono [of j k] mono [of i k] assms(2,3) by (auto simp: nth_lower_timeouts nth_list_update min_def)
  qed
qed

lemma eso_update_waiting:
  assumes "eso_update d e rt = (dir, e', rt')"
  shows "dir = Increasing \<longrightarrow> eso_waiting_time e \<le> duration_max \<longrightarrow> eso_waiting_time e \<le> eso_waiting_time e'"
    and "dir = Descreasing \<longrightarrow> eso_waiting_time e' \<le> eso_waiting_time e"
    and "eso_waiting_time e \<le> duration_max \<longrightarrow> eso_waiting_time e' \<le> duration_max"
  using assms
  by (auto simp: eso_update_def Let_def saturating_add_def saturating_sub_def split: prod.splits if_splits)

definition aesc_inv :: "nat \<Rightarrow> nat \<Rightarrow> ('p, 'att) aesc \<Rightarrow> bool" where
  "aesc_inv k m b \<longleftrightarrow> aesc_ok k m b \<and> (\<forall>e \<in> set (aesc_optimizers b). eso_waiting_time e \<le> duration_max)"

lemma aesc_learn_ok:
  assumes "aesc_inv k m b" "0 < s" "s \<le> k"
  shows "\<exists>b' rt'. aesc_learn s d b rt = Some (b', rt') \<and> aesc_inv k m b' \<and> aesc_issue_events b' = aesc_issue_events b"
proof -
  let ?es = "aesc_optimizers b"
  have i: "s - 1 < length ?es" and sorted: "sorted (map eso_waiting_time ?es)"
    using assms by (auto simp: aesc_inv_def aesc_ok_def)
  have bound: "eso_waiting_time (?es ! j) \<le> duration_max" if "j < length ?es" for j
    using assms(1) that by (simp add: aesc_inv_def)
  obtain dir e rt' where u: "eso_update d (?es ! (s - 1)) rt = (dir, e, rt')" by (cases "eso_update d (?es ! (s - 1)) rt")
  note w = eso_update_waiting [OF u]
  let ?es' = "case dir of Increasing \<Rightarrow> raise_timeouts (s - 1) (eso_waiting_time e) (?es[s - 1 := e])
    | Descreasing \<Rightarrow> lower_timeouts (s - 1) (eso_waiting_time e) (?es[s - 1 := e])"
  have "sorted (map eso_waiting_time ?es')"
    using sorted_raise_timeouts [OF sorted i, of e] sorted_lower_timeouts [OF sorted i, of e] w bound [OF i]
    by (cases dir) auto
  moreover have "eso_waiting_time (?es' ! j) \<le> duration_max" if "j < length ?es" for j
    using that w(3) bound [OF i] bound [OF that]
    by (cases dir) (auto simp: nth_raise_timeouts nth_lower_timeouts nth_list_update)
  moreover have "length ?es' = length ?es" by (cases dir) auto
  ultimately have "aesc_inv k m (b\<lparr>aesc_optimizers := ?es'\<rparr>)"
    using assms(1) by (auto simp: aesc_inv_def aesc_ok_def in_set_conv_nth)
  moreover have "aesc_learn s d b rt = Some (b\<lparr>aesc_optimizers := ?es'\<rparr>, rt')"
    using i by (simp add: aesc_learn_def index_vec_def u Let_def del: One_nat_def)
  ultimately show ?thesis by simp
qed

lemma length_insert_le: "length (hm_insert x v h) \<le> Suc (length h)"
  by (simp add: hm_length_insert)

lemma aesc_get_next_batch_ok:
  assumes "aesc_inv k m b" "0 < k"
  shows "\<exists>out t b' rt'. aesc_get_next_batch b rt = Some ((out, t), b', rt') \<and> aesc_inv k m b' \<and> length (emitted out) \<le> k"
proof (cases "aesc_requests b = [] \<or> aesc_max_inflight b \<le> length (aesc_issue_events b)")
  case True
  with assms show ?thesis by (auto simp: aesc_get_next_batch_def emitted_def)
next
  case False
  have es: "aesc_optimizers b \<noteq> []" using assms by (auto simp: aesc_inv_def aesc_ok_def)
  then have "aesc_optimizer b \<noteq> None" by (simp add: aesc_optimizer_def split: option.splits list.splits)
  then obtain e where e: "aesc_optimizer b = Some e" by blast
  obtain since rt1 where since: "time_since_last (aesc_last_batch b) rt = (since, rt1)" by fastforce
  show ?thesis
  proof (cases "eso_waiting_time e \<le> since")
    case True
    let ?k = "min (length (aesc_optimizers b)) (length (aesc_requests b))"
    obtain r rs where batch: "take ?k (aesc_requests b) = r # rs"
      using False es by (cases "take ?k (aesc_requests b)") (auto simp: min_def split: if_splits)
    obtain now rt2 where now: "instant_now rt1 = (now, rt2)" by fastforce
    let ?b = "b\<lparr>aesc_requests := drop ?k (aesc_requests b), aesc_last_batch := Some now,
      aesc_issue_events := hm_insert (cr_client r, cr_id r) now (aesc_issue_events b)\<rparr>"
    have "aesc_get_next_batch b rt = Some ((Some (r # rs), None), ?b, rt2)"
      using False e since True batch now by (simp add: aesc_get_next_batch_def Let_def)
    moreover have "aesc_inv k m ?b"
      using assms(1) False length_insert_le [of "(cr_client r, cr_id r)" now "aesc_issue_events b"]
      by (simp add: aesc_inv_def aesc_ok_def)
    moreover have "length (emitted (Some (r # rs))) \<le> k"
      using arg_cong [OF batch, of length] assms(1) by (simp add: emitted_def aesc_inv_def aesc_ok_def)
    ultimately show ?thesis by blast
  next
    case False
    then have "aesc_get_next_batch b rt = Some ((None, Some (timeout_batch (saturating_sub (eso_waiting_time e) since))), b, rt1)"
      using \<open>\<not> (aesc_requests b = [] \<or> aesc_max_inflight b \<le> length (aesc_issue_events b))\<close> e since
      by (simp add: aesc_get_next_batch_def)
    with assms show ?thesis by (auto simp: emitted_def)
  qed
qed

lemma aesc_step_ok:
  assumes "aesc_inv k m b" "0 < k" "event_size_ok k e"
  shows "\<exists>out t b' rt'. (case e of BE_Batch r \<Rightarrow> aesc_batch r b rt | BE_Timeout \<Rightarrow> aesc_get_next_batch b rt
      | BE_Update x \<Rightarrow> aesc_update x b rt) = Some ((out, t), b', rt') \<and> aesc_inv k m b' \<and> length (emitted out) \<le> k"
proof (cases e)
  case (BE_Batch r)
  have "aesc_inv k m (b\<lparr>aesc_requests := aesc_requests b @ [r]\<rparr>)" using assms(1) by (simp add: aesc_inv_def aesc_ok_def)
  with BE_Batch show ?thesis using aesc_get_next_batch_ok assms(2) by (simp add: aesc_batch_def)
next
  case BE_Timeout
  with assms show ?thesis using aesc_get_next_batch_ok by simp
next
  case (BE_Update x)
  show ?thesis
  proof (cases "\<exists>r rs ev. x = r # rs \<and> hm_get (aesc_issue_events b) (cr_client r, cr_id r) = Some ev")
    case True
    then obtain r rs ev where x: "x = r # rs" "hm_get (aesc_issue_events b) (cr_client r, cr_id r) = Some ev" by blast
    let ?b = "b\<lparr>aesc_issue_events := hm_remove (cr_client r, cr_id r) (aesc_issue_events b)\<rparr>"
    obtain now rt1 where now: "instant_now rt = (now, rt1)" by fastforce
    have "aesc_inv k m ?b" using assms(1) length_delete_le [of "(cr_client r, cr_id r)" "aesc_issue_events b"]
      by (simp add: aesc_inv_def aesc_ok_def)
    from aesc_learn_ok [OF this, of "length x"] obtain b1 rt2
      where "aesc_learn (length x) (duration_since now ev) ?b rt1 = Some (b1, rt2)" "aesc_inv k m b1"
      using assms(3) BE_Update x(1) by fastforce
    with aesc_get_next_batch_ok [OF this(2) assms(2), of rt2] show ?thesis using BE_Update x now by (simp add: aesc_update_def)
  next
    case False
    then have "aesc_update x b rt = aesc_get_next_batch b rt"
      by (auto simp: aesc_update_def split: list.splits option.splits)
    with BE_Update assms show ?thesis using aesc_get_next_batch_ok by simp
  qed
qed

lemma aesc_run_ok:
  assumes "aesc_inv k m b" "0 < k" "list_all (event_size_ok k) es"
  shows "\<exists>outs b' rt'. run_batcher aesc_batch aesc_get_next_batch aesc_update es b rt = Some (outs, b', rt') \<and>
    aesc_inv k m b' \<and> list_all (\<lambda>x. length x \<le> k) outs"
  using assms(1,3)
proof (induction es arbitrary: b rt)
  case (Cons e es)
  from aesc_step_ok [OF Cons.prems(1) assms(2), of e rt] Cons.prems(2) obtain out t b1 rt1
    where step: "(case e of BE_Batch r \<Rightarrow> aesc_batch r b rt | BE_Timeout \<Rightarrow> aesc_get_next_batch b rt
      | BE_Update x \<Rightarrow> aesc_update x b rt) = Some ((out, t), b1, rt1)" "aesc_inv k m b1" "length (emitted out) \<le> k" by auto
  from Cons.IH [OF step(2), of rt1] Cons.prems(2) obtain outs b' rt'
    where rest: "run_batcher aesc_batch aesc_get_next_batch aesc_update es b1 rt1 = Some (outs, b', rt')"
      "aesc_inv k m b'" "list_all (\<lambda>x. length x \<le> k) outs" by auto
  let ?outs = "case out of None \<Rightarrow> outs | Some x \<Rightarrow> x # outs"
  have "run_batcher aesc_batch aesc_get_next_batch aesc_update (e # es) b rt = Some (?outs, b', rt')"
    using step(1) rest(1) by simp
  moreover have "list_all (\<lambda>x. length x \<le> k) ?outs" using step(3) rest(3) by (cases out) (simp_all add: emitted_def)
  ultimately show ?case using rest(2) by blast
qed simp

lemma aesc_inv_new: "aesc_inv k m (aesc_new k m)"
  by (simp add: aesc_inv_def aesc_ok_def aesc_new_def eso_new_def map_replicate)

text \<open>
  Claim C22. An AESC batcher never panics as long as the batches reported to it as committed are not
  larger than its maximum batch size. It never issues a larger batch, never has more batches in
  flight than configured, and keeps the waiting times of its optimizers monotone in the batch size,
  whatever the latencies and the random perturbations are.
\<close>

theorem aesc_invariant:
  assumes "0 < max_batch_size" "list_all (event_size_ok max_batch_size) events"
  shows "\<exists>batches b rt'. run_batcher aesc_batch aesc_get_next_batch aesc_update events
      (aesc_new max_batch_size max_inflight) rt = Some (batches, b, rt') \<and>
    list_all (\<lambda>batch. length batch \<le> max_batch_size) batches \<and> length (aesc_issue_events b) \<le> max_inflight \<and>
    length (aesc_optimizers b) = max_batch_size \<and> sorted (map eso_waiting_time (aesc_optimizers b))"
  using aesc_run_ok [OF aesc_inv_new assms, of max_inflight rt] by (auto simp: aesc_inv_def aesc_ok_def)

theorem aesc_invariant_witness:
  "\<exists>batches b rt'. run_batcher aesc_batch aesc_get_next_batch aesc_update
      [BE_Batch (sample_request 1 0), BE_Update [sample_request 1 0], BE_Batch (sample_request 2 0), BE_Timeout]
      (aesc_new 2 1) sample_runtime = Some (batches, b, rt') \<and>
    length (aesc_issue_events b) \<le> 1 \<and> sorted (map eso_waiting_time (aesc_optimizers b))"
  using aesc_invariant [of 2 "[BE_Batch (sample_request 1 0), BE_Update [sample_request 1 0],
    BE_Batch (sample_request 2 0), BE_Timeout]" 1 sample_runtime] by auto

end
