(* ===== verification/Minbft_Output.thy ===== *)
theory Minbft_Output
  imports Minbft_Validate Batchers
begin

text \<open>
  The output of a replica (\<^verbatim>\<open>minbft/src/output.rs\<close>): \<open>NotReflectedOutput\<close>, which the handlers fill, the
  loop of \<open>reflect\<close> that lets the replica process its own broadcasts, and the final \<open>Output\<close>.

  A \<open>PeerMessage\<close> wraps a \<open>ValidatedPeerMessage\<close>; both are the datatype of validated messages. The loop
  of \<open>reflect\<close> may run forever, which is \<open>None\<close>, as is a panic of the processing it calls. The trait
  \<open>Reflectable\<close> is the locale \<open>reflectable\<close>.
\<close>

section \<open>NotReflectedOutput\<close>

record ('p, 'sig, 'att) not_reflected_output =
  nro_broadcasts :: "('p, 'sig, 'att) validated_peer_message list"
  nro_direct_messages :: "(replica_id \<times> ('p, 'sig, 'att) validated_peer_message) list"
  nro_responses :: "(client_id \<times> ('p, 'att) wrapped_request_payload) list"
  nro_timeout_requests :: "timeout_request list"
  nro_errors :: "error list"
  nro_ready_for_client_requests :: bool
  nro_round_times :: "instant list"

definition out_new :: "bool \<Rightarrow> ('p, 'sig, 'att) not_reflected_output" where
  "out_new ready = \<lparr>nro_broadcasts = [], nro_direct_messages = [], nro_responses = [], nro_timeout_requests = [],
     nro_errors = [], nro_ready_for_client_requests = ready, nro_round_times = []\<rparr>"

definition out_broadcast ::
    "('p, 'sig, 'att) validated_peer_message \<Rightarrow> ('p, 'sig, 'att) usig_message list \<Rightarrow>
     ('p, 'sig, 'att) not_reflected_output \<Rightarrow>
     ('p, 'sig, 'att) usig_message list \<times> ('p, 'sig, 'att) not_reflected_output" where
  "out_broadcast message message_log out =
     ((case message of PM_Usig msg \<Rightarrow> message_log @ [msg] | _ \<Rightarrow> message_log),
      out\<lparr>nro_broadcasts := nro_broadcasts out @ [message]\<rparr>)"

definition out_send ::
    "('p, 'sig, 'att) validated_peer_message \<Rightarrow> replica_id \<Rightarrow> ('p, 'sig, 'att) not_reflected_output \<Rightarrow>
     ('p, 'sig, 'att) not_reflected_output option" where
  "out_send message receiver out =
     (case message of
        PM_Usig _ \<Rightarrow> None
      | _ \<Rightarrow> Some (out\<lparr>nro_direct_messages := nro_direct_messages out @ [(receiver, message)]\<rparr>))"

definition out_response ::
    "client_id \<Rightarrow> ('p, 'att) wrapped_request_payload \<Rightarrow> ('p, 'sig, 'att) not_reflected_output \<Rightarrow>
     ('p, 'sig, 'att) not_reflected_output" where
  "out_response client output out = out\<lparr>nro_responses := nro_responses out @ [(client, output)]\<rparr>"

definition out_timeout_request ::
    "timeout_request \<Rightarrow> ('p, 'sig, 'att) not_reflected_output \<Rightarrow> ('p, 'sig, 'att) not_reflected_output" where
  "out_timeout_request t out = out\<lparr>nro_timeout_requests := nro_timeout_requests out @ [t]\<rparr>"

definition out_error :: "error \<Rightarrow> ('p, 'sig, 'att) not_reflected_output \<Rightarrow> ('p, 'sig, 'att) not_reflected_output" where
  "out_error e out = out\<lparr>nro_errors := nro_errors out @ [e]\<rparr>"

definition process_usig_error ::
    "usig_error \<Rightarrow> replica_id \<Rightarrow> string \<Rightarrow> ('p, 'sig, 'att) not_reflected_output \<Rightarrow>
     ('p, 'sig, 'att) not_reflected_output" where
  "process_usig_error e replica msg_type out = out_error (E_Usig replica msg_type e) out"

definition out_ready_for_client_requests ::
    "('p, 'sig, 'att) not_reflected_output \<Rightarrow> ('p, 'sig, 'att) not_reflected_output" where
  "out_ready_for_client_requests out = out\<lparr>nro_ready_for_client_requests := True\<rparr>"

definition log_round_change ::
    "('p, 'sig, 'att) not_reflected_output \<Rightarrow> runtime \<Rightarrow> ('p, 'sig, 'att) not_reflected_output \<times> runtime" where
  "log_round_change out rt =
     (let (now, rt) = instant_now rt in (out\<lparr>nro_round_times := nro_round_times out @ [now]\<rparr>, rt))"

section \<open>Reflecting\<close>

datatype view_info = VI_InView u64 | VI_ViewChange u64 u64

record ('p, 'sig, 'att) replica_output =
  o_broadcasts :: "('p, 'sig, 'att) validated_peer_message list"
  o_direct_messages :: "(replica_id \<times> ('p, 'sig, 'att) validated_peer_message) list"
  o_responses :: "(client_id \<times> ('p, 'att) wrapped_request_payload) list"
  o_timeout_requests :: "timeout_request list"
  o_errors :: "error list"
  o_ready_for_client_requests :: bool
  o_primary :: "replica_id option"
  o_view_info :: view_info
  o_round :: u64
  o_round_times :: "instant list"

partial_function (option) reflect_loop ::
    "(('p, 'sig, 'att) validated_peer_message \<Rightarrow> 's \<times> ('p, 'sig, 'att) not_reflected_output \<Rightarrow>
      ('s \<times> ('p, 'sig, 'att) not_reflected_output) option) \<Rightarrow>
     nat \<Rightarrow> 's \<times> ('p, 'sig, 'att) not_reflected_output \<Rightarrow> ('s \<times> ('p, 'sig, 'att) not_reflected_output) option" where
  "reflect_loop process last_len s =
     (let cur_len = length (nro_broadcasts (snd s))
      in if last_len = cur_len then Some s
         else do {
           s \<leftarrow> fold_opt process (drop last_len (nro_broadcasts (snd s))) s;
           reflect_loop process cur_len s
         })"

definition to_output ::
    "replica_id option \<Rightarrow> view_info \<Rightarrow> u64 \<Rightarrow> ('p, 'sig, 'att) not_reflected_output \<Rightarrow> ('p, 'sig, 'att) replica_output" where
  "to_output prim vi round out =
     \<lparr>o_broadcasts = nro_broadcasts out, o_direct_messages = nro_direct_messages out, o_responses = nro_responses out,
      o_timeout_requests = nro_timeout_requests out, o_errors = nro_errors out,
      o_ready_for_client_requests = nro_ready_for_client_requests out, o_primary = prim, o_view_info = vi,
      o_round = round, o_round_times = nro_round_times out\<rparr>"

definition out_reflect ::
    "(('p, 'sig, 'att) validated_peer_message \<Rightarrow> 's \<times> ('p, 'sig, 'att) not_reflected_output \<Rightarrow>
      ('s \<times> ('p, 'sig, 'att) not_reflected_output) option) \<Rightarrow>
     ('s \<Rightarrow> replica_id option) \<Rightarrow> ('s \<Rightarrow> view_info) \<Rightarrow> ('s \<Rightarrow> u64) \<Rightarrow>
     's \<times> ('p, 'sig, 'att) not_reflected_output \<Rightarrow> ('s \<times> ('p, 'sig, 'att) replica_output) option" where
  "out_reflect process current_primary info round s =
     do {
       (r, out) \<leftarrow> reflect_loop process 0 s;
       Some (r, to_output (current_primary r) (info r) (round r) out)
     }"

section \<open>What reflecting does\<close>

text \<open>
  A participant may add broadcasts while it processes a message, and never removes one. Then reflecting
  is the same as processing all the broadcasts there are in the end, one after the other.
\<close>

locale reflectable =
  fixes process :: "('p, 'sig, 'att) validated_peer_message \<Rightarrow> 's \<times> ('p, 'sig, 'att) not_reflected_output \<Rightarrow>
      ('s \<times> ('p, 'sig, 'att) not_reflected_output) option"
  assumes process_appends: "process m s = Some s' \<Longrightarrow> \<exists>ms. nro_broadcasts (snd s') = nro_broadcasts (snd s) @ ms"
begin

lemma fold_process_appends:
  "fold_opt process xs s = Some s' \<Longrightarrow> \<exists>ms. nro_broadcasts (snd s') = nro_broadcasts (snd s) @ ms"
proof (induction xs arbitrary: s)
  case (Cons x xs)
  then obtain s1 where s1: "process x s = Some s1" "fold_opt process xs s1 = Some s'" by (auto split: Option.bind_splits)
  from process_appends [OF s1(1)] Cons.IH [OF s1(2)] show ?case by auto
qed simp

definition reflected :: "nat \<Rightarrow> 's \<times> ('p, 'sig, 'att) not_reflected_output \<Rightarrow> 's \<times> ('p, 'sig, 'att) not_reflected_output \<Rightarrow> bool" where
  "reflected k s s' \<longleftrightarrow> fold_opt process (drop k (nro_broadcasts (snd s'))) s = Some s' \<and>
     (\<exists>ms. nro_broadcasts (snd s') = nro_broadcasts (snd s) @ ms)"

lemma reflected_step:
  assumes k: "k \<le> length (nro_broadcasts (snd s))"
    and fold: "fold_opt process (drop k (nro_broadcasts (snd s))) s = Some s1"
    and rest: "reflected (length (nro_broadcasts (snd s))) s1 s'"
  shows "reflected k s s'"
proof -
  obtain ms ms' where ms: "nro_broadcasts (snd s1) = nro_broadcasts (snd s) @ ms"
    "nro_broadcasts (snd s') = nro_broadcasts (snd s1) @ ms'"
    using fold_process_appends [OF fold] rest unfolding reflected_def by blast
  have "drop k (nro_broadcasts (snd s')) =
      drop k (nro_broadcasts (snd s)) @ drop (length (nro_broadcasts (snd s))) (nro_broadcasts (snd s'))"
    using k by (simp add: ms)
  then show ?thesis using fold rest by (simp add: reflected_def fold_opt_append ms)
qed

lemma reflect_loop_processes:
  assumes "reflect_loop process k s = Some s'" "k \<le> length (nro_broadcasts (snd s))"
  shows "reflected k s s'"
proof -
  have "p = process \<longrightarrow> k \<le> length (nro_broadcasts (snd s)) \<longrightarrow> reflected k s s'"
    if "reflect_loop p k s = Some s'" for p
    using that
  proof (rule reflect_loop.raw_induct [rotated, where P = "\<lambda>p k s s'. p = process \<longrightarrow> k \<le> length (nro_broadcasts (snd s)) \<longrightarrow> reflected k s s'"], goal_cases)
    case (1 loop p k s s')
    show ?case
    proof (intro impI)
      assume p: "p = process" and k: "k \<le> length (nro_broadcasts (snd s))"
      show "reflected k s s'"
      proof (cases "k = length (nro_broadcasts (snd s))")
        case True
        with 1(2) show ?thesis by (simp add: reflected_def)
      next
        case False
        with 1(2) p obtain s1 where s1: "fold_opt process (drop k (nro_broadcasts (snd s))) s = Some s1"
          "loop process (length (nro_broadcasts (snd s))) s1 = Some s'"
          by (auto simp: Let_def split: Option.bind_splits)
        have "length (nro_broadcasts (snd s)) \<le> length (nro_broadcasts (snd s1))"
          using fold_process_appends [OF s1(1)] by auto
        with 1(1) [OF s1(2)] reflected_step [OF k s1(1)] show ?thesis by simp
      qed
    qed
  qed
  with assms show ?thesis by blast
qed

end

end
