(* ===== verification/Request_Processor.thy ===== *)
theory Request_Processor
  imports Collectors Minbft_Output
begin

text \<open>
  The request processor (\<^verbatim>\<open>minbft/src/request_processor/mod.rs\<close> and \<^verbatim>\<open>checkpoint_generator.rs\<close>) and the
  view state of a replica (\<^verbatim>\<open>minbft/src/lib.rs\<close>): which client requests are new, the batching of the
  primary, the execution of accepted Prepares and the generation of checkpoints.

  \<open>CheckpointGenerator\<close> has no state and is the function \<open>generate_checkpoint\<close>. The abstract
  specification of the execution is a function of the accepted requests alone; \<open>accept_prepare\<close> refines it.
\<close>

section \<open>View states\<close>

record ('p, 'sig, 'att) in_view =
  iv_view :: view
  iv_has_requested_view_change :: bool
  iv_collector_commits :: "('p, 'sig, 'att) collector_commits"

record change_in_progress =
  cip_prev_view :: view
  cip_next_view :: view
  cip_has_broadcast_view_change :: bool

datatype ('p, 'sig, 'att) view_state =
  VS_InView "('p, 'sig, 'att) in_view"
| VS_ChangeInProgress change_in_progress

definition view_state_new :: "('p, 'sig, 'att) view_state" where
  "view_state_new = VS_InView \<lparr>iv_view = 0, iv_has_requested_view_change = False,
     iv_collector_commits = collector_commits_new\<rparr>"

section \<open>ClientState\<close>

record ('p, 'att) client_state =
  cs_last_accepted_req :: "request_id option"
  cs_currently_processing_req :: "(request_id \<times> ('p, 'att) client_request) option"

definition client_state_default :: "('p, 'att) client_state" where
  "client_state_default = \<lparr>cs_last_accepted_req = None, cs_currently_processing_req = None\<rparr>"

definition update_upon_request_receival ::
    "request_id \<Rightarrow> ('p, 'att) client_request \<Rightarrow> ('p, 'att) client_state \<Rightarrow> bool \<times> ('p, 'att) client_state" where
  "update_upon_request_receival i client_req s =
     (if Some i \<le> cs_last_accepted_req s then (False, s)
      else case cs_currently_processing_req s of
        Some (processing, _) \<Rightarrow>
          if i < processing then (False, s)
          else if i = processing then (False, s)
          else (True, s\<lparr>cs_currently_processing_req := Some (i, client_req)\<rparr>)
      | None \<Rightarrow> (True, s\<lparr>cs_currently_processing_req := Some (i, client_req)\<rparr>))"

definition update_upon_request_completion ::
    "request_id \<Rightarrow> ('p, 'att) client_state \<Rightarrow> bool \<times> ('p, 'att) client_state" where
  "update_upon_request_completion i s =
     (if cs_last_accepted_req s \<ge> Some i then (False, s)
      else let s = s\<lparr>cs_last_accepted_req := Some i\<rparr>
           in (True, case cs_currently_processing_req s of
                 Some (processing, _) \<Rightarrow>
                   if processing \<le> i then s\<lparr>cs_currently_processing_req := None\<rparr> else s
               | None \<Rightarrow> s))"

section \<open>RequestProcessor\<close>

record ('p, 'att) request_processor =
  rp_clients_state :: "(client_id, ('p, 'att) client_state) hash_map"
  rp_currently_processing_reqs :: "(request_id \<times> ('p, 'att) client_request \<times> instant) list"
  rp_request_batcher :: "('p, 'att) request_batcher"
  rp_recv_attestations :: "(replica_id, 'att) hash_map"
  rp_round :: u64

definition rp_new :: "('p, 'att) request_batcher \<Rightarrow> ('p, 'att) request_processor" where
  "rp_new b = \<lparr>rp_clients_state = [], rp_currently_processing_reqs = [], rp_request_batcher = b,
     rp_recv_attestations = [], rp_round = 0\<rparr>"

definition rp_new_recovered ::
    "('p, 'att) request_batcher \<Rightarrow> (client_id, request_id) hash_map \<Rightarrow> u64 \<Rightarrow> (replica_id, 'att) hash_map \<Rightarrow>
     ('p, 'att) request_processor" where
  "rp_new_recovered b clients_last_req round recv_attestations =
     (rp_new b)\<lparr>
       rp_clients_state := fold (\<lambda>(c, last_accepted_req) m.
           hm_insert c \<lparr>cs_last_accepted_req = Some last_accepted_req, cs_currently_processing_req = None\<rparr> m)
         clients_last_req [],
       rp_round := round, rp_recv_attestations := recv_attestations\<rparr>"

definition client_state_of :: "client_id \<Rightarrow> ('p, 'att) request_processor \<Rightarrow> ('p, 'att) client_state" where
  "client_state_of c rp = (case hm_get (rp_clients_state rp) c of Some s \<Rightarrow> s | None \<Rightarrow> client_state_default)"

definition next_client_req_id :: "client_id \<Rightarrow> ('p, 'att) request_processor \<Rightarrow> request_id" where
  "next_client_req_id c rp =
     (let highest_req_id = (case hm_get (rp_clients_state rp) c of
            Some s \<Rightarrow> (case cs_last_accepted_req s of Some i \<Rightarrow> i + 1 | None \<Rightarrow> 0)
          | None \<Rightarrow> 0)
      in fold (\<lambda>(_, req, _) highest_req_id.
             if cr_client req = c \<and> highest_req_id \<le> cr_id req then cr_id req + 1 else highest_req_id)
           (rp_currently_processing_reqs rp) highest_req_id)"

definition process_client_req ::
    "('p, 'att) client_request \<Rightarrow> ('p, 'sig, 'att) view_state \<Rightarrow> duration \<Rightarrow> config \<Rightarrow>
     ('p, 'att) request_processor \<Rightarrow> runtime \<Rightarrow>
     ((timeout_request option \<times> ('p, 'att) request_batch option \<times> timeout option) \<times>
      ('p, 'att) request_processor \<times> runtime) option" where
  "process_client_req client_request view_state client_timeout_duration config rp rt =
     (let i = cr_id client_request; c = cr_client client_request;
          (new, s) = update_upon_request_receival i client_request (client_state_of c rp);
          rp = rp\<lparr>rp_clients_state := hm_insert c s (rp_clients_state rp)\<rparr>
      in if \<not> new then Some ((None, None, None), rp, rt)
         else do {
           let (now, rt) = instant_now rt;
           let rp = rp\<lparr>rp_currently_processing_reqs := rp_currently_processing_reqs rp @ [(i, client_request, now)]\<rparr>;
           let start_client_timeout = Some (new_start_client_req c client_timeout_duration);
           ((prepare_content, batch_timeout_request), rp, rt) \<leftarrow>
             (case view_state of
                VS_InView in_view \<Rightarrow> do {
                  prim \<leftarrow> me_primary config (iv_view in_view);
                  if prim
                  then do {
                    (out, b, rt) \<leftarrow> batcher_batch client_request (rp_request_batcher rp) rt;
                    Some (out, rp\<lparr>rp_request_batcher := b\<rparr>, rt)
                  }
                  else Some ((None, None), rp, rt)
                }
              | VS_ChangeInProgress _ \<Rightarrow> Some ((None, None), rp, rt));
           Some ((start_client_timeout, prepare_content, batch_timeout_request), rp, rt)
         })"

definition currently_processing_all :: "('p, 'att) request_processor \<Rightarrow> (request_id \<times> ('p, 'att) client_request) list" where
  "currently_processing_all rp = List.map_filter cs_currently_processing_req (hm_values (rp_clients_state rp))"

fun drop_accepted_reqs ::
    "(client_id, ('p, 'att) client_state) hash_map \<Rightarrow> duration \<Rightarrow>
     (request_id \<times> ('p, 'att) client_request \<times> instant) list \<Rightarrow>
     (request_id \<times> ('p, 'att) client_request \<times> instant) list \<times> timeout_request option" where
  "drop_accepted_reqs clients d [] = ([], None)"
| "drop_accepted_reqs clients d ((i, req, arrival) # reqs) =
     (case hm_get clients (cr_client req) of
        None \<Rightarrow> drop_accepted_reqs clients d reqs
      | Some s \<Rightarrow>
          if cs_last_accepted_req s < Some i
          then ((i, req, arrival) # reqs, Some (new_start_client_req (cr_client req) d))
          else drop_accepted_reqs clients d reqs)"

definition accept_request ::
    "('p, 'u, 'sig, 'att, 'z) crypto_scheme \<Rightarrow> ('p, 'att) client_request \<Rightarrow> duration \<Rightarrow>
     ('p, 'att) request_processor \<Rightarrow> replica_storage \<Rightarrow> ('p, 'sig, 'att) not_reflected_output \<Rightarrow>
     (bool \<times> (client_id \<times> 'att recovery_request_payload) option) \<times>
     ('p, 'att) request_processor \<times> replica_storage \<times> ('p, 'sig, 'att) not_reflected_output" where
  "accept_request H request curr_full_timeout_duration rp storage out =
     (let c = cr_client request;
          (new, s) = update_upon_request_completion (cr_id request) (client_state_of c rp);
          rp = rp\<lparr>rp_clients_state := hm_insert c s (rp_clients_state rp)\<rparr>
      in if \<not> new then ((False, None), rp, storage, out)
         else
           (let out = out_timeout_request (new_stop_client_req c) out;
                (reqs, start_client_timeout) =
                  drop_accepted_reqs (rp_clients_state rp) curr_full_timeout_duration (rp_currently_processing_reqs rp);
                rp = rp\<lparr>rp_currently_processing_reqs := reqs\<rparr>;
                (storage, recovery_request) = (case cr_payload request of
                    WRP_Client i payload \<Rightarrow> (execute_request H c i payload storage, None)
                  | WRP_Internal recovery_request \<Rightarrow> (storage, Some (c, recovery_request)));
                out = out_response c (cr_payload request) out;
                out = (case start_client_timeout of Some t \<Rightarrow> out_timeout_request t out | None \<Rightarrow> out)
            in ((True, recovery_request), rp, storage, out)))"

fun accept_requests ::
    "('p, 'u, 'sig, 'att, 'z) crypto_scheme \<Rightarrow> duration \<Rightarrow> ('p, 'att) client_request list \<Rightarrow>
     ('p, 'att) request_processor \<Rightarrow> (replica_id, nonce) hash_map \<Rightarrow> replica_storage \<Rightarrow>
     ('p, 'sig, 'att) not_reflected_output \<Rightarrow>
     (bool \<times> (client_id \<times> 'att recovery_request_payload) list) \<times> ('p, 'att) request_processor \<times>
     (replica_id, nonce) hash_map \<times> replica_storage \<times> ('p, 'sig, 'att) not_reflected_output" where
  "accept_requests H d [] rp recovering storage out = ((False, []), rp, recovering, storage, out)"
| "accept_requests H d (request # requests) rp recovering storage out =
     (let ((request_accepted, recovery_request), rp, storage, out) = accept_request H request d rp storage out;
          recovering = (case recovery_request of
              Some (client, req) \<Rightarrow> hm_insert client (rrp_nonce req) recovering
            | None \<Rightarrow> recovering);
          ((accepted, recovery_requests), rp, recovering, storage, out) =
            accept_requests H d requests rp recovering storage out
      in ((request_accepted \<or> accepted,
           (case recovery_request of Some r \<Rightarrow> r # recovery_requests | None \<Rightarrow> recovery_requests)),
          rp, recovering, storage, out))"

definition last_executed :: "('p, 'att) request_processor \<Rightarrow> (client_id, request_id) hash_map" where
  "last_executed rp =
     fold (\<lambda>(c, s) m. case cs_last_accepted_req s of Some i \<Rightarrow> hm_insert c i m | None \<Rightarrow> m) (rp_clients_state rp) []"

definition generate_checkpoint ::
    "('p, 'u, 'sig, 'att, 'z) crypto_scheme \<Rightarrow> ('p, 'sig, 'att) prepare \<Rightarrow> bytes \<Rightarrow> (client_id, request_id) hash_map \<Rightarrow>
     (replica_id, 'att) hash_map \<Rightarrow> (replica_id, nonce) hash_map \<Rightarrow> u64 \<Rightarrow> config \<Rightarrow> 'att checkpoint_content option" where
  "generate_checkpoint H prepare storage_hash last_executed_client_req usig_attestations recovering_replicas
     total_amount_accepted_batches config =
     (if total_amount_accepted_batches mod cfg_checkpoint_period config \<noteq> 0 then None
      else Some \<lparr>cp_origin = cfg_id config, cp_counter_latest_prep = signed_counter H prepare,
        cp_view_latest_prep = pc_view (us_data prepare), cp_state_hash = storage_hash,
        cp_total_amount_accepted_batches = total_amount_accepted_batches,
        cp_last_executed_client_req = last_executed_client_req, cp_usig_attestations = usig_attestations,
        cp_recovering_replicas = recovering_replicas\<rparr>)"

text \<open>The two parts of \<open>accept_prepare\<close>: the batcher learns of the committed batch, then it is executed.\<close>

definition update_batcher ::
    "bool \<Rightarrow> ('p, 'att) request_batch \<Rightarrow> ('p, 'att) request_processor \<Rightarrow> runtime \<Rightarrow>
     (('p, 'att) controller_output \<times> ('p, 'att) request_processor \<times> runtime) option" where
  "update_batcher common_case batch rp rt =
     (if common_case
      then do {
        (res, b, rt) \<leftarrow> batcher_update batch (rp_request_batcher rp) rt;
        Some (res, rp\<lparr>rp_request_batcher := b\<rparr>, rt)
      }
      else Some ((None, None), rp, rt))"

definition accept_batch ::
    "('p, 'u, 'sig, 'att, 'z) crypto_scheme \<Rightarrow> config \<Rightarrow> ('p, 'sig, 'att) prepare \<Rightarrow> duration \<Rightarrow>
     ('p, 'att) request_processor \<Rightarrow> (replica_id, nonce) hash_map \<Rightarrow> replica_storage \<Rightarrow>
     ('p, 'sig, 'att) not_reflected_output \<Rightarrow> runtime \<Rightarrow>
     ('att checkpoint_content option \<times> (client_id \<times> 'att recovery_request_payload) list) \<times>
     ('p, 'att) request_processor \<times> (replica_id, nonce) hash_map \<times> replica_storage \<times>
     ('p, 'sig, 'att) not_reflected_output \<times> runtime" where
  "accept_batch H config prepare timeout_duration rp recovering storage out rt =
     (let ((accepted, recovery_requests), rp, recovering, storage, out) =
            accept_requests H timeout_duration (pc_request_batch (us_data prepare)) rp recovering storage out;
          rp = (if accepted then rp\<lparr>rp_round := rp_round rp + 1\<rparr> else rp);
          (out, rt) = (if accepted then log_round_change out rt else (out, rt))
      in ((generate_checkpoint H prepare (last_hash storage) (last_executed rp) (rp_recv_attestations rp)
             recovering (rp_round rp) config, recovery_requests), rp, recovering, storage, out, rt))"

definition accept_prepare ::
    "('p, 'u, 'sig, 'att, 'z) crypto_scheme \<Rightarrow> config \<Rightarrow> ('p, 'sig, 'att) prepare \<Rightarrow> duration \<Rightarrow> bool \<Rightarrow>
     ('p, 'att) request_processor \<Rightarrow> (replica_id, nonce) hash_map \<Rightarrow> replica_storage \<Rightarrow>
     ('p, 'sig, 'att) not_reflected_output \<Rightarrow> runtime \<Rightarrow>
     (('att checkpoint_content option \<times> (client_id \<times> 'att recovery_request_payload) list \<times>
        ('p, 'att) request_batch option \<times> timeout option) \<times>
      ('p, 'att) request_processor \<times> (replica_id, nonce) hash_map \<times> replica_storage \<times>
      ('p, 'sig, 'att) not_reflected_output \<times> runtime) option" where
  "accept_prepare H config prepare timeout_duration common_case rp recovering storage out rt =
     do {
       ((new_batch, new_timeout), rp, rt) \<leftarrow> update_batcher common_case (pc_request_batch (us_data prepare)) rp rt;
       let ((checkpoint, recovery_requests), rp, recovering, storage, out, rt) =
         accept_batch H config prepare timeout_duration rp recovering storage out rt;
       Some ((checkpoint, recovery_requests, new_batch, new_timeout), rp, recovering, storage, out, rt)
     }"

section \<open>Specification of the execution\<close>

text \<open>
  Which of a sequence of requests are executed, given the last executed request of each client: those
  with an identifier above the last one of their client.
\<close>

fun spec_run ::
    "(client_id \<Rightarrow> request_id option) \<Rightarrow> ('p, 'att) client_request list \<Rightarrow>
     ('p, 'att) client_request list \<times> (client_id \<Rightarrow> request_id option)" where
  "spec_run lst [] = ([], lst)"
| "spec_run lst (r # rs) =
     (if Some (cr_id r) \<le> lst (cr_client r) then spec_run lst rs
      else case spec_run (lst(cr_client r := Some (cr_id r))) rs of (executed, lst') \<Rightarrow> (r # executed, lst'))"

definition spec_execute ::
    "('p, 'u, 'sig, 'att, 'z) crypto_scheme \<Rightarrow> ('p, 'att) client_request \<Rightarrow> replica_storage \<Rightarrow> replica_storage" where
  "spec_execute H r storage =
     (case cr_payload r of WRP_Client i payload \<Rightarrow> execute_request H (cr_client r) i payload storage | WRP_Internal _ \<Rightarrow> storage)"

definition spec_recovery :: "('p, 'att) client_request \<Rightarrow> (client_id \<times> 'att recovery_request_payload) option" where
  "spec_recovery r = (case cr_payload r of WRP_Client _ _ \<Rightarrow> None | WRP_Internal req \<Rightarrow> Some (cr_client r, req))"

definition spec_note_recovery :: "('p, 'att) client_request \<Rightarrow> (replica_id, nonce) hash_map \<Rightarrow> (replica_id, nonce) hash_map" where
  "spec_note_recovery r m = (case spec_recovery r of None \<Rightarrow> m | Some (c, req) \<Rightarrow> hm_insert c (rrp_nonce req) m)"

record spec_state =
  sp_last :: "client_id \<Rightarrow> request_id option"
  sp_storage :: replica_storage
  sp_recovering :: "(replica_id, nonce) hash_map"
  sp_round :: u64

definition spec_accept ::
    "('p, 'u, 'sig, 'att, 'z) crypto_scheme \<Rightarrow> ('p, 'att) client_request list \<Rightarrow> spec_state \<Rightarrow> spec_state" where
  "spec_accept H batch s =
     (case spec_run (sp_last s) batch of (executed, lst') \<Rightarrow>
        \<lparr>sp_last = lst', sp_storage = fold (spec_execute H) executed (sp_storage s),
         sp_recovering = fold spec_note_recovery executed (sp_recovering s),
         sp_round = (if executed = [] then sp_round s else sp_round s + 1)\<rparr>)"

definition rp_last :: "('p, 'att) request_processor \<Rightarrow> client_id \<Rightarrow> request_id option" where
  "rp_last rp c = cs_last_accepted_req (client_state_of c rp)"

definition rp_abs :: "('p, 'att) request_processor \<Rightarrow> (replica_id, nonce) hash_map \<Rightarrow> replica_storage \<Rightarrow> spec_state" where
  "rp_abs rp recovering storage =
     \<lparr>sp_last = rp_last rp, sp_storage = storage, sp_recovering = recovering, sp_round = rp_round rp\<rparr>"

section \<open>The execution refines its specification\<close>

lemma completion_spec:
  "update_upon_request_completion i s = (new, s') \<Longrightarrow>
     new = (\<not> Some i \<le> cs_last_accepted_req s) \<and>
     cs_last_accepted_req s' = (if new then Some i else cs_last_accepted_req s)"
  by (auto simp: update_upon_request_completion_def Let_def split: if_splits option.splits)

lemma receival_last:
  "update_upon_request_receival i r s = (new, s') \<Longrightarrow> cs_last_accepted_req s' = cs_last_accepted_req s"
  by (auto simp: update_upon_request_receival_def split: if_splits option.splits)

lemma client_state_of_insert:
  "client_state_of c (rp\<lparr>rp_clients_state := hm_insert c' s (rp_clients_state rp)\<rparr>) = (if c = c' then s else client_state_of c rp)"
  by (simp add: client_state_of_def)

lemma rp_last_insert:
  "rp_last (rp\<lparr>rp_clients_state := hm_insert c s (rp_clients_state rp)\<rparr>) = (rp_last rp)(c := cs_last_accepted_req s)"
  by (simp add: rp_last_def client_state_of_insert fun_eq_iff)

lemma rp_last_frame [simp]:
  "rp_last (rp\<lparr>rp_currently_processing_reqs := x\<rparr>) = rp_last rp" "rp_last (rp\<lparr>rp_request_batcher := b\<rparr>) = rp_last rp"
  "rp_last (rp\<lparr>rp_round := n\<rparr>) = rp_last rp" "rp_last (rp\<lparr>rp_recv_attestations := a\<rparr>) = rp_last rp"
  by (simp_all add: rp_last_def client_state_of_def fun_eq_iff)

text \<open>The parts of the output that the execution of requests does not touch.\<close>

definition same_messages :: "('p, 'sig, 'att) not_reflected_output \<Rightarrow> ('p, 'sig, 'att) not_reflected_output \<Rightarrow> bool" where
  "same_messages out out' \<longleftrightarrow> nro_broadcasts out' = nro_broadcasts out \<and> nro_direct_messages out' = nro_direct_messages out \<and>
     nro_errors out' = nro_errors out \<and> nro_ready_for_client_requests out' = nro_ready_for_client_requests out"

lemma same_messages_refl [simp]: "same_messages out out"
  by (simp add: same_messages_def)

lemma same_messages_trans: "same_messages a b \<Longrightarrow> same_messages b c \<Longrightarrow> same_messages a c"
  by (simp add: same_messages_def)

definition kept_rp :: "('p, 'att) request_processor \<Rightarrow> ('p, 'att) request_processor \<Rightarrow> bool" where
  "kept_rp rp rp' \<longleftrightarrow> rp_round rp' = rp_round rp \<and> rp_request_batcher rp' = rp_request_batcher rp \<and>
     rp_recv_attestations rp' = rp_recv_attestations rp \<and>
     (hm_wf (rp_clients_state rp) \<longrightarrow> hm_wf (rp_clients_state rp'))"

lemma kept_rp_refl [simp]: "kept_rp rp rp"
  by (simp add: kept_rp_def)

lemma kept_rp_trans: "kept_rp a b \<Longrightarrow> kept_rp b c \<Longrightarrow> kept_rp a c"
  by (simp add: kept_rp_def)

lemma accept_request_old:
  assumes "Some (cr_id r) \<le> rp_last rp (cr_client r)"
  shows "\<exists>rp'. accept_request H r d rp storage out = ((False, None), rp', storage, out) \<and> rp_last rp' = rp_last rp \<and> kept_rp rp rp'"
proof -
  obtain new s where u: "update_upon_request_completion (cr_id r) (client_state_of (cr_client r) rp) = (new, s)" by fastforce
  then have "\<not> new" "cs_last_accepted_req s = rp_last rp (cr_client r)"
    using completion_spec [OF u] assms by (auto simp: rp_last_def)
  with u show ?thesis by (simp add: accept_request_def Let_def rp_last_insert kept_rp_def)
qed

lemma accept_request_new:
  assumes "\<not> Some (cr_id r) \<le> rp_last rp (cr_client r)"
  shows "\<exists>rp' out'. accept_request H r d rp storage out = ((True, spec_recovery r), rp', spec_execute H r storage, out') \<and>
    rp_last rp' = (rp_last rp)(cr_client r := Some (cr_id r)) \<and> kept_rp rp rp' \<and> same_messages out out' \<and>
    nro_responses out' = nro_responses out @ [(cr_client r, cr_payload r)]"
proof -
  obtain new s where u: "update_upon_request_completion (cr_id r) (client_state_of (cr_client r) rp) = (new, s)" by fastforce
  then have new: "new" "cs_last_accepted_req s = Some (cr_id r)"
    using completion_spec [OF u] assms by (auto simp: rp_last_def)
  let ?rp = "rp\<lparr>rp_clients_state := hm_insert (cr_client r) s (rp_clients_state rp)\<rparr>"
  obtain reqs t where dr: "drop_accepted_reqs (rp_clients_state ?rp) d (rp_currently_processing_reqs ?rp) = (reqs, t)" by fastforce
  let ?rp' = "?rp\<lparr>rp_currently_processing_reqs := reqs\<rparr>"
  let ?out = "out_response (cr_client r) (cr_payload r) (out_timeout_request (new_stop_client_req (cr_client r)) out)"
  let ?out' = "case t of Some t \<Rightarrow> out_timeout_request t ?out | None \<Rightarrow> ?out"
  have "accept_request H r d rp storage out = ((True, spec_recovery r), ?rp', spec_execute H r storage, ?out')"
    using u new dr by (cases "cr_payload r") (simp_all add: accept_request_def Let_def spec_recovery_def spec_execute_def split: option.split)
  moreover have "same_messages out ?out'" "nro_responses ?out' = nro_responses out @ [(cr_client r, cr_payload r)]"
    by (auto simp: same_messages_def out_response_def out_timeout_request_def split: option.split)
  moreover have "rp_last ?rp' = (rp_last rp)(cr_client r := Some (cr_id r))" "kept_rp rp ?rp'"
    using new by (simp_all add: rp_last_insert kept_rp_def)
  ultimately show ?thesis by blast
qed

lemma accept_requests_spec:
  assumes "accept_requests H d rs rp recovering storage out = ((accepted, recs), rp', recovering', storage', out')"
    "spec_run (rp_last rp) rs = (executed, lst')"
  shows "accepted = (executed \<noteq> []) \<and> recs = List.map_filter spec_recovery executed \<and> rp_last rp' = lst' \<and>
    recovering' = fold spec_note_recovery executed recovering \<and> storage' = fold (spec_execute H) executed storage \<and>
    nro_responses out' = nro_responses out @ map (\<lambda>r. (cr_client r, cr_payload r)) executed \<and>
    kept_rp rp rp' \<and> same_messages out out'"
  using assms
proof (induction rs arbitrary: rp recovering storage out accepted recs executed)
  case Nil
  then show ?case by (simp add: map_filter_simps)
next
  case (Cons r rs)
  show ?case
  proof (cases "Some (cr_id r) \<le> rp_last rp (cr_client r)")
    case True
    from accept_request_old [OF this, of H d storage out] obtain rp1
      where r: "accept_request H r d rp storage out = ((False, None), rp1, storage, out)"
        "rp_last rp1 = rp_last rp" "kept_rp rp rp1" by blast
    with Cons.prems True have "accept_requests H d rs rp1 recovering storage out = ((accepted, recs), rp', recovering', storage', out')"
      "spec_run (rp_last rp1) rs = (executed, lst')" by (auto split: prod.splits)
    from Cons.IH [OF this] kept_rp_trans [OF r(3)] show ?thesis by blast
  next
    case False
    from accept_request_new [OF this, of H d storage out] obtain rp1 out1
      where r: "accept_request H r d rp storage out = ((True, spec_recovery r), rp1, spec_execute H r storage, out1)"
        "rp_last rp1 = (rp_last rp)(cr_client r := Some (cr_id r))" "kept_rp rp rp1" "same_messages out out1"
        "nro_responses out1 = nro_responses out @ [(cr_client r, cr_payload r)]" by blast
    let ?rec = "spec_note_recovery r recovering"
    obtain accepted1 recs1 where rest:
      "accept_requests H d rs rp1 ?rec (spec_execute H r storage) out1 = ((accepted1, recs1), rp', recovering', storage', out')"
      and eqs: "accepted = True" "recs = (case spec_recovery r of Some x \<Rightarrow> x # recs1 | None \<Rightarrow> recs1)"
      using Cons.prems(1) r(1) by (auto simp: Let_def spec_note_recovery_def split: prod.splits)
    obtain executed1 where ex: "spec_run (rp_last rp1) rs = (executed1, lst')" "executed = r # executed1"
      using Cons.prems(2) False r(2) by (auto split: prod.splits)
    have "recs = List.map_filter spec_recovery executed"
      using Cons.IH [OF rest ex(1)] eqs(2) ex(2) by (cases "spec_recovery r") (simp_all add: map_filter_simps)
    with Cons.IH [OF rest ex(1)] r eqs(1) ex(2) kept_rp_trans [OF r(3)] same_messages_trans [OF r(4)] show ?thesis by auto
  qed
qed

lemma accept_batch_spec:
  assumes "accept_batch H config prepare d rp recovering storage out rt =
      ((cp, recs), rp', recovering', storage', out', rt')"
    and "spec_run (rp_last rp) (pc_request_batch (us_data prepare)) = (executed, lst')"
  shows "rp_abs rp' recovering' storage' = spec_accept H (pc_request_batch (us_data prepare)) (rp_abs rp recovering storage) \<and>
    recs = List.map_filter spec_recovery executed \<and>
    nro_responses out' = nro_responses out @ map (\<lambda>r. (cr_client r, cr_payload r)) executed \<and>
    cp = generate_checkpoint H prepare (last_hash storage') (last_executed rp') (rp_recv_attestations rp') recovering'
      (rp_round rp') config \<and>
    rp_recv_attestations rp' = rp_recv_attestations rp \<and> same_messages out out' \<and>
    (hm_wf (rp_clients_state rp) \<longrightarrow> hm_wf (rp_clients_state rp'))"
proof -
  obtain accepted recs1 rp1 rec1 storage1 out1
    where acc: "accept_requests H d (pc_request_batch (us_data prepare)) rp recovering storage out =
      ((accepted, recs1), rp1, rec1, storage1, out1)" using prod_cases5 by (metis surj_pair)
  note spec = accept_requests_spec [OF acc assms(2)]
  obtain out2 rt2 where l: "(if accepted then log_round_change out1 rt else (out1, rt)) = (out2, rt2)" by fastforce
  have "same_messages out1 out2" "nro_responses out2 = nro_responses out1"
    using l by (auto simp: log_round_change_def same_messages_def split: prod.splits if_splits)
  moreover have "recs = recs1" "recovering' = rec1" "storage' = storage1" "out' = out2"
    "rp' = (if accepted then rp1\<lparr>rp_round := rp_round rp1 + 1\<rparr> else rp1)"
    "cp = generate_checkpoint H prepare (last_hash storage') (last_executed rp') (rp_recv_attestations rp') recovering'
      (rp_round rp') config"
    using assms(1) acc l by (auto simp: accept_batch_def Let_def)
  ultimately show ?thesis using spec assms(2) same_messages_trans [of out out1 out2]
    by (simp add: rp_abs_def spec_accept_def kept_rp_def)
qed

lemma update_batcher_kept:
  "update_batcher common_case batch rp rt = Some (res, rp', rt') \<Longrightarrow>
     \<exists>b. rp' = rp\<lparr>rp_request_batcher := b\<rparr>"
  by (auto simp: update_batcher_def split: if_splits Option.bind_splits intro: exI [of _ "rp_request_batcher rp"])

lemma accept_prepare_batch:
  assumes "accept_prepare H config prepare d common_case rp recovering storage out rt =
      Some ((cp, recs, new_batch, new_timeout), rp', recovering', storage', out', rt')"
  shows "\<exists>b rt1. accept_batch H config prepare d (rp\<lparr>rp_request_batcher := b\<rparr>) recovering storage out rt1 =
    ((cp, recs), rp', recovering', storage', out', rt')"
proof -
  obtain res rp1 rt1 where u: "update_batcher common_case (pc_request_batch (us_data prepare)) rp rt = Some (res, rp1, rt1)"
    using assms by (auto simp: accept_prepare_def split: Option.bind_splits)
  obtain b where "rp1 = rp\<lparr>rp_request_batcher := b\<rparr>" using update_batcher_kept [OF u] by blast
  with assms u show ?thesis by (auto simp: accept_prepare_def split: prod.splits)
qed

lemma rp_abs_frame [simp]: "rp_abs (rp\<lparr>rp_request_batcher := b\<rparr>) recovering storage = rp_abs rp recovering storage"
  by (simp add: rp_abs_def)

lemma accept_prepare_spec:
  assumes "accept_prepare H config prepare d common_case rp recovering storage out rt =
      Some ((cp, recs, new_batch, new_timeout), rp', recovering', storage', out', rt')"
    and "spec_run (rp_last rp) (pc_request_batch (us_data prepare)) = (executed, lst')"
  shows "rp_abs rp' recovering' storage' = spec_accept H (pc_request_batch (us_data prepare)) (rp_abs rp recovering storage) \<and>
    recs = List.map_filter spec_recovery executed \<and>
    nro_responses out' = nro_responses out @ map (\<lambda>r. (cr_client r, cr_payload r)) executed \<and>
    cp = generate_checkpoint H prepare (last_hash storage') (last_executed rp') (rp_recv_attestations rp') recovering'
      (rp_round rp') config \<and>
    rp_recv_attestations rp' = rp_recv_attestations rp \<and> same_messages out out' \<and>
    (hm_wf (rp_clients_state rp) \<longrightarrow> hm_wf (rp_clients_state rp'))"
proof -
  from accept_prepare_batch [OF assms(1)] obtain b rt1
    where "accept_batch H config prepare d (rp\<lparr>rp_request_batcher := b\<rparr>) recovering storage out rt1 =
      ((cp, recs), rp', recovering', storage', out', rt')" by blast
  from accept_batch_spec [OF this, of executed lst'] assms(2) show ?thesis by simp
qed

section \<open>Sequences of requests and Prepares\<close>

type_synonym ('p, 'sig, 'att) rp_state =
  "('p, 'att) request_processor \<times> (replica_id, nonce) hash_map \<times> replica_storage \<times>
   ('p, 'sig, 'att) not_reflected_output \<times> runtime"

text \<open>
  The operations of a request processor in any order, with the batches of the accepted Prepares: client
  requests arrive in any view state, and Prepares are accepted in the common case or in a new view.
\<close>

inductive rp_steps ::
    "('p, 'u, 'sig, 'att, 'z) crypto_scheme \<Rightarrow> config \<Rightarrow> ('p, 'sig, 'att) rp_state \<Rightarrow>
     ('p, 'att) request_batch list \<Rightarrow> ('p, 'sig, 'att) rp_state \<Rightarrow> bool" for H config where
  rp_done: "rp_steps H config s [] s"
| rp_client: "process_client_req r (vs :: ('p, 'sig, 'att) view_state) d config rp rt = Some (res, rp1, rt1) \<Longrightarrow>
    rp_steps H config (rp1, recovering, storage, out, rt1) batches s \<Longrightarrow>
    rp_steps H config (rp, recovering, storage, out, rt) batches s"
| rp_prepare: "accept_prepare H config prepare d common_case rp recovering storage out rt =
      Some (res, rp1, recovering1, storage1, out1, rt1) \<Longrightarrow>
    rp_steps H config (rp1, recovering1, storage1, out1, rt1) batches s \<Longrightarrow>
    rp_steps H config (rp, recovering, storage, out, rt) (pc_request_batch (us_data prepare) # batches) s"

lemma process_client_req_last:
  assumes "process_client_req r vs d config rp rt = Some (res, rp', rt')"
  shows "rp_last rp' = rp_last rp \<and> rp_round rp' = rp_round rp \<and> rp_recv_attestations rp' = rp_recv_attestations rp \<and>
    (hm_wf (rp_clients_state rp) \<longrightarrow> hm_wf (rp_clients_state rp'))"
proof -
  obtain new s where u: "update_upon_request_receival (cr_id r) r (client_state_of (cr_client r) rp) = (new, s)" by fastforce
  let ?rp = "rp\<lparr>rp_clients_state := hm_insert (cr_client r) s (rp_clients_state rp)\<rparr>"
  have "rp_last ?rp = rp_last rp"
    using receival_last [OF u] by (auto simp: rp_last_insert rp_last_def fun_eq_iff)
  moreover have "\<exists>reqs b. rp' = ?rp\<lparr>rp_currently_processing_reqs := reqs, rp_request_batcher := b\<rparr>"
  proof (cases new)
    case False
    with assms u have "rp' = ?rp" by (simp add: process_client_req_def)
    then show ?thesis by (intro exI [of _ "rp_currently_processing_reqs rp"] exI [of _ "rp_request_batcher rp"]) simp
  next
    case True
    obtain now rt1 where now: "instant_now rt = (now, rt1)" by fastforce
    let ?rp1 = "?rp\<lparr>rp_currently_processing_reqs := rp_currently_processing_reqs rp @ [(cr_id r, r, now)]\<rparr>"
    have "rp' = ?rp1 \<or> (\<exists>b. rp' = ?rp1\<lparr>rp_request_batcher := b\<rparr>)"
      using assms u True now
      by (auto simp: process_client_req_def Let_def split: view_state.splits if_splits Option.bind_splits)
    then show ?thesis
    proof
      assume "rp' = ?rp1"
      then show ?thesis by (intro exI [of _ "rp_currently_processing_reqs ?rp1"] exI [of _ "rp_request_batcher rp"]) simp
    qed auto
  qed
  ultimately show ?thesis by auto
qed

lemma spec_run_append:
  "spec_run lst (xs @ ys) =
     (case spec_run lst xs of (e1, l1) \<Rightarrow> case spec_run l1 ys of (e2, l2) \<Rightarrow> (e1 @ e2, l2))"
  by (induction xs arbitrary: lst) (auto split: prod.splits)

lemma spec_accept_last: "sp_last (spec_accept H batch s) = snd (spec_run (sp_last s) batch)"
  by (auto simp: spec_accept_def split: prod.splits)

lemma spec_run_ascending:
  "spec_run lst rs = (executed, lst') \<Longrightarrow>
     sorted_wrt (<) (map cr_id (filter (\<lambda>r. cr_client r = c) executed)) \<and>
     (\<forall>r \<in> set executed. lst (cr_client r) < Some (cr_id r)) \<and> set executed \<subseteq> set rs \<and>
     (\<forall>r \<in> set rs. Some (cr_id r) \<le> lst' (cr_client r)) \<and> lst \<le> lst'"
proof (induction rs arbitrary: lst executed)
  case (Cons r rs)
  show ?case
  proof (cases "Some (cr_id r) \<le> lst (cr_client r)")
    case True
    with Cons.prems have "spec_run lst rs = (executed, lst')" by simp
    from Cons.IH [OF this] True le_funD [of lst lst' "cr_client r"] show ?thesis by (auto intro: order_trans)
  next
    case False
    let ?lst = "lst(cr_client r := Some (cr_id r))"
    from Cons.prems False obtain ex where ex: "spec_run ?lst rs = (ex, lst')" "executed = r # ex" by (auto split: prod.splits)
    note IH = Cons.IH [OF ex(1)]
    have le: "lst \<le> ?lst" using False by (auto simp: le_fun_def)
    have after: "lst (cr_client x) < Some (cr_id x)" if "x \<in> set ex" for x
      using IH that le by (auto intro: le_less_trans dest: le_funD [of _ _ "cr_client x"])
    have "cr_id r < cr_id x" if "x \<in> set ex" "cr_client x = cr_client r" for x
      using IH that by (auto split: if_splits)
    moreover from IH have le': "?lst \<le> lst'" by blast
    from le_funD [OF this, of "cr_client r"] have "Some (cr_id r) \<le> lst' (cr_client r)" by simp
    moreover have "lst \<le> lst'" using le le' by (rule order_trans)
    ultimately show ?thesis using IH after False ex(2) by auto
  qed
qed simp

lemma rp_steps_refine:
  assumes "rp_steps H config s batches s'"
  shows "(case s of (rp, recovering, storage, out, rt) \<Rightarrow> case s' of (rp', recovering', storage', out', rt') \<Rightarrow>
    rp_abs rp' recovering' storage' = fold (spec_accept H) batches (rp_abs rp recovering storage) \<and>
    nro_responses out' = nro_responses out @
      map (\<lambda>r. (cr_client r, cr_payload r)) (fst (spec_run (rp_last rp) (concat batches))))"
  using assms
proof (induction rule: rp_steps.induct)
  case (rp_done s)
  then show ?case by (auto split: prod.splits)
next
  case (rp_client r vs d rp rt res rp1 rt1 recovering storage out batches s)
  from process_client_req_last [OF rp_client(1)] have "rp_last rp1 = rp_last rp" "rp_round rp1 = rp_round rp" by auto
  then have "rp_abs rp1 recovering storage = rp_abs rp recovering storage" by (simp add: rp_abs_def)
  with rp_client(3) \<open>rp_last rp1 = rp_last rp\<close> show ?case by simp
next
  case (rp_prepare prepare d common_case rp recovering storage out rt res rp1 recovering1 storage1 out1 rt1 batches s)
  obtain cp recs nb nt where res: "res = (cp, recs, nb, nt)" by (cases res)
  obtain executed lst' where ex: "spec_run (rp_last rp) (pc_request_batch (us_data prepare)) = (executed, lst')" by fastforce
  note spec = accept_prepare_spec [OF rp_prepare(1) [unfolded res] ex]
  from spec have abs: "rp_abs rp1 recovering1 storage1 =
    spec_accept H (pc_request_batch (us_data prepare)) (rp_abs rp recovering storage)" by blast
  from arg_cong [OF this, of sp_last] ex have "rp_last rp1 = lst'" by (simp add: spec_accept_last rp_abs_def)
  with rp_prepare(3) spec ex show ?case by (auto simp: abs spec_run_append split: prod.splits)
qed

section \<open>Properties\<close>

text \<open>
  Claim C23. The state a replica derives from the requests it has accepted, namely the last executed
  request of each client, the storage, the recovering replicas and the number of rounds, is a function
  of the batches of the accepted Prepares in their order, and so are the responses to the clients. It
  does not depend on which client requests the replica received itself and when, on its view state, on
  its batcher, on timeouts or on whether a Prepare was accepted in the common case or with a new view.
\<close>

theorem execution_refines_spec:
  assumes "rp_steps H config (rp, recovering, storage, out, rt) batches (rp', recovering', storage', out', rt')"
  shows "rp_abs rp' recovering' storage' = fold (spec_accept H) batches (rp_abs rp recovering storage) \<and>
    nro_responses out' = nro_responses out @
      map (\<lambda>r. (cr_client r, cr_payload r)) (fst (spec_run (rp_last rp) (concat batches)))"
  using rp_steps_refine [OF assms] by simp

definition sample_prepare :: "(bytes, dummy_attestation) client_request list \<Rightarrow> (bytes, noop_signature, dummy_attestation) prepare" where
  "sample_prepare batch = UsigSigned \<lparr>pc_origin = 0, pc_view = 0, pc_request_batch = batch\<rparr> (Noop_Signature 0)"

definition sample_rp :: "(bytes, dummy_attestation) request_processor" where
  "sample_rp = rp_new (RB_Trivial (trivial_new 0 None))"

lemma sample_accepted:
  "\<exists>s. rp_steps noop_crypto sample_config (sample_rp, [], replica_storage_new, out_new True, sample_runtime) [batch] s"
proof -
  obtain x where "accept_prepare noop_crypto sample_config (sample_prepare batch) 0 True sample_rp []
      replica_storage_new (out_new True) sample_runtime = Some x"
    by (simp add: accept_prepare_def update_batcher_def sample_rp_def rp_new_def trivial_update_def Let_def split_beta)
  then obtain res rp1 recovering1 storage1 out1 rt1
    where step: "accept_prepare noop_crypto sample_config (sample_prepare batch) 0 True sample_rp []
      replica_storage_new (out_new True) sample_runtime = Some (res, rp1, recovering1, storage1, out1, rt1)"
    by (cases x) auto
  show ?thesis using rp_steps.rp_prepare [OF step rp_steps.rp_done] unfolding sample_prepare_def by (intro exI) simp
qed

theorem execution_refines_spec_witness:
  "\<exists>rp' recovering' storage' out' rt'.
     rp_steps noop_crypto sample_config (sample_rp, [], replica_storage_new, out_new True, sample_runtime)
       [[sample_request 1 5, sample_request 1 5]] (rp', recovering', storage', out', rt') \<and>
     nro_responses out' = [(1, WRP_Client 5 [])] \<and> rp_round rp' = 1"
proof -
  obtain rp' recovering' storage' out' rt' where
    run: "rp_steps noop_crypto sample_config (sample_rp, [], replica_storage_new, out_new True, sample_runtime)
      [[sample_request 1 5, sample_request 1 5]] (rp', recovering', storage', out', rt')"
    using sample_accepted [of "[sample_request 1 5, sample_request 1 5]"] by auto
  have run1: "spec_run (rp_last sample_rp) [sample_request 1 5, sample_request 1 5] =
      ([sample_request 1 5], (rp_last sample_rp)(1 := Some 5))"
    by (simp add: rp_last_def client_state_of_def sample_rp_def rp_new_def client_state_default_def sample_request_def cr_id_def)
  from execution_refines_spec [OF run] have "rp_round rp' = 1"
    by (simp add: rp_abs_def spec_accept_def run1 del: spec_run.simps) (simp add: sample_rp_def rp_new_def)
  moreover from execution_refines_spec [OF run] have "nro_responses out' = [(1, WRP_Client 5 [])]"
    by (simp add: run1 del: spec_run.simps) (simp add: out_new_def sample_request_def)
  ultimately show ?thesis using run by blast
qed

text \<open>
  Claim C24. A replica that starts afresh executes no request of a client twice and none out of order:
  the identifiers of the requests of one client to which it responds are strictly increasing. It responds
  to requests of accepted Prepares only, and every request of an accepted Prepare is executed unless a
  request of the same client with the same or a larger identifier was executed before.
\<close>

theorem requests_executed_once:
  assumes "rp_steps H config (rp_new b, recovering, storage, out_new ready, rt) batches (rp', recovering', storage', out', rt')"
  shows "sorted_wrt (<) (map (\<lambda>(c, payload). wrapped_id payload) (filter (\<lambda>(c, payload). c = client) (nro_responses out'))) \<and>
    set (nro_responses out') \<subseteq> (\<lambda>r. (cr_client r, cr_payload r)) ` set (concat batches) \<and>
    list_all (\<lambda>r. Some (cr_id r) \<le> rp_last rp' (cr_client r)) (concat batches)"
proof -
  obtain executed lst' where ex: "spec_run (rp_last (rp_new b)) (concat batches) = (executed, lst')" by fastforce
  have abs: "rp_abs rp' recovering' storage' = fold (spec_accept H) batches (rp_abs (rp_new b) recovering storage)"
    and resp: "nro_responses out' = map (\<lambda>r. (cr_client r, cr_payload r)) executed"
    using rp_steps_refine [OF assms] ex by (simp_all add: out_new_def)
  have "sp_last (fold (spec_accept H) batches s) = snd (spec_run (sp_last s) (concat batches))" for s
    by (induction batches arbitrary: s) (auto simp: spec_run_append spec_accept_last split: prod.splits)
  from this [of "rp_abs (rp_new b) recovering storage"] arg_cong [OF abs, of sp_last] ex
  have "rp_last rp' = lst'" by (simp add: rp_abs_def)
  moreover have "map (\<lambda>(c, payload). wrapped_id payload) (filter (\<lambda>(c, payload). c = client) (nro_responses out')) =
      map cr_id (filter (\<lambda>r. cr_client r = client) executed)"
    by (simp add: resp filter_map comp_def cr_id_def)
  moreover note spec_run_ascending [OF ex, of client]
  ultimately show ?thesis by (auto simp: resp list_all_iff)
qed

theorem requests_executed_once_witness:
  "\<exists>rp' recovering' storage' out' rt'.
     rp_steps noop_crypto sample_config (sample_rp, [], replica_storage_new, out_new True, sample_runtime)
       [[sample_request 1 5, sample_request 1 5, sample_request 1 3]] (rp', recovering', storage', out', rt') \<and>
     sorted_wrt (<) (map (\<lambda>(c, payload). wrapped_id payload) (filter (\<lambda>(c, payload). c = 1) (nro_responses out')))"
proof -
  obtain rp' recovering' storage' out' rt' where
    run: "rp_steps noop_crypto sample_config (sample_rp, [], replica_storage_new, out_new True, sample_runtime)
      [[sample_request 1 5, sample_request 1 5, sample_request 1 3]] (rp', recovering', storage', out', rt')"
    using sample_accepted [of "[sample_request 1 5, sample_request 1 5, sample_request 1 3]"] by auto
  from requests_executed_once [OF run [unfolded sample_rp_def], of 1] run show ?thesis by blast
qed

lemma last_executed_fold:
  "hm_wf cs \<Longrightarrow> hm_get (fold (\<lambda>(c, s) m. case cs_last_accepted_req s of Some i \<Rightarrow> hm_insert c i m | None \<Rightarrow> m) cs m) c =
     (case hm_get cs c of None \<Rightarrow> hm_get m c
      | Some s \<Rightarrow> (case cs_last_accepted_req s of None \<Rightarrow> hm_get m c | Some i \<Rightarrow> Some i))"
proof (induction cs arbitrary: m)
  case (Cons x cs)
  obtain c' s where x: "x = (c', s)" by (cases x)
  have "hm_get cs c' = None" using Cons.prems by (simp add: x map_of_eq_None_iff)
  with Cons show ?case by (auto simp: x split: option.splits)
qed simp

lemma last_executed_get: "hm_wf (rp_clients_state rp) \<Longrightarrow> hm_get (last_executed rp) = rp_last rp"
  by (auto simp: last_executed_def last_executed_fold rp_last_def client_state_of_def client_state_default_def
      fun_eq_iff split: option.splits)

text \<open>
  Claim C25. Accepting a Prepare executes the requests of its batch that are new, and adds one to the
  number of rounds if there is such a request; with none the number stays. A checkpoint is generated
  if and only if the number of rounds is then a multiple of the checkpoint period (so a Prepare without
  new requests generates one again when the number already is a multiple). The checkpoint carries
  the counter and the view of the Prepare, the hash of the storage after the execution, the number of
  rounds, the known attestations and recovering replicas, and maps exactly the clients with an
  executed request to the last one.
\<close>

theorem checkpoint_generated:
  assumes step: "accept_prepare H config prepare d common_case rp recovering storage out rt =
      Some ((cp, recs, new_batch, new_timeout), rp', recovering', storage', out', rt')"
    and wf: "hm_wf (rp_clients_state rp)"
    and executed: "spec_run (rp_last rp) (pc_request_batch (us_data prepare)) = (executed, lst')"
    and round: "round = (if executed = [] then rp_round rp else rp_round rp + 1)"
  shows "rp_round rp' = round \<and> rp_last rp' = lst' \<and>
    (cp \<noteq> None \<longleftrightarrow> round mod cfg_checkpoint_period config = 0) \<and>
    (\<forall>c. cp = Some c \<longrightarrow> cp_origin c = cfg_id config \<and> cp_counter_latest_prep c = signed_counter H prepare \<and>
      cp_view_latest_prep c = pc_view (us_data prepare) \<and>
      cp_state_hash c = last_hash (fold (spec_execute H) executed storage) \<and>
      cp_total_amount_accepted_batches c = round \<and> hm_get (cp_last_executed_client_req c) = lst' \<and>
      cp_usig_attestations c = rp_recv_attestations rp \<and>
      cp_recovering_replicas c = fold spec_note_recovery executed recovering)"
proof -
  note spec = accept_prepare_spec [OF step executed]
  have cp: "cp = generate_checkpoint H prepare (last_hash storage') (last_executed rp') (rp_recv_attestations rp') recovering'
      (rp_round rp') config" and wf': "hm_wf (rp_clients_state rp')" and att: "rp_recv_attestations rp' = rp_recv_attestations rp"
    and abs: "rp_abs rp' recovering' storage' = spec_accept H (pc_request_batch (us_data prepare)) (rp_abs rp recovering storage)"
    using spec wf by blast+
  from abs have state: "rp_round rp' = round" "rp_last rp' = lst'" "storage' = fold (spec_execute H) executed storage"
    "recovering' = fold spec_note_recovery executed recovering"
    by (simp_all add: rp_abs_def spec_accept_def executed round)
  show ?thesis unfolding cp generate_checkpoint_def by (auto simp: last_executed_get [OF wf'] att state)
qed

theorem checkpoint_generated_witness:
  "\<exists>c recs nb nt rp' rest. accept_prepare noop_crypto sample_config (sample_prepare [sample_request 1 5]) 0 True
      (sample_rp\<lparr>rp_round := 3\<rparr>) [] replica_storage_new (out_new True) sample_runtime = Some ((Some c, recs, nb, nt), rp', rest) \<and>
    rp_round rp' = 4 \<and> cp_total_amount_accepted_batches c = 4"
proof -
  let ?p = "sample_prepare [sample_request 1 5]" and ?rp = "sample_rp\<lparr>rp_round := 3\<rparr>"
  obtain x where "accept_prepare noop_crypto sample_config ?p 0 True ?rp []
      replica_storage_new (out_new True) sample_runtime = Some x"
    by (simp add: accept_prepare_def update_batcher_def sample_rp_def rp_new_def trivial_update_def Let_def split_beta)
  then obtain cp recs nb nt rp' recovering' storage' out' rt'
    where step: "accept_prepare noop_crypto sample_config ?p 0 True ?rp []
      replica_storage_new (out_new True) sample_runtime = Some ((cp, recs, nb, nt), rp', recovering', storage', out', rt')"
    by (cases x) auto
  have wf: "hm_wf (rp_clients_state ?rp)" by (simp add: sample_rp_def rp_new_def)
  have run: "spec_run (rp_last ?rp) (pc_request_batch (us_data ?p)) = ([sample_request 1 5], (rp_last ?rp)(1 := Some 5))"
    by (simp add: rp_last_def client_state_of_def sample_rp_def rp_new_def client_state_default_def sample_request_def cr_id_def sample_prepare_def)
  have "(4 :: u64) = (if [sample_request 1 5] = [] then rp_round ?rp else rp_round ?rp + 1)" by simp
  note g = checkpoint_generated [OF step wf run this]
  then obtain c where "cp = Some c" by (auto simp: sample_config_def)
  with g step show ?thesis by blast
qed

text \<open>
  The batches that a batcher has issued since it was created, whatever was asked of it and whatever
  else has read the clock in between.
\<close>

inductive batcher_issued :: "batch_configuration \<Rightarrow> ('p, 'att) request_batcher \<Rightarrow> ('p, 'att) request_batch list \<Rightarrow> bool" for cfg where
  issued_none: "batcher_init cfg rt = Some (b, rt') \<Longrightarrow> batcher_issued cfg b []"
| issued_batch: "batcher_issued cfg b issued \<Longrightarrow> batcher_batch r b rt = Some ((out, t), b', rt') \<Longrightarrow>
    batcher_issued cfg b' (issued @ (case out of None \<Rightarrow> [] | Some x \<Rightarrow> [x]))"
| issued_timeout: "batcher_issued cfg b issued \<Longrightarrow> batcher_timeout b rt = Some ((out, t), b', rt') \<Longrightarrow>
    batcher_issued cfg b' (issued @ (case out of None \<Rightarrow> [] | Some x \<Rightarrow> [x]))"
| issued_update: "batcher_issued cfg b issued \<Longrightarrow> batcher_update x b rt = Some ((out, t), b', rt') \<Longrightarrow>
    batcher_issued cfg b' (issued @ (case out of None \<Rightarrow> [] | Some x \<Rightarrow> [x]))"

definition starts_of_issued :: "('p, 'att) ema_batcher \<Rightarrow> ('p, 'att) request_batch list \<Rightarrow> bool" where
  "starts_of_issued e issued \<longleftrightarrow> (\<forall>i. hm_get (emab_start_times e) i \<noteq> None \<longrightarrow> (\<exists>x \<in> set issued. batch_id_of x = Some i))"

lemma ema_next_starts:
  assumes "ema_get_next_batch timed_out e rt = Some ((out, t), e', rt')" "starts_of_issued e issued"
  shows "starts_of_issued e' (issued @ (case out of None \<Rightarrow> [] | Some x \<Rightarrow> [x]))"
  using assms by (auto simp: ema_get_next_batch_def starts_of_issued_def Let_def split: if_splits prod.splits Option.bind_splits)

lemma ema_issued_starts:
  assumes "batcher_issued (BC_EMA commit_decay arrival_decay) b issued"
  shows "\<exists>e. b = RB_EMA e \<and> starts_of_issued e issued"
  using assms
proof induction
  case (issued_none rt b rt')
  then show ?case by (auto simp: ema_batcher_new_def starts_of_issued_def split: Option.bind_splits prod.splits)
next
  case (issued_batch b issued r rt out t b' rt')
  then obtain e e' where e: "b = RB_EMA e" "b' = RB_EMA e'" "starts_of_issued e issued" "emab_batch r e rt = Some ((out, t), e', rt')" by auto
  then obtain e1 rt1 where next_batch: "ema_get_next_batch False e1 rt1 = Some ((out, t), e', rt')" "emab_start_times e1 = emab_start_times e"
    by (auto simp: emab_batch_def Let_def split: Option.bind_splits prod.splits dest!: adapt_batch_parameters_frame)
  from e(3) next_batch(2) have "starts_of_issued e1 issued" by (auto simp: starts_of_issued_def split: if_splits)
  from ema_next_starts [OF next_batch(1) this] e(2) show ?case by blast
next
  case (issued_timeout b issued rt out t b' rt')
  then obtain e e' where e: "b' = RB_EMA e'" "starts_of_issued e issued" "ema_get_next_batch True e rt = Some ((out, t), e', rt')"
    by (auto simp: emab_timeout_def)
  from ema_next_starts [OF e(3,2)] e(1) show ?case by blast
next
  case (issued_update b issued x rt out t b' rt')
  then obtain e e' where e: "b = RB_EMA e" "b' = RB_EMA e'" "starts_of_issued e issued" "emab_update x e rt = Some ((out, t), e', rt')" by auto
  then obtain e1 rt1 i where next_batch: "ema_get_next_batch False e1 rt1 = Some ((out, t), e', rt')"
    "emab_start_times e1 = hm_remove i (emab_start_times e)"
    by (auto simp: emab_update_def Let_def split: Option.bind_splits prod.splits dest!: adapt_batch_parameters_frame)
  from e(3) next_batch(2) have "starts_of_issued e1 issued" by (auto simp: starts_of_issued_def split: if_splits)
  from ema_next_starts [OF next_batch(1) this] e(2) show ?case by blast
qed

text \<open>
  Claim C26. A replica that is configured with the EMA batcher panics whenever it accepts in the common
  case, that is not while it processes a NewView, a Prepare whose batch starts with no request with which
  a batch issued by its own batcher started, whatever the batcher was asked to do before. Only the
  primary lets its batcher issue batches, so a backup that has never been the primary panics upon the
  first Prepare it accepts in the common case.
\<close>

theorem ema_backup_panics:
  assumes issued: "batcher_issued (BC_EMA commit_decay arrival_decay) (rp_request_batcher rp) issued"
    and not_own: "\<forall>batch \<in> set issued. batch_id_of batch \<noteq> batch_id_of (pc_request_batch (us_data prepare))"
  shows "accept_prepare H config prepare d True rp recovering storage out rt = None"
proof -
  obtain e where e: "rp_request_batcher rp = RB_EMA e" "starts_of_issued e issued" using ema_issued_starts [OF issued] by blast
  have "hm_get (emab_start_times e) i = None" if "batch_id_of (pc_request_batch (us_data prepare)) = Some i" for i
    using e(2) not_own that unfolding starts_of_issued_def by metis
  with e(1) show ?thesis
    by (cases "batch_id_of (pc_request_batch (us_data prepare))")
      (simp_all add: accept_prepare_def update_batcher_def emab_update_def split: prod.splits)
qed

theorem ema_backup_panics_witness:
  "\<exists>b rt1. batcher_init (BC_EMA 1 1) sample_runtime = Some (b, rt1) \<and>
     accept_prepare noop_crypto (sample_config\<lparr>cfg_id := 1\<rparr>) (sample_prepare [sample_request 1 5]) 0 True (rp_new b) []
       replica_storage_new (out_new True) rt1 = None"
proof -
  obtain b :: "(bytes, dummy_attestation) request_batcher" and rt1 where init: "batcher_init (BC_EMA 1 1) sample_runtime = Some (b, rt1)"
    by (simp add: ema_batcher_new_def sample_runtime_def rust_assert_def instant_now_def)
  have "batcher_issued (BC_EMA 1 1) (rp_request_batcher (rp_new b)) []"
    using batcher_issued.issued_none [OF init] by (simp add: rp_new_def)
  from ema_backup_panics [OF this] init show ?thesis by (intro exI conjI) (assumption, simp)
qed

end
