(* ===== verification/Minbft_Replica.thy ===== *)
theory Minbft_Replica
  imports Request_Processor Order_Enforcer
begin

text \<open>
  The state of a MinBFT replica (\<open>MinBft\<close> of \<^verbatim>\<open>minbft/src/lib.rs\<close>) and the processing of
  Prepares, Commits and Checkpoints (\<^verbatim>\<open>view_peer_processor.rs\<close> and \<^verbatim>\<open>checkpoint_processor.rs\<close>), with
  the operations of \<^verbatim>\<open>lib.rs\<close> they call.

  Besides the fields of the source, the record has the readings of the clock and of the random numbers
  that the code takes (\<open>mb_runtime\<close>). A handler maps the replica and the output it fills to the new ones,
  or to \<open>None\<close> when the code panics or does not return. \<open>ReplicaState\<close> has the order enforcer as its only
  field and is identified with it.
\<close>

section \<open>The state\<close>

type_synonym ('p, 'sig, 'att) replica_state = "('p, 'sig, 'att) order_enforcer"

record ('p, 'u, 'sig, 'att) min_bft =
  mb_usig :: 'u
  mb_config :: config
  mb_request_processor :: "('p, 'att) request_processor"
  mb_sent_usig_msgs :: "('p, 'sig, 'att) usig_message list"
  mb_replicas_state :: "('p, 'sig, 'att) replica_state list"
  mb_view_state :: "('p, 'sig, 'att) view_state"
  mb_counter_last_accepted_prep :: "count option"
  mb_collector_rvc :: collector_req_view_changes
  mb_collector_vc :: "('p, 'sig, 'att) collector_view_changes"
  mb_collector_recovery_forwards :: "('p, 'sig, 'att) collector_forwards"
  mb_last_checkpoint_cert :: "('sig, 'att) checkpoint_certificate option"
  mb_collector_checkpoints :: "('sig, 'att) collector_checkpoints"
  mb_current_timeout_duration :: duration
  mb_replica_storage :: replica_storage
  mb_checkpoint_replica_storage :: replica_storage
  mb_recovering :: bool
  mb_recovering_nonce :: "nonce option"
  mb_recovery_unverified_usig_messages :: "(replica_id \<times> ('p, 'sig, 'att) validated_peer_message) list"
  mb_recovering_replicas :: "(replica_id, nonce) hash_map"
  mb_awaiting_recovery_reply :: "replica_id hash_set"
  mb_runtime :: runtime

type_synonym ('p, 'u, 'sig, 'att) replica =
  "('p, 'u, 'sig, 'att) min_bft \<times> ('p, 'sig, 'att) not_reflected_output"

abbreviation mb_me :: "('p, 'u, 'sig, 'att) min_bft \<Rightarrow> replica_id" where
  "mb_me mb \<equiv> me (mb_config mb)"

definition current_primary :: "('p, 'u, 'sig, 'att) min_bft \<Rightarrow> replica_id option" where
  "current_primary mb =
     (case mb_view_state mb of
        VS_InView v \<Rightarrow> Some (primary (mb_config mb) (iv_view v))
      | VS_ChangeInProgress _ \<Rightarrow> None)"

definition view_info_of :: "('p, 'u, 'sig, 'att) min_bft \<Rightarrow> view_info" where
  "view_info_of mb =
     (case mb_view_state mb of
        VS_InView s \<Rightarrow> VI_InView (iv_view s)
      | VS_ChangeInProgress s \<Rightarrow> VI_ViewChange (cip_prev_view s) (cip_next_view s))"

definition round_of :: "('p, 'u, 'sig, 'att) min_bft \<Rightarrow> u64" where
  "round_of mb = rp_round (mb_request_processor mb)"

definition ready_for_client_requests :: "('p, 'u, 'sig, 'att) min_bft \<Rightarrow> bool" where
  "ready_for_client_requests mb \<longleftrightarrow>
     of_nat (length (rp_recv_attestations (mb_request_processor mb))) = cfg_n (mb_config mb) \<and> \<not> mb_recovering mb"

section \<open>Broadcasting\<close>

definition mb_broadcast ::
    "('p, 'sig, 'att) validated_peer_message \<Rightarrow> ('p, 'u, 'sig, 'att) replica \<Rightarrow> ('p, 'u, 'sig, 'att) replica" where
  "mb_broadcast message s =
     (case s of (mb, out) \<Rightarrow>
        (case out_broadcast message (mb_sent_usig_msgs mb) out of
           (message_log, out) \<Rightarrow> (mb\<lparr>mb_sent_usig_msgs := message_log\<rparr>, out)))"

text \<open>
  Signing a message and broadcasting it, or reporting that signing failed: the form in which every
  handler signs. The first component says whether signing worked.
\<close>

definition broadcast_signed ::
    "('p, 'u, 'sig, 'att, 'z) crypto_scheme \<Rightarrow> ('t \<Rightarrow> bytes) \<Rightarrow> (('t, 'sig) usig_signed \<Rightarrow> ('p, 'sig, 'att) usig_message) \<Rightarrow>
     string \<Rightarrow> 't \<Rightarrow> ('p, 'u, 'sig, 'att) replica \<Rightarrow> (bool \<times> ('p, 'u, 'sig, 'att) replica) option" where
  "broadcast_signed H hash_content wrap msg_type content s =
     (case s of (mb, out) \<Rightarrow> do {
        (r, u) \<leftarrow> usig_signed_sign H hash_content content (mb_usig mb);
        let mb = mb\<lparr>mb_usig := u\<rparr>;
        Some (case r of
            Inl usig_error \<Rightarrow> (False, mb, process_usig_error usig_error (mb_me mb) msg_type out)
          | Inr m \<Rightarrow> (True, mb_broadcast (PM_Usig (wrap m)) (mb, out)))
      })"

definition broadcast_prepare ::
    "('p, 'u, 'sig, 'att, 'z) crypto_scheme \<Rightarrow> view \<Rightarrow> ('p, 'att) request_batch \<Rightarrow>
     ('p, 'u, 'sig, 'att) replica \<Rightarrow> (bool \<times> ('p, 'u, 'sig, 'att) replica) option" where
  "broadcast_prepare H v batch s =
     broadcast_signed H (prepare_hash_content H) (\<lambda>m. UM_View (VP_Prepare m)) ''Prepare''
       \<lparr>pc_origin = mb_me (fst s), pc_view = v, pc_request_batch = batch\<rparr> s"

definition broadcast_commit ::
    "('p, 'u, 'sig, 'att, 'z) crypto_scheme \<Rightarrow> ('p, 'sig, 'att) prepare \<Rightarrow>
     ('p, 'u, 'sig, 'att) replica \<Rightarrow> (bool \<times> ('p, 'u, 'sig, 'att) replica) option" where
  "broadcast_commit H prepare s =
     broadcast_signed H (commit_hash_content H) (\<lambda>m. UM_View (VP_Commit m)) ''Prepare''
       \<lparr>cc_origin = mb_me (fst s), cc_prepare = prepare\<rparr> s"

definition broadcast_checkpoint ::
    "('p, 'u, 'sig, 'att, 'z) crypto_scheme \<Rightarrow> 'att checkpoint_content \<Rightarrow>
     ('p, 'u, 'sig, 'att) replica \<Rightarrow> (bool \<times> ('p, 'u, 'sig, 'att) replica) option" where
  "broadcast_checkpoint H checkpoint_content s =
     broadcast_signed H (checkpoint_hash_content H) UM_Checkpoint ''Prepare'' checkpoint_content s"

section \<open>Batches, recovery requests and accepted Prepares\<close>

definition process_batching_output ::
    "('p, 'u, 'sig, 'att, 'z) crypto_scheme \<Rightarrow> ('p, 'att) request_batch option \<Rightarrow> timeout option \<Rightarrow>
     ('p, 'u, 'sig, 'att) replica \<Rightarrow> ('p, 'u, 'sig, 'att) replica option" where
  "process_batching_output H maybe_batch timeout s =
     (case s of (mb, out) \<Rightarrow>
        let out = (case timeout of
              Some timeout \<Rightarrow> out_timeout_request (TR_Start timeout) (out_timeout_request new_stop_batch_req out)
            | None \<Rightarrow> out)
        in case maybe_batch of
             None \<Rightarrow> Some (mb, out)
           | Some batch \<Rightarrow>
               (case mb_view_state mb of
                  VS_ChangeInProgress _ \<Rightarrow> None
                | VS_InView in_view \<Rightarrow> do {
                    prim \<leftarrow> me_primary (mb_config mb) (iv_view in_view);
                    if prim then map_option snd (broadcast_prepare H (iv_view in_view) batch (mb, out))
                    else Some (mb, out)
                  }))"

definition handle_recovery_request ::
    "('p, 'u, 'sig, 'att, 'z) crypto_scheme \<Rightarrow> client_id \<times> 'att recovery_request_payload \<Rightarrow>
     ('p, 'u, 'sig, 'att) min_bft \<Rightarrow> ('p, 'u, 'sig, 'att) min_bft option" where
  "handle_recovery_request H req mb =
     (case req of (client, request) \<Rightarrow>
        let replica = rrp_replica_id request; attestation = rrp_attestation request; rp = mb_request_processor mb
        in if client \<noteq> replica then Some mb
           else if replica = cfg_id (mb_config mb) then Some mb
           else if \<not> hm_contains (rp_recv_attestations rp) replica then Some mb
           else do {
             let (_, u) = u_add_remote_party (usig H) (mb_usig mb) replica attestation;
             rust_assert (unat replica < length (mb_replicas_state mb));
             Some (mb\<lparr>mb_usig := u,
               mb_request_processor := rp\<lparr>rp_recv_attestations := hm_insert replica attestation (rp_recv_attestations rp)\<rparr>,
               mb_replicas_state := (mb_replicas_state mb)[unat replica := order_enforcer_default],
               mb_recovering_replicas := hm_insert replica (rrp_nonce request) (mb_recovering_replicas mb),
               mb_awaiting_recovery_reply := hs_insert replica (mb_awaiting_recovery_reply mb)\<rparr>)
           })"

definition handle_recovery_requests ::
    "('p, 'u, 'sig, 'att, 'z) crypto_scheme \<Rightarrow> (client_id \<times> 'att recovery_request_payload) list \<Rightarrow>
     ('p, 'u, 'sig, 'att) replica \<Rightarrow> ('p, 'u, 'sig, 'att) replica option" where
  "handle_recovery_requests H reqs s =
     (case s of (mb, out) \<Rightarrow> map_option (\<lambda>mb. (mb, out)) (fold_opt (handle_recovery_request H) reqs mb))"

text \<open>The call of \<open>accept_prepare\<close> on the fields of the replica.\<close>

definition mb_accept_prepare ::
    "('p, 'u, 'sig, 'att, 'z) crypto_scheme \<Rightarrow> ('p, 'sig, 'att) prepare \<Rightarrow> bool \<Rightarrow> ('p, 'u, 'sig, 'att) replica \<Rightarrow>
     (('att checkpoint_content option \<times> (client_id \<times> 'att recovery_request_payload) list \<times>
        ('p, 'att) request_batch option \<times> timeout option) \<times> ('p, 'u, 'sig, 'att) replica) option" where
  "mb_accept_prepare H prepare common_case s =
     (case s of (mb, out) \<Rightarrow> do {
        (res, rp, recovering, storage, out, rt) \<leftarrow>
          accept_prepare H (mb_config mb) prepare (mb_current_timeout_duration mb) common_case (mb_request_processor mb)
            (mb_recovering_replicas mb) (mb_replica_storage mb) out (mb_runtime mb);
        Some (res, mb\<lparr>mb_request_processor := rp, mb_recovering_replicas := recovering,
          mb_replica_storage := storage, mb_runtime := rt\<rparr>, out)
      })"

definition process_new_checkpoint :: "('p, 'u, 'sig, 'att) replica \<Rightarrow> ('p, 'u, 'sig, 'att) replica" where
  "process_new_checkpoint s =
     (case s of (mb, out) \<Rightarrow> (mb\<lparr>mb_checkpoint_replica_storage := mb_replica_storage mb\<rparr>, out))"

section \<open>Prepare and Commit\<close>

text \<open>
  The loop over the acceptable Prepares is the same for a Prepare and for a Commit, except that the
  former returns from it when signing the Checkpoint fails.
\<close>

definition accept_one ::
    "('p, 'u, 'sig, 'att, 'z) crypto_scheme \<Rightarrow> ('p, 'sig, 'att) prepare \<Rightarrow>
     ('p, 'u, 'sig, 'att) replica \<Rightarrow> (bool \<times> ('p, 'u, 'sig, 'att) replica) option" where
  "accept_one H prepare s =
     do {
       ((checkpoint_content, recovery_requests, new_batch, new_timeout), s) \<leftarrow> mb_accept_prepare H prepare True s;
       s \<leftarrow> process_batching_output H new_batch new_timeout s;
       s \<leftarrow> handle_recovery_requests H recovery_requests s;
       case checkpoint_content of
         Some content \<Rightarrow> broadcast_checkpoint H content (process_new_checkpoint s)
       | None \<Rightarrow> Some (True, s)
     }"

fun accept_acceptable ::
    "('p, 'u, 'sig, 'att, 'z) crypto_scheme \<Rightarrow> bool \<Rightarrow> ('p, 'sig, 'att) prepare list \<Rightarrow>
     ('p, 'u, 'sig, 'att) replica \<Rightarrow> ('p, 'u, 'sig, 'att) replica option" where
  "accept_acceptable H returns_on_error [] s = Some s"
| "accept_acceptable H returns_on_error (prepare # acceptable) s =
     do {
       (ok, mb, out) \<leftarrow> accept_one H prepare s;
       if \<not> ok \<and> returns_on_error then Some (mb, out)
       else accept_acceptable H returns_on_error acceptable
              (mb\<lparr>mb_counter_last_accepted_prep := Some (signed_counter H prepare)\<rparr>, out)
     }"

text \<open>Collecting a Prepare or a Commit in the view and accepting what can be accepted.\<close>

definition collect_and_accept ::
    "('p, 'u, 'sig, 'att, 'z) crypto_scheme \<Rightarrow> bool \<Rightarrow> ('p, 'sig, 'att) view_peer_message \<Rightarrow> ('p, 'sig, 'att) in_view \<Rightarrow>
     ('p, 'u, 'sig, 'att) replica \<Rightarrow> ('p, 'u, 'sig, 'att) replica option" where
  "collect_and_accept H returns_on_error msg in_view s =
     (case s of (mb, out) \<Rightarrow> do {
        (acceptable, collector) \<leftarrow> collect_commit H msg (mb_config mb) (iv_collector_commits in_view);
        accept_acceptable H returns_on_error (map fst acceptable)
          (mb\<lparr>mb_view_state := VS_InView (in_view\<lparr>iv_collector_commits := collector\<rparr>)\<rparr>, out)
      })"

definition process_prepare ::
    "('p, 'u, 'sig, 'att, 'z) crypto_scheme \<Rightarrow> ('p, 'sig, 'att) prepare \<Rightarrow>
     ('p, 'u, 'sig, 'att) replica \<Rightarrow> ('p, 'u, 'sig, 'att) replica option" where
  "process_prepare H prepare s =
     (case s of (mb, out) \<Rightarrow>
        case mb_view_state mb of
          VS_InView in_view \<Rightarrow>
            if Some (signed_counter H prepare) \<le> mb_counter_last_accepted_prep mb then Some (mb, out)
            else do {
              (ok, s) \<leftarrow> (if prepare_origin prepare \<noteq> mb_me mb then broadcast_commit H prepare (mb, out)
                          else Some (True, mb, out));
              if \<not> ok then Some s
              else collect_and_accept H True (VP_Prepare prepare) in_view s
            }
        | VS_ChangeInProgress _ \<Rightarrow> None)"

definition process_commit ::
    "('p, 'u, 'sig, 'att, 'z) crypto_scheme \<Rightarrow> ('p, 'sig, 'att) commit \<Rightarrow>
     ('p, 'u, 'sig, 'att) replica \<Rightarrow> ('p, 'u, 'sig, 'att) replica option" where
  "process_commit H commit s =
     (case s of (mb, out) \<Rightarrow>
        case mb_view_state mb of
          VS_InView in_view \<Rightarrow>
            if Some (signed_counter H (commit_prepare commit)) \<le> mb_counter_last_accepted_prep mb then Some (mb, out)
            else collect_and_accept H False (VP_Commit commit) in_view (mb, out)
        | VS_ChangeInProgress _ \<Rightarrow> None)"

section \<open>Checkpoint\<close>

fun is_latest_prep :: "('p, 'u, 'sig, 'att, 'z) crypto_scheme \<Rightarrow> view \<Rightarrow> count \<Rightarrow> ('p, 'sig, 'att) usig_message \<Rightarrow> bool" where
  "is_latest_prep H v c (UM_View (VP_Prepare p)) \<longleftrightarrow> prepare_view p = v \<and> signed_counter H p = c"
| "is_latest_prep H v c (UM_View (VP_Commit p)) \<longleftrightarrow>
     prepare_view (commit_prepare p) = v \<and> signed_counter H (commit_prepare p) = c"
| "is_latest_prep H v c _ \<longleftrightarrow> False"

definition clear_message_log ::
    "('p, 'u, 'sig, 'att, 'z) crypto_scheme \<Rightarrow> ('sig, 'att) checkpoint_certificate \<Rightarrow>
     ('p, 'sig, 'att) usig_message list \<Rightarrow> ('p, 'sig, 'att) usig_message list" where
  "clear_message_log H cert message_log =
     (let c = us_data (my_checkpoint cert)
      in case List.find (is_latest_prep H (cp_view_latest_prep c) (cp_counter_latest_prep c)) message_log of
           Some u \<Rightarrow> filter (\<lambda>x. usig_message_counter H u < usig_message_counter H x) message_log
         | None \<Rightarrow> message_log)"

definition answer_recovery ::
    "('sig, 'att) checkpoint_certificate \<Rightarrow> replica_id \<Rightarrow> ('p, 'u, 'sig, 'att) replica \<Rightarrow>
     ('p, 'u, 'sig, 'att) replica option" where
  "answer_recovery cert replica s =
     (case s of (mb, out) \<Rightarrow>
        let await = mb\<lparr>mb_awaiting_recovery_reply := hs_insert replica (mb_awaiting_recovery_reply mb)\<rparr>
        in if replica = cfg_id (mb_config mb) then Some (mb, out)
           else do {
             nonce \<leftarrow> hm_get (mb_recovering_replicas mb) replica;
             case hm_get (cp_recovering_replicas (us_data (my_checkpoint cert))) replica of
               Some cert_nonce \<Rightarrow>
                 if cert_nonce \<noteq> nonce then Some (await, out)
                 else map_option (\<lambda>out. (mb, out))
                        (out_send (PM_RecoveryReply nonce (mb_checkpoint_replica_storage mb) cert) replica out)
             | None \<Rightarrow> Some (await, out)
           })"

definition process_checkpoint ::
    "('p, 'u, 'sig, 'att, 'z) crypto_scheme \<Rightarrow> ('sig, 'att) checkpoint \<Rightarrow>
     ('p, 'u, 'sig, 'att) replica \<Rightarrow> ('p, 'u, 'sig, 'att) replica option" where
  "process_checkpoint H checkpoint s =
     (case s of (mb, out) \<Rightarrow>
        let (amount_collected, collector) = collect_checkpoint checkpoint (mb_collector_checkpoints mb)
        in if amount_collected \<le> cfg_t (mb_config mb) then Some (mb\<lparr>mb_collector_checkpoints := collector\<rparr>, out)
           else (case retrieve_collected_checkpoints checkpoint (mb_config mb) collector of
               (None, collector) \<Rightarrow> Some (mb\<lparr>mb_collector_checkpoints := collector\<rparr>, out)
             | (Some cert, collector) \<Rightarrow>
                 map_option (\<lambda>(mb, out). (mb\<lparr>mb_last_checkpoint_cert := Some cert\<rparr>, out))
                   (fold_opt (answer_recovery cert) (mb_awaiting_recovery_reply mb)
                     (mb\<lparr>mb_collector_checkpoints := collector,
                        mb_sent_usig_msgs := clear_message_log H cert (mb_sent_usig_msgs mb),
                        mb_awaiting_recovery_reply := []\<rparr>, out))))"

end
