(* ===== verification/Minbft_View_Change.thy ===== *)
theory Minbft_View_Change
  imports Minbft_Replica "HOL-Library.Product_Lexorder"
begin

text \<open>
  The change of views: the processing of ReqViewChanges, ViewChanges and NewViews
  (\<^verbatim>\<open>req_view_change_processor.rs\<close>, \<^verbatim>\<open>view_change_processor.rs\<close> and \<^verbatim>\<open>new_view_processor.rs\<close> of
  \<^verbatim>\<open>minbft/src/peer_message_processor/\<close>).
\<close>

section \<open>ReqViewChange\<close>

fun ignores_req_view_change :: "req_view_change \<Rightarrow> ('p, 'sig, 'att) view_state \<Rightarrow> bool" where
  "ignores_req_view_change req (VS_InView in_view) \<longleftrightarrow> rvc_next_view req \<le> iv_view in_view"
| "ignores_req_view_change req (VS_ChangeInProgress in_progress) \<longleftrightarrow>
     rvc_prev_view req < cip_prev_view in_progress \<or>
     rvc_prev_view req = cip_prev_view in_progress \<and> rvc_next_view req < cip_next_view in_progress"

fun already_broadcast_view_change :: "('p, 'sig, 'att) view_state \<Rightarrow> bool" where
  "already_broadcast_view_change (VS_InView _) \<longleftrightarrow> False"
| "already_broadcast_view_change (VS_ChangeInProgress in_progress) \<longleftrightarrow> cip_has_broadcast_view_change in_progress"

definition broadcast_view_change ::
    "('p, 'u, 'sig, 'att, 'z) crypto_scheme \<Rightarrow> view \<Rightarrow>
     ('p, 'u, 'sig, 'att) replica \<Rightarrow> (bool \<times> ('p, 'u, 'sig, 'att) replica) option" where
  "broadcast_view_change H next_view s =
     broadcast_signed H (view_change_hash_content H (message_log_hash H)) UM_ViewChange ''ViewChange''
       (view_change_content_new H (mb_me (fst s)) next_view (mb_last_checkpoint_cert (fst s)) (mb_sent_usig_msgs (fst s))) s"

definition process_req_view_change ::
    "('p, 'u, 'sig, 'att, 'z) crypto_scheme \<Rightarrow> replica_id \<Rightarrow> req_view_change \<Rightarrow>
     ('p, 'u, 'sig, 'att) replica \<Rightarrow> ('p, 'u, 'sig, 'att) replica option" where
  "process_req_view_change H from req s =
     (case s of (mb, out) \<Rightarrow>
        if ignores_req_view_change req (mb_view_state mb) then Some (mb, out)
        else
          (let (amount_collected, collector) = rvc_collect req from (mb_collector_rvc mb);
               mb = mb\<lparr>mb_collector_rvc := collector\<rparr>
           in if amount_collected \<le> cfg_t (mb_config mb) then Some (mb, out)
              else if already_broadcast_view_change (mb_view_state mb) then Some (mb, out)
              else
                (let mb = mb\<lparr>mb_view_state := VS_ChangeInProgress \<lparr>cip_prev_view = rvc_prev_view req,
                         cip_next_view = rvc_next_view req, cip_has_broadcast_view_change = True\<rparr>\<rparr>;
                     out = out_timeout_request new_stop_any_client_req out
                 in map_option snd (broadcast_view_change H (rvc_next_view req) (mb, out)))))"

section \<open>ViewChange\<close>

definition broadcast_new_view ::
    "('p, 'u, 'sig, 'att, 'z) crypto_scheme \<Rightarrow> view \<Rightarrow> ('p, 'sig, 'att) view_change list \<Rightarrow>
     ('p, 'u, 'sig, 'att) replica \<Rightarrow> (bool \<times> ('p, 'u, 'sig, 'att) replica) option" where
  "broadcast_new_view H next_view view_changes s =
     broadcast_signed H (new_view_hash_content H) UM_NewView ''NewView''
       (NewViewContent (mb_me (fst s)) next_view view_changes) s"

definition process_view_change ::
    "('p, 'u, 'sig, 'att, 'z) crypto_scheme \<Rightarrow> ('p, 'sig, 'att) view_change \<Rightarrow>
     ('p, 'u, 'sig, 'att) replica \<Rightarrow> ('p, 'u, 'sig, 'att) replica option" where
  "process_view_change H msg s =
     (case s of (mb, out) \<Rightarrow>
        let next_view = vc_next_view (us_data msg);
            start_new_timeout = new_start_view_change (mb_current_timeout_duration mb)
        in case mb_view_state mb of
             VS_InView in_view \<Rightarrow>
               if next_view \<le> iv_view in_view then Some (mb, out)
               else
                 (let (amount_collected, collector) = collect_view_change msg (mb_collector_vc mb)
                  in if amount_collected \<le> cfg_t (mb_config mb) then Some (mb\<lparr>mb_collector_vc := collector\<rparr>, out)
                     else
                       (let (_, collector) = retrieve_collected_view_changes msg (mb_config mb) collector
                        in Some (mb\<lparr>mb_view_state := VS_ChangeInProgress \<lparr>cip_prev_view = iv_view in_view,
                                      cip_next_view = next_view, cip_has_broadcast_view_change = False\<rparr>,
                                    mb_collector_vc := collector\<rparr>,
                                 out_timeout_request start_new_timeout out)))
           | VS_ChangeInProgress in_progress \<Rightarrow>
               (let (amount_collected, collector) = collect_view_change msg (mb_collector_vc mb)
                in if next_view < cip_next_view in_progress then Some (mb\<lparr>mb_collector_vc := collector\<rparr>, out)
                   else if amount_collected \<le> cfg_t (mb_config mb) then Some (mb\<lparr>mb_collector_vc := collector\<rparr>, out)
                   else do {
                     let (view_changes, collector) = retrieve_collected_view_changes msg (mb_config mb) collector;
                     let mb = mb\<lparr>mb_collector_vc := collector\<rparr>;
                     prim \<leftarrow> me_primary (mb_config mb) (cip_next_view in_progress);
                     if \<not> prim then Some (mb, out_timeout_request start_new_timeout out)
                     else do {
                       view_changes \<leftarrow> view_changes;
                       map_option snd (broadcast_new_view H (cip_next_view in_progress) view_changes (mb, out))
                     }
                   }))"

section \<open>The state of a NewView\<close>

fun note_prepare ::
    "('p, 'u, 'sig, 'att, 'z) crypto_scheme \<Rightarrow> count option \<Rightarrow> ('p, 'sig, 'att) log_message \<Rightarrow>
     ('p, 'sig, 'att) prepare list \<Rightarrow> ('p, 'sig, 'att) prepare list" where
  "note_prepare H counter_last (UM_View (VP_Prepare prepare)) preps =
     (if counter_last < Some (signed_counter H prepare) then heap_push (signed_counter H) prepare preps else preps)"
| "note_prepare H counter_last (UM_View (VP_Commit commit)) preps =
     (if counter_last < Some (signed_counter H (commit_prepare commit))
      then heap_push (signed_counter H) (commit_prepare commit) preps else preps)"
| "note_prepare H counter_last _ preps = preps"

fun note_checkpoint :: "('p, 'sig, 'att) log_message \<Rightarrow> ('sig, 'att) checkpoint option \<Rightarrow> ('sig, 'att) checkpoint option" where
  "note_checkpoint (UM_Checkpoint checkpoint) last_cp =
     (case last_cp of
        Some latest \<Rightarrow>
          if cp_counter_latest_prep (us_data latest) < cp_counter_latest_prep (us_data checkpoint)
          then Some checkpoint else last_cp
      | None \<Rightarrow> Some checkpoint)"
| "note_checkpoint _ last_cp = last_cp"

text \<open>The loop that pops the heap, whose pops are its elements in order, and drops repeated counters.\<close>

fun unique_prepares ::
    "('p, 'u, 'sig, 'att, 'z) crypto_scheme \<Rightarrow> ('p, 'sig, 'att) prepare list \<Rightarrow> ('p, 'sig, 'att) prepare list \<Rightarrow>
     ('p, 'sig, 'att) prepare list" where
  "unique_prepares H unique [] = unique"
| "unique_prepares H unique (min_prep # preps) =
     (if unique = [] \<or> signed_counter H (last unique) \<noteq> signed_counter H min_prep
      then unique_prepares H (unique @ [min_prep]) preps
      else unique_prepares H unique preps)"

definition compute_new_view_state ::
    "('p, 'u, 'sig, 'att, 'z) crypto_scheme \<Rightarrow> count option \<Rightarrow> ('p, 'sig, 'att) view_change list \<Rightarrow>
     ('sig, 'att) checkpoint option \<times> ('p, 'sig, 'att) prepare list" where
  "compute_new_view_state H counter_last_accepted_prep view_changes =
     (let logs = concat (map (\<lambda>view_change. vc_variant (us_data view_change)) view_changes)
      in (fold note_checkpoint logs None,
          unique_prepares H [] (fold (note_prepare H counter_last_accepted_prep) logs [])))"

definition latest_certificate :: "('p, 'sig, 'att) view_change list \<Rightarrow> ('sig, 'att) checkpoint_certificate option" where
  "latest_certificate view_changes =
     (case sort_key (\<lambda>cert. (cp_view_latest_prep (us_data (my_checkpoint cert)), cp_counter_latest_prep (us_data (my_checkpoint cert))))
         (List.map_filter (\<lambda>view_change. vc_checkpoint_cert (us_data view_change)) view_changes) of
        [] \<Rightarrow> None
      | certs \<Rightarrow> Some (last certs))"

datatype checkpoint_verdict = Proceed | Rejected | StateTransferRequired

fun compare_checkpoints ::
    "('sig, 'att) checkpoint_certificate option \<Rightarrow> ('sig, 'att) checkpoint_certificate option \<Rightarrow> checkpoint_verdict" where
  "compare_checkpoints None None = Proceed"
| "compare_checkpoints None (Some _) = Rejected"
| "compare_checkpoints (Some c1) (Some c2) =
     (let c1 = my_checkpoint c1; c2 = my_checkpoint c2;
          v1 = cp_view_latest_prep (us_data c1); v2 = cp_view_latest_prep (us_data c2)
      in if same_checkpoint c1 c2 then Proceed
         else if v1 \<le> v2 \<or> v1 = v2 \<and> cp_counter_latest_prep (us_data c1) \<le> cp_counter_latest_prep (us_data c2)
         then Rejected
         else StateTransferRequired)"
| "compare_checkpoints (Some _) None = StateTransferRequired"

section \<open>NewView\<close>

text \<open>
  Forwarding a message with a batch to the replicas that ask for recovery in it, with the pending new
  views of the order enforcer of a replica.
\<close>

definition forward_recovery ::
    "replica_id \<Rightarrow> ('p, 'sig, 'att) usig_message \<Rightarrow> ('p, 'sig, 'att) prepare \<Rightarrow> ('p, 'att) client_request \<Rightarrow>
     ('p, 'u, 'sig, 'att) replica \<Rightarrow> ('p, 'u, 'sig, 'att) replica option" where
  "forward_recovery origin msg prepare request s =
     (case s of (mb, out) \<Rightarrow>
        case cr_payload request of
          WRP_Client _ _ \<Rightarrow> Some (mb, out)
        | WRP_Internal recovery_request \<Rightarrow>
            if rrp_replica_id recovery_request = cfg_id (mb_config mb) then Some (mb, out)
            else do {
              replica_state \<leftarrow> index_vec (mb_replicas_state mb) (unat origin);
              out \<leftarrow> out_send (PM_Forward (rrp_nonce recovery_request) msg
                  (get_pending_new_views (prepare_view prepare) replica_state)) (rrp_replica_id recovery_request) out;
              Some (mb, out)
            })"

definition forward_batch ::
    "replica_id \<Rightarrow> ('p, 'sig, 'att) usig_message \<Rightarrow> ('p, 'sig, 'att) prepare \<Rightarrow>
     ('p, 'u, 'sig, 'att) replica \<Rightarrow> ('p, 'u, 'sig, 'att) replica option" where
  "forward_batch origin msg prepare s = fold_opt (forward_recovery origin msg prepare) (pc_request_batch (us_data prepare)) s"

definition commit_recovery ::
    "('p, 'u, 'sig, 'att, 'z) crypto_scheme \<Rightarrow> ('p, 'sig, 'att) prepare \<Rightarrow>
     ('p, 'u, 'sig, 'att) replica \<Rightarrow> ('p, 'u, 'sig, 'att) replica option" where
  "commit_recovery H prepare s =
     do {
       (_, s) \<leftarrow> broadcast_commit H prepare s;
       forward_batch (mb_me (fst s)) (UM_View (VP_Prepare prepare)) prepare s
     }"

definition advance_order_enforcer ::
    "replica_id \<Rightarrow> count \<Rightarrow> ('p, 'u, 'sig, 'att) replica \<Rightarrow> ('p, 'u, 'sig, 'att) replica option" where
  "advance_order_enforcer from counter s =
     (case s of (mb, out) \<Rightarrow> do {
        replica_state \<leftarrow> index_vec (mb_replicas_state mb) (unat from);
        replica_state \<leftarrow> update_in_new_view counter replica_state;
        Some (mb\<lparr>mb_replicas_state := (mb_replicas_state mb)[unat from := replica_state]\<rparr>, out)
      })"

definition accept_unique_prepare ::
    "('p, 'u, 'sig, 'att, 'z) crypto_scheme \<Rightarrow> ('p, 'sig, 'att) prepare \<Rightarrow>
     ('p, 'u, 'sig, 'att) replica \<Rightarrow> ('p, 'u, 'sig, 'att) replica option" where
  "accept_unique_prepare H unique_prep s =
     do {
       ((_, recovery_requests, new_batch, new_timeout), s) \<leftarrow> mb_accept_prepare H unique_prep False s;
       s \<leftarrow> process_batching_output H new_batch new_timeout s;
       s \<leftarrow> (if recovery_requests \<noteq> [] \<and> prepare_origin unique_prep \<noteq> mb_me (fst s)
             then commit_recovery H unique_prep s else Some s);
       s \<leftarrow> handle_recovery_requests H recovery_requests s;
       advance_order_enforcer (prepare_origin unique_prep) (signed_counter H unique_prep) s
     }"

definition finish_new_view :: "view \<Rightarrow> ('p, 'u, 'sig, 'att) replica \<Rightarrow> ('p, 'u, 'sig, 'att) replica" where
  "finish_new_view next_view s =
     (case s of (mb, out) \<Rightarrow>
        (mb\<lparr>mb_replicas_state := map (update_after_finished_new_view next_view) (mb_replicas_state mb)\<rparr>, out))"

definition enter_view ::
    "('p, 'u, 'sig, 'att, 'z) crypto_scheme \<Rightarrow> view \<Rightarrow> count \<Rightarrow>
     ('p, 'u, 'sig, 'att) replica \<Rightarrow> ('p, 'u, 'sig, 'att) replica option" where
  "enter_view H next_view new_view_counter s =
     (case s of (mb, out) \<Rightarrow> do {
        let mb = mb\<lparr>mb_collector_rvc := rvc_clean_up next_view next_view (mb_collector_rvc mb),
          mb_view_state := VS_InView \<lparr>iv_view = next_view, iv_has_requested_view_change = False,
            iv_collector_commits = collector_commits_new\<rparr>,
          mb_counter_last_accepted_prep := Some new_view_counter\<rparr>;
        prim \<leftarrow> me_primary (mb_config mb) next_view;
        let requests_to_batch = map snd (currently_processing_all (mb_request_processor mb));
        (ok, s) \<leftarrow> (if prim \<and> requests_to_batch \<noteq> [] then broadcast_prepare H next_view requests_to_batch (mb, out)
                    else Some (True, mb, out));
        if \<not> ok then Some s else Some (finish_new_view next_view s)
      })"

definition process_new_view ::
    "('p, 'u, 'sig, 'att, 'z) crypto_scheme \<Rightarrow> ('p, 'sig, 'att) new_view \<Rightarrow>
     ('p, 'u, 'sig, 'att) replica \<Rightarrow> ('p, 'u, 'sig, 'att) replica option" where
  "process_new_view H new_view s =
     (case s of (mb, out) \<Rightarrow> do {
        let next_view = nv_next_view (us_data new_view);
        let view_changes = nv_certificate (us_data new_view);
        _ \<leftarrow> new_view_certificate_validate H (mb_config mb) (mb_usig mb) (nv_origin (us_data new_view)) next_view view_changes;
        case mb_view_state mb of
          VS_InView _ \<Rightarrow> Some (mb, out)
        | VS_ChangeInProgress in_progress \<Rightarrow>
            if cip_next_view in_progress < next_view then Some (mb, out)
            else do {
              let (last_cp, unique_preps) = compute_new_view_state H (mb_counter_last_accepted_prep mb) view_changes;
              case compare_checkpoints (latest_certificate view_changes) (mb_last_checkpoint_cert mb) of
                Rejected \<Rightarrow> Some (mb, out)
              | StateTransferRequired \<Rightarrow> do {
                  rust_assert (last_cp \<noteq> None);
                  Some (mb, out_error (E_StateTransferRequired (cfg_id (mb_config mb))) out)
                }
              | Proceed \<Rightarrow> do {
                  s \<leftarrow> fold_opt (accept_unique_prepare H) unique_preps (mb, out_timeout_request new_stop_view_change out);
                  enter_view H next_view (signed_counter H new_view) s
                }
            }
      })"

end
