(* ===== verification/Minbft_Handlers.thy ===== *)
theory Minbft_Handlers
  imports Minbft_View_Change
begin

text \<open>
  The handlers of a replica: signed messages in the order of their counters
  (\<^verbatim>\<open>usig_message_processor/mod.rs\<close>), Hello, Forward, RecoveryRequest and RecoveryReply
  (\<^verbatim>\<open>minbft/src/peer_message_processor/\<close>), and the public operations of \<^verbatim>\<open>minbft/src/lib.rs\<close>: \<open>new\<close>,
  \<open>handle_client_message\<close>, \<open>handle_peer_message\<close> and \<open>handle_timeout\<close>.

  \<open>process_peer_message\<close> and \<open>handle_recovery_reply\<close> call each other. The recursion is one level deep:
  the inner calls run after recovery has ended, when a RecoveryReply is ignored. The model unfolds it
  twice; the theory \<open>Minbft_Frame\<close> shows that this is a solution of the
  recursive equation of the source.
\<close>

section \<open>Signed messages\<close>

definition process_view_message ::
    "('p, 'u, 'sig, 'att, 'z) crypto_scheme \<Rightarrow> ('p, 'sig, 'att) view_peer_message \<Rightarrow>
     ('p, 'u, 'sig, 'att) replica \<Rightarrow> ('p, 'u, 'sig, 'att) replica option" where
  "process_view_message H msg s =
     (case mb_view_state (fst s) of
        VS_InView in_view \<Rightarrow>
          if view_peer_view msg = iv_view in_view
          then (case msg of VP_Prepare prepare \<Rightarrow> process_prepare H prepare s | VP_Commit commit \<Rightarrow> process_commit H commit s)
          else Some s
      | VS_ChangeInProgress _ \<Rightarrow> Some s)"

fun process_usig_message_ordered ::
    "('p, 'u, 'sig, 'att, 'z) crypto_scheme \<Rightarrow> ('p, 'sig, 'att) usig_message \<Rightarrow>
     ('p, 'u, 'sig, 'att) replica \<Rightarrow> ('p, 'u, 'sig, 'att) replica option" where
  "process_usig_message_ordered H (UM_View msg) s =
     do {
       s \<leftarrow> process_view_message H msg s;
       let prepare = (case msg of VP_Prepare prepare \<Rightarrow> prepare | VP_Commit commit \<Rightarrow> commit_prepare commit);
       forward_batch (view_peer_origin msg) (UM_View msg) prepare s
     }"
| "process_usig_message_ordered H (UM_ViewChange view_change) s = process_view_change H view_change s"
| "process_usig_message_ordered H (UM_NewView new_view) s = process_new_view H new_view s"
| "process_usig_message_ordered H (UM_Checkpoint checkpoint) s = process_checkpoint H checkpoint s"

text \<open>Passing a message to the order enforcer of its origin and processing what it hands out.\<close>

definition enforce_order ::
    "('p, 'u, 'sig, 'att, 'z) crypto_scheme \<Rightarrow> ('p, 'sig, 'att) usig_message \<Rightarrow>
     ('p, 'u, 'sig, 'att) replica \<Rightarrow> ('p, 'u, 'sig, 'att) replica option" where
  "enforce_order H msg s =
     (case s of (mb, out) \<Rightarrow> do {
        let from = unat (usig_message_origin msg);
        replica_state \<leftarrow> index_vec (mb_replicas_state mb) from;
        let (messages, replica_state) = push_to_handle H msg replica_state;
        fold_opt (process_usig_message_ordered H) messages
          (mb\<lparr>mb_replicas_state := (mb_replicas_state mb)[from := replica_state]\<rparr>, out)
      })"

fun process_log_message ::
    "('p, 'u, 'sig, 'att, 'z) crypto_scheme \<Rightarrow> ('p, 'sig, 'att) log_message \<Rightarrow>
     ('p, 'u, 'sig, 'att) replica \<Rightarrow> ('p, 'u, 'sig, 'att) replica option" where
  "process_log_message H (UM_View m) s = enforce_order H (UM_View m) s"
| "process_log_message H (UM_ViewChange m) s =
     do { _ \<leftarrow> index_vec (mb_replicas_state (fst s)) (unat (vc_origin (us_data m))); Some s }"
| "process_log_message H (UM_NewView m) s = enforce_order H (UM_NewView m) s"
| "process_log_message H (UM_Checkpoint m) s = enforce_order H (UM_Checkpoint m) s"

text \<open>The messages inside a Commit or a ViewChange, before the message itself.\<close>

fun process_nested ::
    "('p, 'u, 'sig, 'att, 'z) crypto_scheme \<Rightarrow> ('p, 'sig, 'att) usig_message \<Rightarrow>
     ('p, 'u, 'sig, 'att) replica \<Rightarrow> ('p, 'u, 'sig, 'att) replica option" where
  "process_nested H (UM_View (VP_Commit commit)) s = enforce_order H (UM_View (VP_Prepare (commit_prepare commit))) s"
| "process_nested H (UM_ViewChange view_change) s = fold_opt (process_log_message H) (vc_variant (us_data view_change)) s"
| "process_nested H _ s = Some s"

definition process_flat_message ::
    "('p, 'u, 'sig, 'att, 'z) crypto_scheme \<Rightarrow> ('p, 'sig, 'att) usig_message \<Rightarrow>
     ('p, 'u, 'sig, 'att) replica \<Rightarrow> ('p, 'u, 'sig, 'att) replica option" where
  "process_flat_message H usig_message s = do { s \<leftarrow> process_nested H usig_message s; enforce_order H usig_message s }"

text \<open>
  \<open>process_usig_message\<close> calls itself on the ViewChanges of a NewView only, which contain no NewView
  that is processed in this way.
\<close>

fun process_usig_message ::
    "('p, 'u, 'sig, 'att, 'z) crypto_scheme \<Rightarrow> ('p, 'sig, 'att) usig_message \<Rightarrow>
     ('p, 'u, 'sig, 'att) replica \<Rightarrow> ('p, 'u, 'sig, 'att) replica option" where
  "process_usig_message H (UM_NewView new_view) s =
     do {
       s \<leftarrow> fold_opt (\<lambda>view_change. process_flat_message H (UM_ViewChange view_change)) (nv_certificate (us_data new_view)) s;
       enforce_order H (UM_NewView new_view) s
     }"
| "process_usig_message H usig_message s = process_flat_message H usig_message s"

definition recheck_usig_msg_queue ::
    "('p, 'u, 'sig, 'att, 'z) crypto_scheme \<Rightarrow> replica_id \<Rightarrow> count \<Rightarrow>
     ('p, 'u, 'sig, 'att) replica \<Rightarrow> ('p, 'u, 'sig, 'att) replica option" where
  "recheck_usig_msg_queue H replica counter s =
     (case s of (mb, out) \<Rightarrow> do {
        replica_state \<leftarrow> index_vec (mb_replicas_state mb) (unat replica);
        let (to_handle, replica_state) = update_after_recovered_counter H counter replica_state;
        fold_opt (process_usig_message_ordered H) to_handle
          (mb\<lparr>mb_replicas_state := (mb_replicas_state mb)[unat replica := replica_state]\<rparr>, out)
      })"

section \<open>Client requests\<close>

definition handle_internal_client_message ::
    "('p, 'u, 'sig, 'att, 'z) crypto_scheme \<Rightarrow> client_id \<Rightarrow> ('p, 'att) wrapped_request_payload \<Rightarrow>
     ('p, 'u, 'sig, 'att) replica \<Rightarrow> ('p, 'u, 'sig, 'att) replica option" where
  "handle_internal_client_message H client request s =
     (case s of (mb, out) \<Rightarrow> do {
        let client_request = \<lparr>cr_client = client, cr_payload = request\<rparr>;
        ((start_client_timeout, prepare_content, batch_timeout_request), rp, rt) \<leftarrow>
          process_client_req client_request (mb_view_state mb) (mb_current_timeout_duration mb) (mb_config mb)
            (mb_request_processor mb) (mb_runtime mb);
        let mb = mb\<lparr>mb_request_processor := rp, mb_runtime := rt\<rparr>;
        let out = (case start_client_timeout of Some client_timeout \<Rightarrow> out_timeout_request client_timeout out | None \<Rightarrow> out);
        case mb_view_state mb of
          VS_InView _ \<Rightarrow> process_batching_output H prepare_content batch_timeout_request (mb, out)
        | VS_ChangeInProgress _ \<Rightarrow> Some (mb, out)
      })"

section \<open>Hello, Forward and recovery\<close>

definition process_hello_message ::
    "('p, 'u, 'sig, 'att, 'z) crypto_scheme \<Rightarrow> replica_id \<Rightarrow> 'att \<Rightarrow>
     ('p, 'u, 'sig, 'att) replica \<Rightarrow> ('p, 'u, 'sig, 'att) replica option" where
  "process_hello_message H from attestation s =
     (case s of (mb, out) \<Rightarrow>
        let (ok, u) = u_add_remote_party (usig H) (mb_usig mb) from attestation;
            rp = mb_request_processor mb;
            mb = mb\<lparr>mb_usig := u\<rparr>
        in if ok
           then
             (let attestations = hm_insert from attestation (rp_recv_attestations rp);
                  mb = mb\<lparr>mb_request_processor := rp\<lparr>rp_recv_attestations := attestations\<rparr>\<rparr>
              in Some (mb, if of_nat (length attestations) = cfg_n (mb_config mb)
                           then out_ready_for_client_requests out else out))
           else Some (mb, out_error (E_Attestation (cfg_id (mb_config mb)) from) out))"

definition process_recovery_request ::
    "('p, 'u, 'sig, 'att, 'z) crypto_scheme \<Rightarrow> replica_id \<Rightarrow> 'att \<Rightarrow> nonce \<Rightarrow>
     ('p, 'u, 'sig, 'att) replica \<Rightarrow> ('p, 'u, 'sig, 'att) replica option" where
  "process_recovery_request H from attestation nonce s =
     (let mb = fst s
      in if from = cfg_id (mb_config mb) then Some s
         else handle_internal_client_message H from
                (WRP_Internal \<lparr>rrp_request_id = next_client_req_id from (mb_request_processor mb), rrp_replica_id = from,
                   rrp_attestation = attestation, rrp_nonce = nonce\<rparr>) s)"

definition start_forwarded_view_change ::
    "view \<Rightarrow> ('p, 'u, 'sig, 'att) replica \<Rightarrow> ('p, 'u, 'sig, 'att) replica" where
  "start_forwarded_view_change next_view s =
     (case s of (mb, out) \<Rightarrow>
        case mb_view_state mb of
          VS_InView in_view \<Rightarrow>
            (mb\<lparr>mb_view_state := VS_ChangeInProgress \<lparr>cip_prev_view = iv_view in_view, cip_next_view = next_view,
               cip_has_broadcast_view_change = False\<rparr>\<rparr>, out)
        | VS_ChangeInProgress _ \<Rightarrow> (mb, out))"

fun process_forwarded ::
    "('p, 'u, 'sig, 'att, 'z) crypto_scheme \<Rightarrow> ('p, 'sig, 'att) usig_message \<Rightarrow>
     ('p, 'u, 'sig, 'att) replica \<Rightarrow> ('p, 'u, 'sig, 'att) replica option" where
  "process_forwarded H (UM_ViewChange vc) s = process_view_change H vc s"
| "process_forwarded H (UM_NewView nv) s =
     process_new_view H nv (start_forwarded_view_change (nv_next_view (us_data nv)) s)"
| "process_forwarded H (UM_View _) s = None"
| "process_forwarded H (UM_Checkpoint _) s = None"

definition process_recovered_counter ::
    "('p, 'u, 'sig, 'att, 'z) crypto_scheme \<Rightarrow> replica_id \<times> count \<times> ('p, 'sig, 'att) usig_message list \<Rightarrow>
     ('p, 'u, 'sig, 'att) replica \<Rightarrow> ('p, 'u, 'sig, 'att) replica option" where
  "process_recovered_counter H recovered s =
     (case recovered of (replica, counter, new_views) \<Rightarrow> do {
        s \<leftarrow> fold_opt (process_forwarded H) new_views s;
        recheck_usig_msg_queue H replica counter s
      })"

definition process_forward_message ::
    "('p, 'u, 'sig, 'att, 'z) crypto_scheme \<Rightarrow> replica_id \<Rightarrow> nonce \<Rightarrow> ('p, 'sig, 'att) usig_message \<Rightarrow>
     ('p, 'sig, 'att) usig_message list \<Rightarrow> ('p, 'u, 'sig, 'att) replica \<Rightarrow> ('p, 'u, 'sig, 'att) replica option" where
  "process_forward_message H from nonce msg pending_new_views s =
     (case s of (mb, out) \<Rightarrow>
        if from = cfg_id (mb_config mb) then Some (mb, out)
        else if mb_recovering_nonce mb \<noteq> Some nonce then Some (mb, out)
        else case msg of
          UM_View view_msg \<Rightarrow>
            if view_peer_origin view_msg = cfg_id (mb_config mb) then Some (mb, out)
            else do {
              (recovered_counters, collector) \<leftarrow>
                collect_forward H from view_msg pending_new_views (mb_config mb) (mb_collector_recovery_forwards mb);
              fold_opt (process_recovered_counter H) recovered_counters
                (mb\<lparr>mb_collector_recovery_forwards := collector\<rparr>, out)
            }
        | _ \<Rightarrow> Some (mb, out))"

definition recovery_nonce_ok :: "replica_id \<Rightarrow> nonce \<Rightarrow> ('sig, 'att) checkpoint \<Rightarrow> bool" where
  "recovery_nonce_ok i nonce checkpoint =
     (case hm_get (cp_recovering_replicas (us_data checkpoint)) i of Some cp_nonce \<Rightarrow> nonce = cp_nonce | None \<Rightarrow> True)"

definition validate_checkpoint_certificate ::
    "config \<Rightarrow> ('sig, 'att) checkpoint_certificate \<Rightarrow> nonce \<Rightarrow> bool" where
  "validate_checkpoint_certificate config certificate nonce =
     (let replicas = fold (\<lambda>checkpoint. hs_insert (cp_origin (us_data checkpoint))) (other_checkpoints certificate) [];
          cert = us_data (my_checkpoint certificate)
      in if length replicas < unat (cfg_t config) then False
         else list_all (\<lambda>checkpoint. let c = us_data checkpoint in
             cp_view_latest_prep c = cp_view_latest_prep cert \<and> cp_state_hash c = cp_state_hash cert \<and>
             cp_counter_latest_prep c = cp_counter_latest_prep cert \<and>
             cp_total_amount_accepted_batches c = cp_total_amount_accepted_batches cert \<and>
             hm_eq (cp_last_executed_client_req c) (cp_last_executed_client_req cert) \<and>
             hm_eq (cp_usig_attestations c) (cp_usig_attestations cert) \<and>
             recovery_nonce_ok (cfg_id config) nonce checkpoint) (other_checkpoints certificate))"

definition add_attestation ::
    "('p, 'u, 'sig, 'att, 'z) crypto_scheme \<Rightarrow> replica_id \<times> 'att \<Rightarrow> 'u \<Rightarrow> 'u option" where
  "add_attestation H entry u =
     (case entry of (replica, attestation) \<Rightarrow>
        case u_add_remote_party (usig H) u replica attestation of (ok, u) \<Rightarrow> if ok then Some u else None)"

text \<open>The state that a replica takes over from the checkpoint of a recovery reply.\<close>

definition restore_checkpoint ::
    "('p, 'u, 'sig, 'att, 'z) crypto_scheme \<Rightarrow> ('sig, 'att) checkpoint_certificate \<Rightarrow> replica_storage \<Rightarrow>
     ('p, 'u, 'sig, 'att) min_bft \<Rightarrow> ('p, 'u, 'sig, 'att) min_bft option" where
  "restore_checkpoint H certificate storage mb =
     (let cert = us_data (my_checkpoint certificate)
      in do {
        u \<leftarrow> fold_opt (add_attestation H) (cp_usig_attestations cert) (mb_usig mb);
        (request_batcher, rt) \<leftarrow> batcher_init (cfg_batcher_configuration (mb_config mb)) (mb_runtime mb);
        Some (mb\<lparr>mb_usig := u,
          mb_counter_last_accepted_prep := Some (cp_counter_latest_prep cert),
          mb_view_state := VS_InView \<lparr>iv_view = cp_view_latest_prep cert, iv_has_requested_view_change = False,
            iv_collector_commits = collector_commits_new\<rparr>,
          mb_request_processor := rp_new_recovered request_batcher (cp_last_executed_client_req cert)
            (cp_total_amount_accepted_batches cert) (cp_usig_attestations cert),
          mb_replica_storage := storage, mb_checkpoint_replica_storage := storage,
          mb_recovering_replicas := cp_recovering_replicas cert, mb_last_checkpoint_cert := Some certificate,
          mb_recovering := False, mb_runtime := rt\<rparr>)
      })"

definition retry_message ::
    "('p, 'u, 'sig, 'att, 'z) crypto_scheme \<Rightarrow>
     (replica_id \<Rightarrow> ('p, 'sig, 'att) validated_peer_message \<Rightarrow> ('p, 'u, 'sig, 'att) replica \<Rightarrow> ('p, 'u, 'sig, 'att) replica option) \<Rightarrow>
     replica_id \<times> ('p, 'sig, 'att) validated_peer_message \<Rightarrow> ('p, 'u, 'sig, 'att) replica \<Rightarrow> ('p, 'u, 'sig, 'att) replica option" where
  "retry_message H process entry s =
     (case (entry, s) of ((replica, peer_message), (mb, out)) \<Rightarrow> do {
        r \<leftarrow> peer_message_validate H replica (mb_config mb) (mb_usig mb) peer_message;
        case r of
          Inl output_inner_error \<Rightarrow> Some (mb, out_error (error_from output_inner_error) out)
        | Inr _ \<Rightarrow> process replica peer_message (mb, out)
      })"

definition handle_recovery_reply ::
    "('p, 'u, 'sig, 'att, 'z) crypto_scheme \<Rightarrow>
     (replica_id \<Rightarrow> ('p, 'sig, 'att) validated_peer_message \<Rightarrow> ('p, 'u, 'sig, 'att) replica \<Rightarrow> ('p, 'u, 'sig, 'att) replica option) \<Rightarrow>
     nonce \<Rightarrow> ('sig, 'att) checkpoint_certificate \<Rightarrow> replica_storage \<Rightarrow>
     ('p, 'u, 'sig, 'att) replica \<Rightarrow> ('p, 'u, 'sig, 'att) replica option" where
  "handle_recovery_reply H process nonce certificate storage s =
     (case s of (mb, out) \<Rightarrow>
        if \<not> mb_recovering mb then Some (mb, out)
        else do {
          recovering_nonce \<leftarrow> mb_recovering_nonce mb;
          if recovering_nonce \<noteq> nonce then Some (mb, out)
          else do {
            mb \<leftarrow> restore_checkpoint H certificate storage mb;
            fold_opt (retry_message H process) (mb_recovery_unverified_usig_messages mb) (mb, out)
          }
        })"

definition process_recovery_reply ::
    "('p, 'u, 'sig, 'att, 'z) crypto_scheme \<Rightarrow>
     (replica_id \<Rightarrow> ('p, 'sig, 'att) validated_peer_message \<Rightarrow> ('p, 'u, 'sig, 'att) replica \<Rightarrow> ('p, 'u, 'sig, 'att) replica option) \<Rightarrow>
     nonce \<Rightarrow> replica_storage \<Rightarrow> ('sig, 'att) checkpoint_certificate \<Rightarrow>
     ('p, 'u, 'sig, 'att) replica \<Rightarrow> ('p, 'u, 'sig, 'att) replica option" where
  "process_recovery_reply H process nonce storage certificate s =
     (if validate_checkpoint_certificate (mb_config (fst s)) certificate nonce \<and>
         cp_state_hash (us_data (my_checkpoint certificate)) = last_hash storage
      then handle_recovery_reply H process nonce certificate storage s
      else Some s)"

section \<open>Peer messages\<close>

text \<open>\<open>process\<close> is the recursive call that \<open>handle_recovery_reply\<close> makes.\<close>

fun process_peer_message_with ::
    "('p, 'u, 'sig, 'att, 'z) crypto_scheme \<Rightarrow>
     (replica_id \<Rightarrow> ('p, 'sig, 'att) validated_peer_message \<Rightarrow> ('p, 'u, 'sig, 'att) replica \<Rightarrow> ('p, 'u, 'sig, 'att) replica option) \<Rightarrow>
     replica_id \<Rightarrow> ('p, 'sig, 'att) validated_peer_message \<Rightarrow>
     ('p, 'u, 'sig, 'att) replica \<Rightarrow> ('p, 'u, 'sig, 'att) replica option" where
  "process_peer_message_with H process from (PM_ReqViewChange req_view_change) s = process_req_view_change H from req_view_change s"
| "process_peer_message_with H process from (PM_Usig usig_message) s = process_usig_message H usig_message s"
| "process_peer_message_with H process from (PM_Hello attestation) s = process_hello_message H from attestation s"
| "process_peer_message_with H process from (PM_RecoveryRequest attestation nonce) s =
     process_recovery_request H from attestation nonce s"
| "process_peer_message_with H process from (PM_RecoveryReply nonce storage certificate) s =
     process_recovery_reply H process nonce storage certificate s"
| "process_peer_message_with H process from (PM_Forward nonce forward_message pending_new_views) s =
     process_forward_message H from nonce forward_message pending_new_views s"

definition process_peer_message ::
    "('p, 'u, 'sig, 'att, 'z) crypto_scheme \<Rightarrow> replica_id \<Rightarrow> ('p, 'sig, 'att) validated_peer_message \<Rightarrow>
     ('p, 'u, 'sig, 'att) replica \<Rightarrow> ('p, 'u, 'sig, 'att) replica option" where
  "process_peer_message H = process_peer_message_with H (process_peer_message_with H (\<lambda>_ _ _. None))"

definition process_reflected_peer_message ::
    "('p, 'u, 'sig, 'att, 'z) crypto_scheme \<Rightarrow> ('p, 'sig, 'att) validated_peer_message \<Rightarrow>
     ('p, 'u, 'sig, 'att) replica \<Rightarrow> ('p, 'u, 'sig, 'att) replica option" where
  "process_reflected_peer_message H peer_message s = process_peer_message H (mb_me (fst s)) peer_message s"

definition mb_reflect ::
    "('p, 'u, 'sig, 'att, 'z) crypto_scheme \<Rightarrow> ('p, 'u, 'sig, 'att) replica \<Rightarrow>
     (('p, 'u, 'sig, 'att) min_bft \<times> ('p, 'sig, 'att) replica_output) option" where
  "mb_reflect H s = out_reflect (process_reflected_peer_message H) current_primary view_info_of round_of s"

section \<open>The public operations\<close>

definition handle_wrapped_client_message ::
    "('p, 'u, 'sig, 'att, 'z) crypto_scheme \<Rightarrow> client_id \<Rightarrow> ('p, 'att) wrapped_request_payload \<Rightarrow>
     ('p, 'u, 'sig, 'att) min_bft \<Rightarrow> (('p, 'u, 'sig, 'att) min_bft \<times> ('p, 'sig, 'att) replica_output) option" where
  "handle_wrapped_client_message H client request mb =
     do {
       s \<leftarrow> handle_internal_client_message H client request (mb, out_new (ready_for_client_requests mb));
       mb_reflect H s
     }"

definition handle_client_message ::
    "('p, 'u, 'sig, 'att, 'z) crypto_scheme \<Rightarrow> client_id \<Rightarrow> request_id \<Rightarrow> 'p \<Rightarrow>
     ('p, 'u, 'sig, 'att) min_bft \<Rightarrow> (('p, 'u, 'sig, 'att) min_bft \<times> ('p, 'sig, 'att) replica_output) option" where
  "handle_client_message H client i request mb = handle_wrapped_client_message H client (WRP_Client i request) mb"

definition receive_peer_message ::
    "('p, 'u, 'sig, 'att, 'z) crypto_scheme \<Rightarrow> replica_id \<Rightarrow> ('p, 'sig, 'att) validated_peer_message \<Rightarrow>
     ('p, 'u, 'sig, 'att) replica \<Rightarrow> ('p, 'u, 'sig, 'att) replica option" where
  "receive_peer_message H from message s =
     (case s of (mb, out) \<Rightarrow> do {
        r \<leftarrow> peer_message_validate H from (mb_config mb) (mb_usig mb) message;
        case r of
          Inr _ \<Rightarrow> process_peer_message H from message (mb, out)
        | Inl output_inner_error \<Rightarrow>
            if mb_recovering mb
            then Some (mb\<lparr>mb_recovery_unverified_usig_messages :=
                   mb_recovery_unverified_usig_messages mb @ [(from, message)]\<rparr>, out)
            else Some (mb, out_error (error_from output_inner_error) out)
      })"

definition handle_peer_message ::
    "('p, 'u, 'sig, 'att, 'z) crypto_scheme \<Rightarrow> replica_id \<Rightarrow> ('p, 'sig, 'att) validated_peer_message \<Rightarrow>
     ('p, 'u, 'sig, 'att) min_bft \<Rightarrow> (('p, 'u, 'sig, 'att) min_bft \<times> ('p, 'sig, 'att) replica_output) option" where
  "handle_peer_message H from message mb =
     do {
       rust_assert (from \<noteq> mb_me mb);
       rust_assert (from < cfg_n (mb_config mb));
       s \<leftarrow> receive_peer_message H from message (mb, out_new (ready_for_client_requests mb));
       mb_reflect H s
     }"

fun process_timeout ::
    "('p, 'u, 'sig, 'att, 'z) crypto_scheme \<Rightarrow> timeout_type \<Rightarrow>
     ('p, 'u, 'sig, 'att) replica \<Rightarrow> ('p, 'u, 'sig, 'att) replica option" where
  "process_timeout H TT_Batch (mb, out) =
     (case mb_view_state mb of
        VS_InView _ \<Rightarrow> do {
          ((maybe_batch, stop_timeout_request), b, rt) \<leftarrow>
            batcher_timeout (rp_request_batcher (mb_request_processor mb)) (mb_runtime mb);
          process_batching_output H maybe_batch stop_timeout_request
            (mb\<lparr>mb_request_processor := (mb_request_processor mb)\<lparr>rp_request_batcher := b\<rparr>, mb_runtime := rt\<rparr>, out)
        }
      | VS_ChangeInProgress _ \<Rightarrow> Some (mb, out))"
| "process_timeout H TT_Client (mb, out) =
     (case mb_view_state mb of
        VS_InView in_view \<Rightarrow>
          if \<not> iv_has_requested_view_change in_view
          then do {
            d \<leftarrow> duration_mul_assign (mb_current_timeout_duration mb) (unat (cfg_backoff_multiplier (mb_config mb)));
            Some (mb_broadcast (PM_ReqViewChange \<lparr>rvc_prev_view = iv_view in_view, rvc_next_view = iv_view in_view + 1\<rparr>)
              (mb\<lparr>mb_view_state := VS_InView (in_view\<lparr>iv_has_requested_view_change := True\<rparr>),
                 mb_current_timeout_duration := d\<rparr>, out))
          }
          else Some (mb, out)
      | VS_ChangeInProgress _ \<Rightarrow> Some (mb, out))"
| "process_timeout H TT_ViewChange (mb, out) =
     (case mb_view_state mb of
        VS_InView _ \<Rightarrow> Some (mb, out)
      | VS_ChangeInProgress in_progress \<Rightarrow> do {
          d \<leftarrow> duration_mul_assign (mb_current_timeout_duration mb) (unat (cfg_backoff_multiplier (mb_config mb)));
          Some (mb_broadcast (PM_ReqViewChange \<lparr>rvc_prev_view = cip_prev_view in_progress, rvc_next_view = cip_next_view in_progress + 1\<rparr>)
            (mb\<lparr>mb_view_state := VS_ChangeInProgress (in_progress\<lparr>cip_has_broadcast_view_change := False\<rparr>),
               mb_current_timeout_duration := d\<rparr>, out))
        })"

definition handle_timeout ::
    "('p, 'u, 'sig, 'att, 'z) crypto_scheme \<Rightarrow> timeout_type \<Rightarrow>
     ('p, 'u, 'sig, 'att) min_bft \<Rightarrow> (('p, 'u, 'sig, 'att) min_bft \<times> ('p, 'sig, 'att) replica_output) option" where
  "handle_timeout H timeout_type mb =
     do {
       s \<leftarrow> process_timeout H timeout_type (mb, out_new (ready_for_client_requests mb));
       mb_reflect H s
     }"

section \<open>Creating a replica\<close>

definition initial_replica :: "'u \<Rightarrow> config \<Rightarrow> bool \<Rightarrow> runtime \<Rightarrow> ('p, 'u, 'sig, 'att) min_bft option" where
  "initial_replica u config recovering rt =
     do {
       config_validate config;
       (request_batcher, rt) \<leftarrow> batcher_init (cfg_batcher_configuration config) rt;
       collector_recovery_forwards \<leftarrow> collector_forwards_new config;
       Some \<lparr>mb_usig = u, mb_config = config, mb_request_processor = rp_new request_batcher, mb_sent_usig_msgs = [],
         mb_replicas_state = map (\<lambda>_. order_enforcer_default) (all_replicas config), mb_view_state = view_state_new,
         mb_counter_last_accepted_prep = None, mb_collector_rvc = rvc_collector_new, mb_collector_vc = vc_collector_new,
         mb_collector_recovery_forwards = collector_recovery_forwards, mb_last_checkpoint_cert = None,
         mb_collector_checkpoints = cm_new, mb_current_timeout_duration = cfg_initial_timeout_duration config,
         mb_replica_storage = replica_storage_new, mb_checkpoint_replica_storage = replica_storage_new,
         mb_recovering = recovering, mb_recovering_nonce = None, mb_recovery_unverified_usig_messages = [],
         mb_recovering_replicas = [], mb_awaiting_recovery_reply = [], mb_runtime = rt\<rparr>
     }"

definition attest ::
    "('p, 'u, 'sig, 'att, 'z) crypto_scheme \<Rightarrow> ('p, 'u, 'sig, 'att) min_bft \<Rightarrow> usig_error + ('p, 'u, 'sig, 'att) replica" where
  "attest H mb =
     (case u_attest (usig H) (mb_usig mb) of
        (Inl e, u) \<Rightarrow> Inl e
      | (Inr attestation, u) \<Rightarrow>
          Inr (mb_broadcast (PM_Hello attestation) (mb\<lparr>mb_usig := u\<rparr>, out_new (ready_for_client_requests mb))))"

definition create_recovery_request ::
    "('p, 'u, 'sig, 'att, 'z) crypto_scheme \<Rightarrow> nonce \<Rightarrow> ('p, 'u, 'sig, 'att) min_bft \<Rightarrow>
     (usig_error + ('p, 'u, 'sig, 'att) replica) option" where
  "create_recovery_request H nonce mb =
     (case u_attest (usig H) (mb_usig mb) of
        (Inl e, u) \<Rightarrow> Some (Inl e)
      | (Inr attestation, u) \<Rightarrow> do {
          rust_assert (\<not> ready_for_client_requests mb);
          Some (Inr (mb_broadcast (PM_RecoveryRequest attestation nonce)
            (mb\<lparr>mb_usig := u, mb_recovering_nonce := Some nonce\<rparr>, out_new (ready_for_client_requests mb))))
        })"

definition mb_new ::
    "('p, 'u, 'sig, 'att, 'z) crypto_scheme \<Rightarrow> 'u \<Rightarrow> config \<Rightarrow> bool \<Rightarrow> nonce \<Rightarrow> runtime \<Rightarrow>
     (usig_error + ('p, 'u, 'sig, 'att) min_bft \<times> ('p, 'sig, 'att) replica_output) option" where
  "mb_new H u config recovering nonce rt =
     do {
       mb \<leftarrow> initial_replica u config recovering rt;
       r \<leftarrow> (if recovering then create_recovery_request H nonce mb else Some (attest H mb));
       case r of
         Inl e \<Rightarrow> Some (Inl e)
       | Inr s \<Rightarrow> map_option Inr (mb_reflect H s)
     }"

end
