(* ===== verification/Minbft_Frame.thy ===== *)
theory Minbft_Frame
  imports Minbft_Handlers
begin

text \<open>
  Invariants of a replica. The locales collect what a predicate on the replica and its output has to
  be closed under, the elementary changes that the handlers make, and show once that every handler
  then keeps the predicate. The interpretations follow here and in \<open>Minbft_Safety\<close>.
\<close>

section \<open>The elementary changes\<close>

text \<open>The part of the replica that the invariants may speak of; the rest changes freely.\<close>

definition mb_core where
  "mb_core mb = (mb_usig mb, mb_config mb, mb_sent_usig_msgs mb, length (mb_replicas_state mb), mb_view_state mb,
     mb_counter_last_accepted_prep mb, mb_last_checkpoint_cert mb, mb_recovering mb, mb_recovering_nonce mb)"

named_theorems core_simps

declare mb_core_def [core_simps] out_timeout_request_def [core_simps] out_error_def [core_simps] out_response_def [core_simps]
  process_usig_error_def [core_simps] out_ready_for_client_requests_def [core_simps] log_round_change_def [core_simps]

lemma out_send_broadcasts: "out_send m r out = Some out' \<Longrightarrow> nro_broadcasts out' = nro_broadcasts out"
  by (auto simp: out_send_def split: validated_peer_message.splits)

locale replica_base =
  fixes H :: "('p, 'u, 'sig, 'att, 'z) crypto_scheme" and I :: "('p, 'u, 'sig, 'att) replica \<Rightarrow> bool"
  assumes core: "\<lbrakk>I (mb, out); mb_core mb' = mb_core mb; nro_broadcasts out' = nro_broadcasts out\<rbrakk> \<Longrightarrow> I (mb', out')"
    and signed: "\<lbrakk>I (mb, out); u_sign (usig H) d (mb_usig mb) = Some (Inr sg, u');
        usig_message_counter H msg = u_counter (usig H) sg; usig_message_origin msg = mb_me mb\<rbrakk> \<Longrightarrow>
      I (mb_broadcast (PM_Usig msg) (mb\<lparr>mb_usig := u'\<rparr>, out))"
    and not_signed: "\<lbrakk>I (mb, out); u_sign (usig H) d (mb_usig mb) = Some (Inl e, u')\<rbrakk> \<Longrightarrow> I (mb\<lparr>mb_usig := u'\<rparr>, out)"
    and party: "\<lbrakk>I (mb, out); u_add_remote_party (usig H) (mb_usig mb) i a = (b, u')\<rbrakk> \<Longrightarrow> I (mb\<lparr>mb_usig := u'\<rparr>, out)"
begin

lemma broadcast_signed_inv:
  assumes "I s" "broadcast_signed H hash_content wrap msg_type c s = Some (ok, s')"
    and "\<And>sg. usig_message_counter H (wrap (UsigSigned c sg)) = u_counter (usig H) sg"
    and "\<And>sg. usig_message_origin (wrap (UsigSigned c sg)) = mb_me (fst s)"
  shows "I s'"
proof -
  obtain mb out where s: "s = (mb, out)" by (cases s)
  obtain r u where sign: "usig_signed_sign H hash_content c (mb_usig mb) = Some (r, u)"
    using assms(2) by (auto simp: s broadcast_signed_def split: bind_splits)
  show ?thesis
  proof (cases r)
    case (Inl e)
    have "I (mb\<lparr>mb_usig := u\<rparr>, out)"
      using not_signed [of mb out] assms(1) sign by (simp add: Inl usig_signed_sign_Inl s)
    from core [OF this] show ?thesis
      using assms(2) sign by (auto simp: s broadcast_signed_def Inl core_simps)
  next
    case (Inr m)
    then obtain sg where sg: "u_sign (usig H) (sha256 H (hash_content c)) (mb_usig mb) = Some (Inr sg, u)" "m = UsigSigned c sg"
      using sign by (auto simp: usig_signed_sign_Inr)
    show ?thesis
      using signed [OF _ sg(1), of out] assms sign by (auto simp: s broadcast_signed_def Inr sg(2))
  qed
qed

lemma broadcast_prepare_inv: "I s \<Longrightarrow> broadcast_prepare H v batch s = Some (ok, s') \<Longrightarrow> I s'"
  unfolding broadcast_prepare_def by (erule (1) broadcast_signed_inv) (simp_all add: signed_counter_def)

lemma broadcast_commit_inv: "I s \<Longrightarrow> broadcast_commit H p s = Some (ok, s') \<Longrightarrow> I s'"
  unfolding broadcast_commit_def by (erule (1) broadcast_signed_inv) (simp_all add: signed_counter_def)

lemma broadcast_checkpoint_inv:
  "I s \<Longrightarrow> cp_origin c = mb_me (fst s) \<Longrightarrow> broadcast_checkpoint H c s = Some (ok, s') \<Longrightarrow> I s'"
  unfolding broadcast_checkpoint_def by (erule (1) broadcast_signed_inv) (simp_all add: signed_counter_def)

lemma broadcast_view_change_inv: "I s \<Longrightarrow> broadcast_view_change H v s = Some (ok, s') \<Longrightarrow> I s'"
  unfolding broadcast_view_change_def by (erule (1) broadcast_signed_inv) (simp_all add: signed_counter_def view_change_content_new_def)

lemma broadcast_new_view_inv: "I s \<Longrightarrow> broadcast_new_view H v vcs s = Some (ok, s') \<Longrightarrow> I s'"
  unfolding broadcast_new_view_def by (erule (1) broadcast_signed_inv) (simp_all add: signed_counter_def)

lemma process_batching_output_inv:
  assumes "I s" "process_batching_output H batch t s = Some s'"
  shows "I s'"
proof -
  obtain mb out where s: "s = (mb, out)" by (cases s)
  define out1 where "out1 = (case t of Some t \<Rightarrow> out_timeout_request (TR_Start t) (out_timeout_request new_stop_batch_req out) | None \<Rightarrow> out)"
  have "I (mb, out1)" by (rule core [of mb out]) (use assms(1) in \<open>simp_all add: s out1_def core_simps split: option.split\<close>)
  moreover have "(case batch of None \<Rightarrow> Some (mb, out1) | Some batch \<Rightarrow>
      (case mb_view_state mb of VS_ChangeInProgress _ \<Rightarrow> None | VS_InView in_view \<Rightarrow>
        Option.bind (me_primary (mb_config mb) (iv_view in_view)) (\<lambda>prim.
          if prim then map_option snd (broadcast_prepare H (iv_view in_view) batch (mb, out1)) else Some (mb, out1)))) = Some s'"
    using assms(2) by (simp only: s process_batching_output_def Let_def out1_def prod.case)
  ultimately show ?thesis using broadcast_prepare_inv
    by (auto split: option.splits view_state.splits bind_splits if_splits)
qed

lemma handle_recovery_request_inv:
  assumes "I (mb, out)" "handle_recovery_request H req mb = Some mb'"
  shows "I (mb', out)"
proof -
  obtain client request where req: "req = (client, request)" by (cases req)
  obtain b u where add: "u_add_remote_party (usig H) (mb_usig mb) (rrp_replica_id request) (rrp_attestation request) = (b, u)"
    by fastforce
  consider "mb' = mb" | "mb_core mb' = mb_core (mb\<lparr>mb_usig := u\<rparr>)"
    using assms(2) by (auto simp: req handle_recovery_request_def Let_def add core_simps split: if_splits bind_splits)
  then show ?thesis
  proof cases
    case 2
    then show ?thesis by (rule core [OF party [OF assms(1) add] _ refl])
  qed (use assms(1) in simp)
qed

lemma handle_recovery_requests_inv:
  assumes "I s" "handle_recovery_requests H reqs s = Some s'"
  shows "I s'"
proof -
  obtain mb out where s: "s = (mb, out)" by (cases s)
  obtain mb' where mb': "fold_opt (handle_recovery_request H) reqs mb = Some mb'" "s' = (mb', out)"
    using assms(2) by (auto simp: s handle_recovery_requests_def)
  show ?thesis unfolding mb'(2)
    by (rule fold_opt_invariant [OF _ _ mb'(1), where I = "\<lambda>mb. I (mb, out)"])
      (use assms(1) handle_recovery_request_inv in \<open>auto simp: s\<close>)
qed

lemma mb_accept_prepare_inv:
  assumes "I s" "mb_accept_prepare H p cc s = Some (res, s')"
  shows "I s'"
proof -
  obtain mb out where s: "s = (mb, out)" by (cases s)
  define acc where "acc = accept_prepare H (mb_config mb) p (mb_current_timeout_duration mb) cc (mb_request_processor mb)
      (mb_recovering_replicas mb) (mb_replica_storage mb) out (mb_runtime mb)"
  have "acc \<noteq> None" using assms(2) by (cases acc) (simp_all add: s mb_accept_prepare_def flip: acc_def)
  then obtain x where x: "acc = Some x" by blast
  obtain res' rp recovering storage out' rt where acc: "acc = Some (res', rp, recovering, storage, out', rt)"
    using x by (cases x) blast
  then have res': "res' = res" and
    s': "s' = (mb\<lparr>mb_request_processor := rp, mb_recovering_replicas := recovering, mb_replica_storage := storage, mb_runtime := rt\<rparr>, out')"
    using assms(2) by (simp_all add: s mb_accept_prepare_def acc_def)
  obtain cp recs nb nt where res: "res = (cp, recs, nb, nt)" by (cases res)
  obtain executed lst' where ex: "spec_run (rp_last (mb_request_processor mb)) (pc_request_batch (us_data p)) = (executed, lst')"
    by fastforce
  have "nro_broadcasts out' = nro_broadcasts out"
    using accept_prepare_spec [OF acc [unfolded acc_def res' res] ex] by (simp add: same_messages_def)
  with assms(1) show ?thesis unfolding s s' by (elim core) (simp_all add: core_simps)
qed

lemma forward_batch_inv:
  assumes "I s" "forward_batch origin msg p s = Some s'"
  shows "I s'"
proof (rule fold_opt_invariant [where I = I, OF _ assms(1) assms(2) [unfolded forward_batch_def]])
  fix r s s' assume "I s" and step: "forward_recovery origin msg p r s = Some s'"
  obtain mb out where s: "s = (mb, out)" by (cases s)
  from step have "\<exists>out'. s' = (mb, out') \<and> nro_broadcasts out' = nro_broadcasts out"
    by (auto simp: s forward_recovery_def dest: out_send_broadcasts split: wrapped_request_payload.splits if_splits bind_splits)
  then show "I s'" using \<open>I s\<close> core [of mb out mb] by (auto simp: s)
qed

lemma changes_freely: "I s \<Longrightarrow> mb_core (fst s') = mb_core (fst s) \<Longrightarrow> nro_broadcasts (snd s') = nro_broadcasts (snd s) \<Longrightarrow> I s'"
  using core [of "fst s" "snd s" "fst s'" "snd s'"] by simp

lemma advance_order_enforcer_inv: "I s \<Longrightarrow> advance_order_enforcer r c s = Some s' \<Longrightarrow> I s'"
  by (erule changes_freely) (auto simp: advance_order_enforcer_def core_simps split: prod.splits bind_splits)

lemma finish_new_view_inv: "I s \<Longrightarrow> I (finish_new_view v s)"
  by (erule changes_freely) (auto simp: finish_new_view_def core_simps split: prod.splits)

lemma process_new_checkpoint_inv: "I s \<Longrightarrow> I (process_new_checkpoint s)"
  by (erule changes_freely) (auto simp: process_new_checkpoint_def core_simps split: prod.splits)

lemma commit_recovery_inv: "I s \<Longrightarrow> commit_recovery H p s = Some s' \<Longrightarrow> I s'"
  by (auto simp: commit_recovery_def split: bind_splits dest: broadcast_commit_inv forward_batch_inv)

lemma accept_unique_prepare_inv:
  assumes "I s" "accept_unique_prepare H p s = Some s'"
  shows "I s'"
proof -
  obtain res s1 s2 s3 s4 where s1: "mb_accept_prepare H p False s = Some (res, s1)"
    and s2: "process_batching_output H (fst (snd (snd res))) (snd (snd (snd res))) s1 = Some s2"
    and s3: "(if fst (snd res) \<noteq> [] \<and> prepare_origin p \<noteq> mb_me (fst s2) then commit_recovery H p s2 else Some s2) = Some s3"
    and s4: "handle_recovery_requests H (fst (snd res)) s3 = Some s4"
    and s5: "advance_order_enforcer (prepare_origin p) (signed_counter H p) s4 = Some s'"
    using assms(2) by (auto simp: accept_unique_prepare_def split: bind_splits prod.splits)
  have "I s2" by (rule process_batching_output_inv [OF mb_accept_prepare_inv [OF assms(1) s1] s2])
  then have "I s3" using s3 commit_recovery_inv by (auto split: if_splits)
  from advance_order_enforcer_inv [OF handle_recovery_requests_inv [OF this s4] s5] show ?thesis .
qed

end

section \<open>What the handlers leave alone\<close>

text \<open>
  Executing batches, answering recovery requests and broadcasting leave the configuration, the view
  state, the counter of the last accepted Prepare and the checkpoint certificate alone, and broadcasts
  are only appended.
\<close>

definition keeps :: "('p, 'u, 'sig, 'att) replica \<Rightarrow> ('p, 'u, 'sig, 'att) replica \<Rightarrow> bool" where
  "keeps s s' \<longleftrightarrow> (case (s, s') of ((mb, out), (mb', out')) \<Rightarrow>
     mb_config mb' = mb_config mb \<and> mb_view_state mb' = mb_view_state mb \<and>
     mb_counter_last_accepted_prep mb' = mb_counter_last_accepted_prep mb \<and>
     mb_last_checkpoint_cert mb' = mb_last_checkpoint_cert mb \<and>
     mb_recovering mb' = mb_recovering mb \<and> mb_recovering_nonce mb' = mb_recovering_nonce mb \<and>
     length (mb_replicas_state mb') = length (mb_replicas_state mb) \<and>
     (\<exists>ms. nro_broadcasts out' = nro_broadcasts out @ ms))"

lemma keeps_refl [simp]: "keeps s s"
  by (simp add: keeps_def split: prod.splits)

lemma mb_broadcast_eq:
  "mb_broadcast m (mb, out) = (mb\<lparr>mb_sent_usig_msgs := mb_sent_usig_msgs mb @ (case m of PM_Usig msg \<Rightarrow> [msg] | _ \<Rightarrow> [])\<rparr>,
     out\<lparr>nro_broadcasts := nro_broadcasts out @ [m]\<rparr>)"
  by (simp add: mb_broadcast_def out_broadcast_def split: validated_peer_message.split)

interpretation kept: replica_base H "keeps s" for H :: "('p, 'u, 'sig, 'att, 'z) crypto_scheme" and s
proof (unfold_locales, goal_cases)
  case (1 mb out mb' out')
  then show ?case by (auto simp: keeps_def core_simps split: prod.splits)
next
  case (2 mb out d sg u' msg)
  then show ?case by (auto simp: keeps_def mb_broadcast_eq split: prod.splits)
next
  case (3 mb out d e u')
  then show ?case by (auto simp: keeps_def split: prod.splits)
next
  case (4 mb out i a b u')
  then show ?case by (auto simp: keeps_def split: prod.splits)
qed

lemma mb_accept_prepare_checkpoint:
  assumes "mb_accept_prepare H p cc s = Some ((Some cp, recs, nb, nt), s')"
  shows "cp_origin cp = mb_me (fst s)"
proof -
  obtain mb out where s: "s = (mb, out)" by (cases s)
  obtain rp recovering storage out' rt where acc: "accept_prepare H (mb_config mb) p (mb_current_timeout_duration mb) cc
      (mb_request_processor mb) (mb_recovering_replicas mb) (mb_replica_storage mb) out (mb_runtime mb) =
      Some ((Some cp, recs, nb, nt), rp, recovering, storage, out', rt)"
    using assms by (auto simp: s mb_accept_prepare_def split: bind_splits)
  obtain executed lst' where ex: "spec_run (rp_last (mb_request_processor mb)) (pc_request_batch (us_data p)) = (executed, lst')"
    by fastforce
  have "Some cp = generate_checkpoint H p (last_hash storage) (last_executed rp) (rp_recv_attestations rp) recovering (rp_round rp) (mb_config mb)"
    using accept_prepare_spec [OF acc ex] by blast
  then show ?thesis by (auto simp: s generate_checkpoint_def me_def split: if_splits)
qed

context replica_base
begin

lemma accept_one_inv:
  assumes "I s" "accept_one H p s = Some (ok, s')"
  shows "I s'"
proof -
  obtain cp recs nb nt s1 where s1: "mb_accept_prepare H p True s = Some ((cp, recs, nb, nt), s1)"
    using assms(2) by (auto simp: accept_one_def split: bind_splits)
  obtain s2 where s2: "process_batching_output H nb nt s1 = Some s2"
    using assms(2) s1 by (cases "process_batching_output H nb nt s1") (auto simp: accept_one_def)
  obtain s3 where s3: "handle_recovery_requests H recs s2 = Some s3"
    using assms(2) s1 s2 by (cases "handle_recovery_requests H recs s2") (auto simp: accept_one_def)
  have I3: "I s3"
    by (rule handle_recovery_requests_inv [OF process_batching_output_inv [OF mb_accept_prepare_inv [OF assms(1) s1] s2] s3])
  have "keeps s s3" by (rule kept.handle_recovery_requests_inv [OF kept.process_batching_output_inv
        [OF kept.mb_accept_prepare_inv [OF keeps_refl s1] s2] s3])
  then have me: "mb_me (fst (process_new_checkpoint s3)) = mb_me (fst s)"
    by (auto simp: keeps_def process_new_checkpoint_def split: prod.splits)
  show ?thesis
  proof (cases cp)
    case None
    then show ?thesis using assms(2) s1 s2 s3 I3 by (simp add: accept_one_def)
  next
    case (Some c)
    then have "broadcast_checkpoint H c (process_new_checkpoint s3) = Some (ok, s')"
      using assms(2) s1 s2 s3 by (simp add: accept_one_def)
    moreover have "cp_origin c = mb_me (fst (process_new_checkpoint s3))"
      using mb_accept_prepare_checkpoint [OF s1 [unfolded Some]] me by simp
    ultimately show ?thesis using process_new_checkpoint_inv [OF I3] broadcast_checkpoint_inv by blast
  qed
qed

end

text \<open>Accepting Prepares one after the other sets the counter to that of the last one.\<close>

definition keeps_view :: "('p, 'u, 'sig, 'att) replica \<Rightarrow> ('p, 'u, 'sig, 'att) replica \<Rightarrow> bool" where
  "keeps_view s s' \<longleftrightarrow> (case (s, s') of ((mb, out), (mb', out')) \<Rightarrow>
     mb_config mb' = mb_config mb \<and> mb_view_state mb' = mb_view_state mb)"

lemma accept_acceptable_counter:
  assumes "accept_acceptable H b ps s = Some s'"
  shows "keeps_view s s' \<and>
    mb_counter_last_accepted_prep (fst s') \<in> insert (mb_counter_last_accepted_prep (fst s)) ((\<lambda>p. Some (signed_counter H p)) ` set ps)"
  using assms
proof (induction ps arbitrary: s)
  case Nil
  then show ?case by (auto simp: keeps_view_def split: prod.splits)
next
  case (Cons p ps)
  then obtain ok mb out where one: "accept_one H p s = Some (ok, mb, out)" by (auto split: bind_splits)
  have k: "keeps s (mb, out)" by (rule kept.accept_one_inv [OF keeps_refl one])
  show ?case
  proof (cases "\<not> ok \<and> b")
    case True
    then show ?thesis using Cons.prems one k by (auto simp: keeps_def keeps_view_def split: prod.splits)
  next
    case False
    then have "accept_acceptable H b ps (mb\<lparr>mb_counter_last_accepted_prep := Some (signed_counter H p)\<rparr>, out) = Some s'"
      using Cons.prems one by auto
    from Cons.IH [OF this] k show ?thesis by (auto simp: keeps_def keeps_view_def split: prod.splits)
  qed
qed

lemma same_awaiting: "\<exists>x. mb = mb\<lparr>mb_awaiting_recovery_reply := x\<rparr>"
  by (rule exI [of _ "mb_awaiting_recovery_reply mb"]) simp

lemma answer_recovery_cases:
  assumes "answer_recovery cert r (mb, out) = Some s'"
  shows "\<exists>x out'. s' = (mb\<lparr>mb_awaiting_recovery_reply := x\<rparr>, out') \<and> nro_broadcasts out' = nro_broadcasts out"
  using assms
  by (auto simp: answer_recovery_def Let_def split: if_splits bind_splits option.splits dest!: out_send_broadcasts
      intro: same_awaiting)

lemma answer_recoveries:
  assumes "fold_opt (answer_recovery cert) rs (mb, out) = Some s'"
  shows "\<exists>x out'. s' = (mb\<lparr>mb_awaiting_recovery_reply := x\<rparr>, out') \<and> nro_broadcasts out' = nro_broadcasts out"
  using assms
proof (induction rs arbitrary: mb out)
  case Nil
  then show ?case by (auto intro: same_awaiting)
next
  case (Cons r rs)
  then obtain s1 where s1: "answer_recovery cert r (mb, out) = Some s1" "fold_opt (answer_recovery cert) rs s1 = Some s'"
    by (auto split: bind_splits)
  from answer_recovery_cases [OF s1(1)] obtain x out1
    where "s1 = (mb\<lparr>mb_awaiting_recovery_reply := x\<rparr>, out1)" "nro_broadcasts out1 = nro_broadcasts out" by blast
  with Cons.IH s1(2) show ?case by fastforce
qed

text \<open>What a recovery reply does to the core.\<close>

definition restored_core where
  "restored_core u cert mb = mb\<lparr>mb_usig := u,
     mb_view_state := VS_InView \<lparr>iv_view = cp_view_latest_prep (us_data (my_checkpoint cert)),
       iv_has_requested_view_change = False, iv_collector_commits = collector_commits_new\<rparr>,
     mb_counter_last_accepted_prep := Some (cp_counter_latest_prep (us_data (my_checkpoint cert))),
     mb_last_checkpoint_cert := Some cert, mb_recovering := False\<rparr>"

lemma restore_checkpoint_core:
  assumes "restore_checkpoint H cert storage mb = Some mb'"
  shows "\<exists>u. fold_opt (add_attestation H) (cp_usig_attestations (us_data (my_checkpoint cert))) (mb_usig mb) = Some u \<and>
    mb_core mb' = mb_core (restored_core u cert mb)"
  using assms by (auto simp: restore_checkpoint_def restored_core_def Let_def core_simps split: bind_splits)

section \<open>Every handler keeps an invariant\<close>

locale replica_steps = replica_base H I
  for H :: "('p, 'u, 'sig, 'att, 'z) crypto_scheme" and I :: "('p, 'u, 'sig, 'att) replica \<Rightarrow> bool" +
  assumes collect: "\<lbrakk>I (mb, out); mb_view_state mb = VS_InView iv;
        mb_counter_last_accepted_prep mb < Some (signed_counter H (vp_prepare msg));
        collect_and_accept H b msg iv (mb, out) = Some s'\<rbrakk> \<Longrightarrow> I s'"
    and change: "I (mb, out) \<Longrightarrow> I (mb\<lparr>mb_view_state := VS_ChangeInProgress cip\<rparr>, out)"
    and requested: "\<lbrakk>I (mb, out); mb_view_state mb = VS_InView iv\<rbrakk> \<Longrightarrow>
      I (mb\<lparr>mb_view_state := VS_InView (iv\<lparr>iv_has_requested_view_change := True\<rparr>)\<rparr>, out)"
    and enter: "I (mb, out) \<Longrightarrow> I (mb\<lparr>mb_view_state := VS_InView \<lparr>iv_view = v, iv_has_requested_view_change = False,
        iv_collector_commits = collector_commits_new\<rparr>, mb_counter_last_accepted_prep := c\<rparr>, out)"
    and stable: "I (mb, out) \<Longrightarrow>
      I (mb\<lparr>mb_sent_usig_msgs := clear_message_log H cert (mb_sent_usig_msgs mb), mb_last_checkpoint_cert := Some cert\<rparr>, out)"
    and recovered: "\<lbrakk>I (mb, out); mb_recovering mb\<rbrakk> \<Longrightarrow> I (mb\<lparr>mb_last_checkpoint_cert := Some cert, mb_recovering := False\<rparr>, out)"
    and unsigned: "\<lbrakk>I (mb, out); \<And>msg. m \<noteq> PM_Usig msg\<rbrakk> \<Longrightarrow> I (mb_broadcast m (mb, out))"
begin

lemma process_prepare_inv:
  assumes "I s" "process_prepare H p s = Some s'"
  shows "I s'"
proof -
  obtain mb out where s: "s = (mb, out)" by (cases s)
  obtain iv where iv: "mb_view_state mb = VS_InView iv" using assms(2) by (auto simp: s process_prepare_def split: view_state.splits)
  show ?thesis
  proof (cases "Some (signed_counter H p) \<le> mb_counter_last_accepted_prep mb")
    case False
    then obtain ok s1 where s1: "(if prepare_origin p \<noteq> mb_me mb then broadcast_commit H p (mb, out) else Some (True, mb, out)) = Some (ok, s1)"
      "(if \<not> ok then Some s1 else collect_and_accept H True (VP_Prepare p) iv s1) = Some s'"
      using assms(2) iv by (auto simp: s process_prepare_def split: bind_splits)
    have I1: "I s1" using s1(1) assms(1) broadcast_commit_inv by (auto simp: s split: if_splits)
    have "keeps s s1" using s1(1) kept.broadcast_commit_inv [OF keeps_refl] by (cases s1) (auto simp: s split: if_splits)
    then have "mb_view_state (fst s1) = VS_InView iv" "mb_counter_last_accepted_prep (fst s1) < Some (signed_counter H p)"
      using iv False by (auto simp: keeps_def s split: prod.splits)
    then show ?thesis
      using s1(2) I1 collect [of "fst s1" "snd s1" iv "VP_Prepare p" True s'] by (auto split: if_splits)
  qed (use assms iv in \<open>simp add: s process_prepare_def\<close>)
qed

lemma process_commit_inv:
  assumes "I s" "process_commit H c s = Some s'"
  shows "I s'"
proof -
  obtain mb out where s: "s = (mb, out)" by (cases s)
  obtain iv where iv: "mb_view_state mb = VS_InView iv" using assms(2) by (auto simp: s process_commit_def split: view_state.splits)
  show ?thesis
    using assms iv collect [of mb out iv "VP_Commit c" False s'] by (auto simp: s process_commit_def split: if_splits)
qed

lemma process_view_message_inv: "I s \<Longrightarrow> process_view_message H msg s = Some s' \<Longrightarrow> I s'"
  by (auto simp: process_view_message_def split: view_state.splits if_splits view_peer_message.splits
      dest: process_prepare_inv process_commit_inv)

lemma process_checkpoint_inv:
  assumes "I s" "process_checkpoint H cp s = Some s'"
  shows "I s'"
proof -
  obtain mb out where s: "s = (mb, out)" by (cases s)
  obtain k c where c: "collect_checkpoint cp (mb_collector_checkpoints mb) = (k, c)" by fastforce
  obtain r c1 where c1: "retrieve_collected_checkpoints cp (mb_config mb) c = (r, c1)" by fastforce
  show ?thesis
  proof (cases "k \<le> cfg_t (mb_config mb) \<or> r = None")
    case True
    with assms c c1 show ?thesis
      by (elim changes_freely) (auto simp: s process_checkpoint_def core_simps split: if_splits)
  next
    case False
    then obtain cert where r: "r = Some cert" by blast
    let ?mb1 = "mb\<lparr>mb_collector_checkpoints := c1, mb_sent_usig_msgs := clear_message_log H cert (mb_sent_usig_msgs mb),
        mb_awaiting_recovery_reply := []\<rparr>"
    obtain s1 where s1: "fold_opt (answer_recovery cert) (mb_awaiting_recovery_reply mb) (?mb1, out) = Some s1"
      "s' = (fst s1\<lparr>mb_last_checkpoint_cert := Some cert\<rparr>, snd s1)"
      using assms(2) False c c1 r by (auto simp: s process_checkpoint_def)
    from answer_recoveries [OF s1(1)] obtain x out' where "s1 = (?mb1\<lparr>mb_awaiting_recovery_reply := x\<rparr>, out')"
      "nro_broadcasts out' = nro_broadcasts out" by blast
    then show ?thesis using stable [OF assms(1) [unfolded s], of cert]
      by (elim changes_freely) (simp_all add: s1(2) core_simps)
  qed
qed

lemma process_req_view_change_inv:
  assumes "I s" "process_req_view_change H r req s = Some s'"
  shows "I s'"
proof -
  obtain mb out where s: "s = (mb, out)" by (cases s)
  obtain k c where c: "rvc_collect req r (mb_collector_rvc mb) = (k, c)" by fastforce
  let ?mb1 = "mb\<lparr>mb_collector_rvc := c\<rparr>"
  let ?cip = "\<lparr>cip_prev_view = rvc_prev_view req, cip_next_view = rvc_next_view req, cip_has_broadcast_view_change = True\<rparr>"
  have "I (?mb1, out)" using assms(1) by (elim changes_freely) (simp_all add: s core_simps)
  from change [OF this, of ?cip] have
    "I (?mb1\<lparr>mb_view_state := VS_ChangeInProgress ?cip\<rparr>, out_timeout_request new_stop_any_client_req out)"
    by (elim changes_freely) (simp_all add: core_simps)
  with \<open>I (?mb1, out)\<close> assms c show ?thesis
    by (auto simp: s process_req_view_change_def Let_def split: if_splits dest: broadcast_view_change_inv)
qed

lemma process_view_change_inv:
  assumes "I s" "process_view_change H vc s = Some s'"
  shows "I s'"
proof -
  obtain mb out where s: "s = (mb, out)" by (cases s)
  obtain k c where c: "collect_view_change vc (mb_collector_vc mb) = (k, c)" by fastforce
  obtain r c1 where c1: "retrieve_collected_view_changes vc (mb_config mb) c = (r, c1)" by fastforce
  let ?t = "new_start_view_change (mb_current_timeout_duration mb)"
  have I1: "I (mb\<lparr>mb_collector_vc := x\<rparr>, out)" "I (mb\<lparr>mb_collector_vc := x\<rparr>, out_timeout_request ?t out)" for x
    using assms(1) by (auto elim!: changes_freely simp: s core_simps)
  have I2: "I (mb\<lparr>mb_view_state := VS_ChangeInProgress cip, mb_collector_vc := x\<rparr>, out_timeout_request ?t out)" for x cip
    using change [OF assms(1) [unfolded s], of cip] by (elim changes_freely) (simp_all add: core_simps)
  show ?thesis
  proof (cases "mb_view_state mb")
    case (VS_InView iv)
    with assms c c1 I1 I2 show ?thesis by (auto simp: s process_view_change_def Let_def split: if_splits)
  next
    case (VS_ChangeInProgress cip)
    with assms c c1 I1 show ?thesis
      by (auto simp: s process_view_change_def Let_def split: if_splits bind_splits option.splits dest: broadcast_new_view_inv)
  qed
qed

lemma enter_view_inv:
  assumes "I s" "enter_view H v c s = Some s'"
  shows "I s'"
proof -
  obtain mb out where s: "s = (mb, out)" by (cases s)
  define mb1 where "mb1 = mb\<lparr>mb_collector_rvc := rvc_clean_up v v (mb_collector_rvc mb),
      mb_view_state := VS_InView \<lparr>iv_view = v, iv_has_requested_view_change = False, iv_collector_commits = collector_commits_new\<rparr>,
      mb_counter_last_accepted_prep := Some c\<rparr>"
  have "I (mb1, out)" using enter [OF assms(1) [unfolded s], where v = v and c = "Some c"]
    by (elim changes_freely) (simp_all add: mb1_def core_simps)
  with assms(2) show ?thesis
    by (auto simp: s enter_view_def Let_def simp flip: mb1_def split: bind_splits if_splits prod.splits
        dest: broadcast_prepare_inv intro: finish_new_view_inv)
qed

lemma process_new_view_inv:
  assumes "I s" "process_new_view H nv s = Some s'"
  shows "I s'"
proof -
  obtain mb out where s: "s = (mb, out)" by (cases s)
  obtain cp ps where st: "compute_new_view_state H (mb_counter_last_accepted_prep mb) (nv_certificate (us_data nv)) = (cp, ps)" by fastforce
  have out: "I (mb, out_error e out)" "I (mb, out_timeout_request t out)" for e t
    using assms(1) by (auto elim!: changes_freely simp: s core_simps)
  have acc: "I s2" if "fold_opt (accept_unique_prepare H) ps (mb, out_timeout_request t out) = Some s2" for s2 t
    by (rule fold_opt_invariant [where I = I, OF _ out(2) that]) (rule accept_unique_prepare_inv)
  show ?thesis
    using assms acc out(1) st
    by (auto simp: s process_new_view_def Let_def dest: enter_view_inv
        split: bind_splits view_state.splits if_splits checkpoint_verdict.splits)
qed

lemma process_usig_message_ordered_inv: "I s \<Longrightarrow> process_usig_message_ordered H m s = Some s' \<Longrightarrow> I s'"
  by (cases m) (auto simp: Let_def split: bind_splits dest: process_view_message_inv forward_batch_inv process_view_change_inv
      process_new_view_inv process_checkpoint_inv)

lemma fold_ordered_inv: "I s \<Longrightarrow> fold_opt (process_usig_message_ordered H) ms s = Some s' \<Longrightarrow> I s'"
  by (rule fold_opt_invariant [where I = I]) (rule process_usig_message_ordered_inv)

lemma enforce_order_inv:
  assumes "I s" "enforce_order H m s = Some s'"
  shows "I s'"
proof -
  obtain mb out where s: "s = (mb, out)" by (cases s)
  have "I (mb\<lparr>mb_replicas_state := (mb_replicas_state mb)[i := x]\<rparr>, out)" for i x
    using assms(1) by (elim changes_freely) (simp_all add: s core_simps)
  from fold_ordered_inv [OF this] assms(2) show ?thesis
    by (auto simp: s enforce_order_def Let_def split: bind_splits prod.splits)
qed

lemma process_log_message_inv: "I s \<Longrightarrow> process_log_message H m s = Some s' \<Longrightarrow> I s'"
  by (cases m) (auto split: bind_splits dest: enforce_order_inv)

lemma fold_log_inv: "I s \<Longrightarrow> fold_opt (process_log_message H) ms s = Some s' \<Longrightarrow> I s'"
  by (rule fold_opt_invariant [where I = I]) (rule process_log_message_inv)

lemma process_nested_inv:
  assumes "I s" "process_nested H m s = Some s'"
  shows "I s'"
proof (cases m)
  case (UM_View v)
  with assms enforce_order_inv show ?thesis by (cases v) auto
qed (use assms fold_log_inv in auto)

lemma process_flat_message_inv: "I s \<Longrightarrow> process_flat_message H m s = Some s' \<Longrightarrow> I s'"
  by (auto simp: process_flat_message_def split: bind_splits dest: process_nested_inv enforce_order_inv)

lemma process_usig_message_inv:
  assumes "I s" "process_usig_message H m s = Some s'"
  shows "I s'"
proof (cases "\<exists>nv. m = UM_NewView nv")
  case True
  then obtain nv where m: "m = UM_NewView nv" by blast
  obtain s1 where s1: "fold_opt (\<lambda>vc. process_flat_message H (UM_ViewChange vc)) (nv_certificate (us_data nv)) s = Some s1"
    "enforce_order H m s1 = Some s'" using assms(2) by (auto simp: m split: bind_splits)
  have "I s1" by (rule fold_opt_invariant [where I = I, OF _ assms(1) s1(1)]) (rule process_flat_message_inv)
  from enforce_order_inv [OF this s1(2)] show ?thesis .
next
  case False
  then have "process_usig_message H m s = process_flat_message H m s" by (cases m) auto
  with assms process_flat_message_inv show ?thesis by simp
qed

lemma recheck_usig_msg_queue_inv:
  assumes "I s" "recheck_usig_msg_queue H r c s = Some s'"
  shows "I s'"
proof -
  obtain mb out where s: "s = (mb, out)" by (cases s)
  have "I (mb\<lparr>mb_replicas_state := (mb_replicas_state mb)[i := x]\<rparr>, out)" for i x
    using assms(1) by (elim changes_freely) (simp_all add: s core_simps)
  from fold_ordered_inv [OF this] assms(2) show ?thesis
    by (auto simp: s recheck_usig_msg_queue_def Let_def split: bind_splits prod.splits)
qed

lemma handle_internal_client_message_inv:
  assumes "I s" "handle_internal_client_message H c r s = Some s'"
  shows "I s'"
proof -
  obtain mb out where s: "s = (mb, out)" by (cases s)
  have I1: "I (mb\<lparr>mb_request_processor := rp, mb_runtime := rt\<rparr>, out1)" if "nro_broadcasts out1 = nro_broadcasts out" for rp rt out1
    using assms(1) that by (elim changes_freely) (simp_all add: s core_simps)
  have "nro_broadcasts (case t of Some t \<Rightarrow> out_timeout_request t out | None \<Rightarrow> out) = nro_broadcasts out" for t
    by (simp add: core_simps split: option.split)
  from I1 [OF this] process_batching_output_inv [OF I1 [OF this]] assms(2) show ?thesis
    by (cases s') (auto simp: s handle_internal_client_message_def Let_def split: bind_splits view_state.splits)
qed

lemma process_recovery_request_inv: "I s \<Longrightarrow> process_recovery_request H r a n s = Some s' \<Longrightarrow> I s'"
  by (auto simp: process_recovery_request_def Let_def split: if_splits dest: handle_internal_client_message_inv)

lemma process_hello_message_inv:
  assumes "I s" "process_hello_message H r a s = Some s'"
  shows "I s'"
proof -
  obtain mb out where s: "s = (mb, out)" by (cases s)
  obtain b u where add: "u_add_remote_party (usig H) (mb_usig mb) r a = (b, u)" by fastforce
  have "I (mb\<lparr>mb_usig := u\<rparr>, out)" using party [OF assms(1) [unfolded s] add] .
  then show ?thesis using assms(2)
    by (elim changes_freely) (auto simp: s process_hello_message_def Let_def add core_simps split: if_splits)
qed

lemma process_forwarded_inv: "I s \<Longrightarrow> process_forwarded H m s = Some s' \<Longrightarrow> I s'"
proof (cases m)
  case (UM_NewView nv)
  assume "I s" "process_forwarded H m s = Some s'"
  moreover have "I (start_forwarded_view_change v s)" if "I s" for v
    using that change [of "fst s" "snd s"] by (auto simp: start_forwarded_view_change_def split: prod.splits view_state.splits)
  ultimately show ?thesis using UM_NewView process_new_view_inv by (metis process_forwarded.simps(2))
qed (use process_view_change_inv in auto)

lemma process_recovered_counter_inv:
  assumes "I s" "process_recovered_counter H x s = Some s'"
  shows "I s'"
proof -
  obtain r c nvs where x: "x = (r, c, nvs)" by (cases x)
  obtain s1 where s1: "fold_opt (process_forwarded H) nvs s = Some s1" "recheck_usig_msg_queue H r c s1 = Some s'"
    using assms(2) by (auto simp: x process_recovered_counter_def split: bind_splits)
  have "I s1" by (rule fold_opt_invariant [where I = I, OF _ assms(1) s1(1)]) (rule process_forwarded_inv)
  from recheck_usig_msg_queue_inv [OF this s1(2)] show ?thesis .
qed

lemma process_forward_message_inv:
  assumes "I s" "process_forward_message H r n m pnv s = Some s'"
  shows "I s'"
proof -
  obtain mb out where s: "s = (mb, out)" by (cases s)
  have I1: "I (mb\<lparr>mb_collector_recovery_forwards := c\<rparr>, out)" for c
    using assms(1) by (elim changes_freely) (simp_all add: s core_simps)
  have "I s1" if "fold_opt (process_recovered_counter H) rcs (mb\<lparr>mb_collector_recovery_forwards := c\<rparr>, out) = Some s1" for rcs c s1
    by (rule fold_opt_invariant [where I = I, OF _ I1 that]) (rule process_recovered_counter_inv)
  then show ?thesis using assms
    by (cases s') (auto simp: s process_forward_message_def split: if_splits bind_splits usig_message_v.splits)
qed

lemma restore_checkpoint_inv:
  assumes "I (mb, out)" "mb_recovering mb" "restore_checkpoint H cert storage mb = Some mb'"
  shows "I (mb', out)"
proof -
  let ?cp = "us_data (my_checkpoint cert)"
  from restore_checkpoint_core [OF assms(3)] obtain u
    where u: "fold_opt (add_attestation H) (cp_usig_attestations ?cp) (mb_usig mb) = Some u"
      "mb_core mb' = mb_core (restored_core u cert mb)" by blast
  have "I (mb\<lparr>mb_usig := u\<rparr>, out)"
  proof (rule fold_opt_invariant [where I = "\<lambda>u. I (mb\<lparr>mb_usig := u\<rparr>, out)", OF _ _ u(1)])
    fix x u u' assume "I (mb\<lparr>mb_usig := u\<rparr>, out)" "add_attestation H x u = Some u'"
    then show "I (mb\<lparr>mb_usig := u'\<rparr>, out)"
      using party [of "mb\<lparr>mb_usig := u\<rparr>" out] by (auto simp: add_attestation_def split: prod.splits if_splits)
  qed (use assms(1) in simp)
  from recovered [OF enter [OF this, where v = "cp_view_latest_prep ?cp" and c = "Some (cp_counter_latest_prep ?cp)"], of cert]
  have "I (restored_core u cert mb, out)" using assms(2) by (simp add: restored_core_def)
  then show ?thesis using u(2) by (elim changes_freely) simp_all
qed

lemma retry_message_inv:
  assumes "\<And>r m s s'. I s \<Longrightarrow> process r m s = Some s' \<Longrightarrow> I s'" "I s" "retry_message H process x s = Some s'"
  shows "I s'"
proof -
  obtain r m mb out where x: "x = (r, m)" "s = (mb, out)" by (cases x; cases s)
  have "I (mb, out_error e out)" for e using assms(2) by (elim changes_freely) (simp_all add: x core_simps)
  with assms show ?thesis by (auto simp: x retry_message_def split: bind_splits sum.splits)
qed

lemma process_recovery_reply_inv:
  assumes "\<And>r m s s'. I s \<Longrightarrow> process r m s = Some s' \<Longrightarrow> I s'" "I s" "process_recovery_reply H process n st c s = Some s'"
  shows "I s'"
proof -
  obtain mb out where s: "s = (mb, out)" by (cases s)
  have fold: "I s2" if "I s1" "fold_opt (retry_message H process) xs s1 = Some s2" for s1 s2 xs
    by (rule fold_opt_invariant [where I = I, OF _ that]) (rule retry_message_inv [OF assms(1)])
  have "I s'" if rec: "mb_recovering mb" and reply: "handle_recovery_reply H process n c st s = Some s'"
  proof (cases "mb_recovering_nonce mb = Some n")
    case True
    with rec reply obtain mb1 where "restore_checkpoint H c st mb = Some mb1"
      "fold_opt (retry_message H process) (mb_recovery_unverified_usig_messages mb1) (mb1, out) = Some s'"
      by (auto simp: s handle_recovery_reply_def split: bind_splits)
    with restore_checkpoint_inv [OF assms(2) [unfolded s] rec] fold show ?thesis by blast
  qed (use rec reply assms(2) in \<open>auto simp: s handle_recovery_reply_def split: bind_splits if_splits\<close>)
  then show ?thesis using assms(2,3)
    by (cases "mb_recovering mb") (auto simp: s process_recovery_reply_def handle_recovery_reply_def split: if_splits)
qed

lemma process_peer_message_with_inv:
  assumes "\<And>r m s s'. I s \<Longrightarrow> process r m s = Some s' \<Longrightarrow> I s'" "I s" "process_peer_message_with H process r m s = Some s'"
  shows "I s'"
  using assms(2,3)
  by (cases m) (auto intro: process_recovery_reply_inv [OF assms(1)] dest: process_req_view_change_inv process_usig_message_inv process_hello_message_inv
      process_recovery_request_inv process_forward_message_inv)

lemma process_peer_message_inv: "I s \<Longrightarrow> process_peer_message H r m s = Some s' \<Longrightarrow> I s'"
  unfolding process_peer_message_def
  by (rule process_peer_message_with_inv [OF process_peer_message_with_inv]) simp_all

lemma receive_peer_message_inv:
  assumes "I s" "receive_peer_message H r m s = Some s'"
  shows "I s'"
proof -
  obtain mb out where s: "s = (mb, out)" by (cases s)
  have "I (mb, out_error e out)" "I (mb\<lparr>mb_recovery_unverified_usig_messages := x\<rparr>, out)" for e x
    using assms(1) by (auto elim!: changes_freely simp: s core_simps)
  with assms process_peer_message_inv show ?thesis
    by (cases s') (auto simp: s receive_peer_message_def split: bind_splits sum.splits if_splits)
qed

lemma process_timeout_inv:
  assumes "I s" "process_timeout H t s = Some s'"
  shows "I s'"
proof -
  obtain mb out where s: "s = (mb, out)" by (cases s)
  have free: "I (mb1\<lparr>mb_current_timeout_duration := d\<rparr>, out)" if "I (mb1, out)" for mb1 d
    using that by (elim changes_freely) (simp_all add: core_simps)
  have rp: "I (mb\<lparr>mb_request_processor := p, mb_runtime := rt\<rparr>, out)" for p rt
    using assms(1) by (elim changes_freely) (simp_all add: s core_simps)
  note s1 = assms(1) [unfolded s]
  show ?thesis
  proof (cases t)
    case TT_Batch
    with assms process_batching_output_inv [OF rp] show ?thesis
      by (cases s') (auto simp: s split: view_state.splits bind_splits)
  next
    case TT_Client
    with assms(2) s1 free [OF requested [OF s1], THEN unsigned] show ?thesis
      by (auto simp: s split: view_state.splits bind_splits if_splits)
  next
    case TT_ViewChange
    with assms(2) s1 free [OF change [OF s1], THEN unsigned] show ?thesis
      by (auto simp: s split: view_state.splits bind_splits if_splits)
  qed
qed

end

section \<open>Invariants that do not speak of the view\<close>

locale replica_simple = replica_base H I
  for H :: "('p, 'u, 'sig, 'att, 'z) crypto_scheme" and I :: "('p, 'u, 'sig, 'att) replica \<Rightarrow> bool" +
  assumes view: "I (mb, out) \<Longrightarrow> I (mb\<lparr>mb_view_state := v, mb_counter_last_accepted_prep := c\<rparr>, out)"
    and simple_stable: "I (mb, out) \<Longrightarrow>
      I (mb\<lparr>mb_sent_usig_msgs := clear_message_log H cert (mb_sent_usig_msgs mb), mb_last_checkpoint_cert := Some cert\<rparr>, out)"
    and simple_recovered: "\<lbrakk>I (mb, out); mb_recovering mb\<rbrakk> \<Longrightarrow>
      I (mb\<lparr>mb_last_checkpoint_cert := Some cert, mb_recovering := False\<rparr>, out)"
    and simple_unsigned: "\<lbrakk>I (mb, out); \<And>msg. m \<noteq> PM_Usig msg\<rbrakk> \<Longrightarrow> I (mb_broadcast m (mb, out))"
begin

lemma view_only: "I (mb, out) \<Longrightarrow> I (mb\<lparr>mb_view_state := v\<rparr>, out)"
  using view [of mb out, where v = v and c = "mb_counter_last_accepted_prep mb"] by simp

lemma counter_only: "I (mb, out) \<Longrightarrow> I (mb\<lparr>mb_counter_last_accepted_prep := c\<rparr>, out)"
  using view [of mb out, where v = "mb_view_state mb" and c = c] by simp

lemma accept_acceptable_inv: "I s \<Longrightarrow> accept_acceptable H b ps s = Some s' \<Longrightarrow> I s'"
proof (induction ps arbitrary: s)
  case (Cons p ps)
  then obtain ok mb out where one: "accept_one H p s = Some (ok, mb, out)" by (auto split: bind_splits)
  have I1: "I (mb, out)" by (rule accept_one_inv [OF Cons.prems(1) one])
  show ?case
  proof (cases "\<not> ok \<and> b")
    case True
    then show ?thesis using Cons.prems one I1 by auto
  next
    case False
    then have "accept_acceptable H b ps (mb\<lparr>mb_counter_last_accepted_prep := Some (signed_counter H p)\<rparr>, out) = Some s'"
      using Cons.prems one by auto
    from Cons.IH [OF counter_only [OF I1] this] show ?thesis .
  qed
qed simp

end

sublocale replica_simple \<subseteq> replica_steps H I
proof (unfold_locales, goal_cases)
  case (1 mb out iv msg b s')
  then show ?case using accept_acceptable_inv [OF view_only [OF 1(1)]]
    by (cases s') (auto simp: collect_and_accept_def split: bind_splits)
qed (use view view_only simple_stable simple_recovered simple_unsigned in blast)+

section \<open>Broadcasts are only appended\<close>

interpretation appends: replica_simple H "\<lambda>s. \<exists>ms. nro_broadcasts (snd s) = bs @ ms"
  for H :: "('p, 'u, 'sig, 'att, 'z) crypto_scheme" and bs :: "('p, 'sig, 'att) validated_peer_message list"
  by unfold_locales (auto simp: mb_broadcast_eq)

interpretation own: reflectable "process_reflected_peer_message H"
  for H :: "('p, 'u, 'sig, 'att, 'z) crypto_scheme"
proof unfold_locales
  fix m s s' assume "process_reflected_peer_message H m s = Some s'"
  then show "\<exists>ms. nro_broadcasts (snd s') = nro_broadcasts (snd s) @ ms"
    using appends.process_peer_message_inv [where bs = "nro_broadcasts (snd s)" and s = s]
    unfolding process_reflected_peer_message_def by simp
qed

section \<open>The recursion of the message processing\<close>

interpretation recovered: replica_simple H "\<lambda>s. \<not> mb_recovering (fst s)"
  for H :: "('p, 'u, 'sig, 'att, 'z) crypto_scheme"
  by unfold_locales (auto simp: mb_broadcast_eq mb_core_def)

lemma fold_opt_agree:
  assumes "\<And>x s. I s \<Longrightarrow> f x s = g x s" "\<And>x s s'. I s \<Longrightarrow> f x s = Some s' \<Longrightarrow> I s'"
  shows "I s \<Longrightarrow> fold_opt f xs s = fold_opt g xs s"
proof (induction xs arbitrary: s)
  case (Cons x xs)
  have eq: "g x s = f x s" using assms(1) [OF Cons.prems] by simp
  show ?case
  proof (cases "f x s")
    case (Some s1)
    from Cons.IH [OF assms(2) [OF Cons.prems Some]] show ?thesis by (simp add: eq Some)
  qed (simp add: eq)
qed simp

lemma process_peer_message_with_agree:
  "\<not> mb_recovering (fst s) \<Longrightarrow> process_peer_message_with H p r m s = process_peer_message_with H q r m s"
  by (cases m) (auto simp: process_recovery_reply_def handle_recovery_reply_def split: prod.splits)

text \<open>
  Processing a peer message satisfies the recursive equation of the source, in which the stored
  messages of a recovering replica are processed by \<open>process_peer_message\<close> itself.
\<close>

theorem process_peer_message_rec: "process_peer_message H = process_peer_message_with H (process_peer_message H)"
proof (intro ext)
  fix r m and s :: "('a, 'd, 'b, 'c) replica"
  let ?p = "process_peer_message_with H (\<lambda>_ _ _. None)" and ?q = "process_peer_message H"
  have retry: "retry_message H ?p x s = retry_message H ?q x s" if "\<not> mb_recovering (fst s)" for x s
    using process_peer_message_with_agree [OF that, of H "\<lambda>_ _ _. None" _ _ ?p]
    by (auto simp: retry_message_def process_peer_message_def split: prod.splits bind_splits sum.splits)
  have keep: "\<not> mb_recovering (fst s')" if "\<not> mb_recovering (fst s)" "retry_message H ?p x s = Some s'" for x s s'
    by (rule recovered.retry_message_inv [OF recovered.process_peer_message_with_inv that]) simp_all
  have fold: "fold_opt (retry_message H ?p) xs s = fold_opt (retry_message H ?q) xs s" if "\<not> mb_recovering (fst s)" for xs s
    by (rule fold_opt_agree [where I = "\<lambda>s. \<not> mb_recovering (fst s)", OF retry keep that])
  have rest: "\<not> mb_recovering mb'" if "restore_checkpoint H c st mb = Some mb'" for c st mb mb'
    using restore_checkpoint_core [OF that] by (auto simp: restored_core_def mb_core_def)
  obtain mb out where s: "s = (mb, out)" by (cases s)
  have "handle_recovery_reply H ?p n c st s = handle_recovery_reply H ?q n c st s" for n c st
    using fold [of "(_, out)"] rest [of c st mb]
    by (cases "mb_recovering_nonce mb"; cases "restore_checkpoint H c st mb") (auto simp: s handle_recovery_reply_def)
  then have "process_recovery_reply H ?p n st c s = process_recovery_reply H ?q n st c s" for n st c
    by (simp add: process_recovery_reply_def)
  then have "process_peer_message_with H ?p r m s = process_peer_message_with H ?q r m s" by (cases m) simp_all
  then show "process_peer_message H r m s = process_peer_message_with H ?q r m s" by (simp add: process_peer_message_def)
qed

section \<open>Reachable replicas\<close>

text \<open>The states of a replica that was created with the USIG \<open>u0\<close>, after any sequence of public operations.\<close>

inductive mb_reachable :: "('p, 'u, 'sig, 'att, 'z) crypto_scheme \<Rightarrow> 'u \<Rightarrow> ('p, 'u, 'sig, 'att) min_bft \<Rightarrow> bool" for H u0 where
  reach_new: "mb_new H u0 config recovering nonce rt = Some (Inr (mb, out)) \<Longrightarrow> mb_reachable H u0 mb"
| reach_client: "mb_reachable H u0 mb \<Longrightarrow> handle_client_message H client i request mb = Some (mb', out) \<Longrightarrow> mb_reachable H u0 mb'"
| reach_peer: "mb_reachable H u0 mb \<Longrightarrow> handle_peer_message H from message mb = Some (mb', out) \<Longrightarrow> mb_reachable H u0 mb'"
| reach_timeout: "mb_reachable H u0 mb \<Longrightarrow> handle_timeout H t mb = Some (mb', out) \<Longrightarrow> mb_reachable H u0 mb'"

locale mb_invariant = replica_steps H "\<lambda>s. J (fst s)"
  for H :: "('p, 'u, 'sig, 'att, 'z) crypto_scheme" and J :: "('p, 'u, 'sig, 'att) min_bft \<Rightarrow> bool" +
  fixes u0 :: 'u
  assumes initial: "initial_replica u0 config recovering rt = Some mb \<Longrightarrow> J mb"
    and attested: "\<lbrakk>J mb; u_attest (usig H) (mb_usig mb) = (r, u')\<rbrakk> \<Longrightarrow> J (mb\<lparr>mb_usig := u'\<rparr>)"
    and nonce: "J mb \<Longrightarrow> J (mb\<lparr>mb_recovering_nonce := Some n\<rparr>)"
begin

lemma mb_reflect_inv:
  assumes "J (fst s)" "mb_reflect H s = Some (mb', out')"
  shows "J mb'"
proof -
  obtain s' where s': "reflect_loop (process_reflected_peer_message H) 0 s = Some s'" "mb' = fst s'"
    using assms(2) by (auto simp: mb_reflect_def out_reflect_def split: bind_splits)
  have fold: "fold_opt (process_reflected_peer_message H) (drop 0 (nro_broadcasts (snd s'))) s = Some s'"
    using own.reflect_loop_processes [OF s'(1)] by (simp add: own.reflected_def)
  have "J (fst s')"
    by (rule fold_opt_invariant [where I = "\<lambda>s. J (fst s)", OF _ assms(1) fold])
      (auto simp: process_reflected_peer_message_def intro: process_peer_message_inv)
  then show ?thesis by (simp add: s'(2))
qed

lemma mb_broadcast_inv: "J mb \<Longrightarrow> (\<And>msg. m \<noteq> PM_Usig msg) \<Longrightarrow> J (fst (mb_broadcast m (mb, out)))"
  using unsigned [of mb out m] by simp

lemma mb_new_inv:
  assumes "mb_new H u0 config recovering n rt = Some (Inr (mb, out))"
  shows "J mb"
proof -
  obtain mb0 :: "('p, 'u, 'sig, 'att) min_bft" where mb0: "initial_replica u0 config recovering rt = Some mb0"
    using assms by (auto simp: mb_new_def split: bind_splits)
  obtain r u where u: "u_attest (usig H) (mb_usig mb0) = (r, u)" by fastforce
  have J: "J (mb0\<lparr>mb_usig := u\<rparr>)" by (rule attested [OF initial [OF mb0] u])
  obtain s where s: "(if recovering then create_recovery_request H n mb0 else Some (attest H mb0)) = Some (Inr s)"
    "mb_reflect H s = Some (mb, out)"
    using assms mb0 by (auto simp: mb_new_def split: bind_splits sum.splits)
  have "J (fst s)"
    using s(1) u mb_broadcast_inv [OF J] mb_broadcast_inv [OF nonce [OF J]]
    by (auto simp: create_recovery_request_def attest_def split: if_splits sum.splits bind_splits)
  from mb_reflect_inv [OF this s(2)] show ?thesis .
qed

lemma reachable_inv:
  assumes "mb_reachable H u0 mb"
  shows "J mb"
  using assms
proof induction
  case (reach_new config recovering nonce rt mb out)
  then show ?case by (rule mb_new_inv)
next
  case (reach_client mb client i request mb' out)
  then obtain s where "handle_internal_client_message H client (WRP_Client i request) (mb, out_new (ready_for_client_requests mb)) = Some s"
    "mb_reflect H s = Some (mb', out)"
    by (auto simp: handle_client_message_def handle_wrapped_client_message_def split: bind_splits)
  with reach_client handle_internal_client_message_inv mb_reflect_inv show ?case by (metis fst_conv)
next
  case (reach_peer mb r m mb' out)
  then obtain s where "receive_peer_message H r m (mb, out_new (ready_for_client_requests mb)) = Some s" "mb_reflect H s = Some (mb', out)"
    by (auto simp: handle_peer_message_def split: bind_splits)
  with reach_peer receive_peer_message_inv mb_reflect_inv show ?case by (metis fst_conv)
next
  case (reach_timeout mb t mb' out)
  then obtain s where "process_timeout H t (mb, out_new (ready_for_client_requests mb)) = Some s" "mb_reflect H s = Some (mb', out)"
    by (auto simp: handle_timeout_def split: bind_splits)
  with reach_timeout process_timeout_inv mb_reflect_inv show ?case by (metis fst_conv)
qed

end

end
