(* ===== verification/Minbft_Safety.thy ===== *)
theory Minbft_Safety
  imports Minbft_Frame
begin

text \<open>
  Properties of a whole MinBFT replica, for every state it can reach: the order in which Prepares are
  accepted, the log of its own signed messages, what it does with its own broadcasts, the state of a
  new view, and behaviours of the view change and the recovery that their documentation excludes.
\<close>

section \<open>Invariants\<close>

subsection \<open>The collector and the counter of the last accepted Prepare\<close>

definition prep_inv :: "('p, 'u, 'sig, 'att, 'z) crypto_scheme \<Rightarrow> ('p, 'u, 'sig, 'att) min_bft \<Rightarrow> bool" where
  "prep_inv H mb \<longleftrightarrow> (case mb_view_state mb of
     VS_InView iv \<Rightarrow> cc_inv H (iv_collector_commits iv) \<and>
       (\<forall>k \<in> set (hm_keys (prepares (iv_collector_commits iv))). mb_counter_last_accepted_prep mb < Some k)
   | VS_ChangeInProgress _ \<Rightarrow> True)"

lemma collect_and_accept_order:
  assumes inv: "cc_inv H (iv_collector_commits iv)"
      "\<forall>k \<in> set (hm_keys (prepares (iv_collector_commits iv))). mb_counter_last_accepted_prep mb < Some k"
    and new: "mb_counter_last_accepted_prep mb < Some (signed_counter H (vp_prepare msg))"
    and col: "collect_commit H msg (mb_config mb) (iv_collector_commits iv) = Some (acc, c)"
  shows "cc_inv H c \<and> sorted_wrt (<) (map (\<lambda>a. signed_counter H (fst a)) acc @ hm_keys (prepares c)) \<and>
    (\<forall>k \<in> set (map (\<lambda>a. signed_counter H (fst a)) acc @ hm_keys (prepares c)). mb_counter_last_accepted_prep mb < Some k)"
  using collect_commit_order [OF inv(1) col] inv(2) new by (metis insert_iff)

lemma prep_inv_collect:
  assumes "prep_inv H mb" "mb_view_state mb = VS_InView iv"
    and new: "mb_counter_last_accepted_prep mb < Some (signed_counter H (vp_prepare msg))"
    and acc: "collect_and_accept H b msg iv (mb, out) = Some s'"
  shows "prep_inv H (fst s')"
proof -
  obtain acc c where col: "collect_commit H msg (mb_config mb) (iv_collector_commits iv) = Some (acc, c)"
    and loop: "accept_acceptable H b (map fst acc) (mb\<lparr>mb_view_state := VS_InView (iv\<lparr>iv_collector_commits := c\<rparr>)\<rparr>, out) = Some s'"
    using acc by (auto simp: collect_and_accept_def split: bind_splits)
  have order: "cc_inv H c" "sorted_wrt (<) (map (\<lambda>a. signed_counter H (fst a)) acc @ hm_keys (prepares c))"
    "\<forall>k \<in> set (map (\<lambda>a. signed_counter H (fst a)) acc @ hm_keys (prepares c)). mb_counter_last_accepted_prep mb < Some k"
    using collect_and_accept_order [OF _ _ new col] assms(1,2) by (auto simp: prep_inv_def)
  have view: "mb_view_state (fst s') = VS_InView (iv\<lparr>iv_collector_commits := c\<rparr>)"
    and counter: "mb_counter_last_accepted_prep (fst s') \<in> insert (mb_counter_last_accepted_prep mb) ((\<lambda>p. Some (signed_counter H p)) ` set (map fst acc))"
    using accept_acceptable_counter [OF loop] by (auto simp: keeps_view_def split: prod.splits)
  have "\<forall>x \<in> set (map (\<lambda>a. signed_counter H (fst a)) acc). \<forall>k \<in> set (hm_keys (prepares c)). x < k"
    using order(2) unfolding sorted_wrt_append by blast
  then have "mb_counter_last_accepted_prep (fst s') < Some k" if k: "k \<in> set (hm_keys (prepares c))" for k
  proof (cases "mb_counter_last_accepted_prep (fst s') = mb_counter_last_accepted_prep mb")
    case True
    then show ?thesis using order(3) k by (metis UnI2 set_append)
  next
    case False
    then obtain a where "a \<in> set acc" "mb_counter_last_accepted_prep (fst s') = Some (signed_counter H (fst a))"
      using counter by auto
    then show ?thesis using \<open>\<forall>x \<in> _. \<forall>k \<in> _. x < k\<close> k by auto
  qed
  then show ?thesis using order(1) by (simp add: prep_inv_def view)
qed

interpretation preps: mb_invariant H "prep_inv H" u0 for H :: "('p, 'u, 'sig, 'att, 'z) crypto_scheme" and u0
proof (unfold_locales, goal_cases)
  case (5 mb out iv msg b s')
  then show ?case using prep_inv_collect by (metis fst_conv)
qed (auto simp: prep_inv_def mb_core_def mb_broadcast_eq cc_inv_new [unfolded collector_commits_new_def, simplified] collector_commits_new_def initial_replica_def view_state_new_def
    split: bind_splits view_state.splits)

subsection \<open>The log of own messages\<close>

text \<open>
  The log holds the last messages that the replica signed, without gaps, up to the next counter of its
  USIG. Nothing is missing at its beginning as long as there is no stable checkpoint.
\<close>

definition log_inv ::
    "('p, 'u, 'sig, 'att, 'z) crypto_scheme \<Rightarrow> ('u \<Rightarrow> count) \<Rightarrow> ('p, 'u, 'sig, 'att) min_bft \<Rightarrow> bool" where
  "log_inv H cnt mb \<longleftrightarrow>
     (\<exists>a \<le> unat (cnt (mb_usig mb)). map (\<lambda>m. unat (usig_message_counter H m)) (mb_sent_usig_msgs mb) = [a..<unat (cnt (mb_usig mb))] \<and>
       (mb_last_checkpoint_cert mb = None \<longrightarrow> a = 0)) \<and>
     (\<forall>m \<in> set (mb_sent_usig_msgs mb). usig_message_origin m = mb_me mb)"

lemma log_inv_cong:
  "cnt (mb_usig mb') = cnt (mb_usig mb) \<Longrightarrow> mb_sent_usig_msgs mb' = mb_sent_usig_msgs mb \<Longrightarrow> mb_config mb' = mb_config mb \<Longrightarrow>
   (mb_last_checkpoint_cert mb' = None \<Longrightarrow> mb_last_checkpoint_cert mb = None) \<Longrightarrow> log_inv H cnt mb \<Longrightarrow> log_inv H cnt mb'"
  unfolding log_inv_def by auto

lemma filter_upt_gt: "filter (\<lambda>i. k < i) [a..<b] = [max a (Suc k)..<b]"
proof (induction b)
  case (Suc b)
  then show ?case by (cases "a \<le> b") (auto simp: max_def not_less_eq_eq le_Suc_eq)
qed simp

lemma log_inv_clear:
  assumes "log_inv H cnt mb"
  shows "log_inv H cnt (mb\<lparr>mb_sent_usig_msgs := clear_message_log H cert (mb_sent_usig_msgs mb), mb_last_checkpoint_cert := Some cert\<rparr>)"
proof -
  let ?log = "mb_sent_usig_msgs mb" and ?n = "unat (cnt (mb_usig mb))" and ?c = "\<lambda>m. unat (usig_message_counter H m)"
  let ?cp = "us_data (my_checkpoint cert)"
  obtain a where a: "a \<le> ?n" "map ?c ?log = [a..<?n]" using assms by (auto simp: log_inv_def)
  have orig: "\<forall>m \<in> set ?log. usig_message_origin m = mb_me mb" using assms by (auto simp: log_inv_def)
  show ?thesis
  proof (cases "List.find (is_latest_prep H (cp_view_latest_prep ?cp) (cp_counter_latest_prep ?cp)) ?log")
    case None
    then show ?thesis using a orig by (auto simp: log_inv_def clear_message_log_def Let_def)
  next
    case (Some u)
    then have "u \<in> set ?log" by (auto simp: find_Some_iff)
    then have "?c u \<in> set (map ?c ?log)" by simp
    then have u: "?c u < ?n" unfolding a(2) by simp
    have clear: "clear_message_log H cert ?log = filter (\<lambda>x. ?c u < ?c x) ?log"
      using Some by (simp add: clear_message_log_def Let_def word_less_nat_alt)
    have "map ?c (filter (\<lambda>x. ?c u < ?c x) ?log) = filter (\<lambda>i. ?c u < i) (map ?c ?log)" by (simp add: filter_map comp_def)
    also have "\<dots> = [max a (Suc (?c u))..<?n]" unfolding a(2) filter_upt_gt ..
    finally show ?thesis using u a(1) orig by (auto simp: log_inv_def clear intro!: exI [of _ "max a (Suc (?c u))"])
  qed
qed

locale signing_replica =
  fixes H :: "('p, 'u, 'sig, 'att, 'z) crypto_scheme" and cnt :: "'u \<Rightarrow> count" and u0 :: 'u
  assumes sign_counts: "u_sign (usig H) d u = Some (Inr sg, u') \<Longrightarrow>
      u_counter (usig H) sg = cnt u \<and> cnt u \<noteq> - 1 \<and> cnt u' = cnt u + 1"
    and sign_fails: "u_sign (usig H) d u = Some (Inl e, u') \<Longrightarrow> cnt u' = cnt u"
    and attest_keeps: "u_attest (usig H) u = (r, u') \<Longrightarrow> cnt u' = cnt u"
    and party_keeps: "u_add_remote_party (usig H) u i a = (b, u') \<Longrightarrow> cnt u' = cnt u"
    and fresh: "cnt u0 = 0"
begin

lemma log_inv_signed:
  assumes "log_inv H cnt mb" "u_sign (usig H) d (mb_usig mb) = Some (Inr sg, u')"
    "usig_message_counter H msg = u_counter (usig H) sg" "usig_message_origin msg = mb_me mb"
  shows "log_inv H cnt (fst (mb_broadcast (PM_Usig msg) (mb\<lparr>mb_usig := u'\<rparr>, out)))"
proof -
  have c: "usig_message_counter H msg = cnt (mb_usig mb)" "cnt u' = cnt (mb_usig mb) + 1" "cnt (mb_usig mb) \<noteq> - 1"
    using sign_counts [OF assms(2)] assms(3) by auto
  have n: "unat (cnt u') = Suc (unat (cnt (mb_usig mb)))"
    using c(2,3) by (simp add: unat_add_one)
  show ?thesis using assms(1,4) by (auto simp: log_inv_def mb_broadcast_eq n c(1) me_def)
qed

lemma log_inv_initial: "initial_replica u0 config recovering rt = Some mb \<Longrightarrow> log_inv H cnt mb"
  by (auto simp: initial_replica_def log_inv_def fresh split: bind_splits)

end

sublocale signing_replica \<subseteq> logging: replica_simple H "\<lambda>s. log_inv H cnt (fst s)"
proof (unfold_locales, goal_cases)
  case (1 mb out mb' out')
  then show ?case by (auto simp: mb_core_def elim!: log_inv_cong [rotated -1])
next
  case (2 mb out d sg u' msg)
  then show ?case using log_inv_signed by simp
next
  case (3 mb out d e u')
  then show ?case using sign_fails by (auto elim!: log_inv_cong [rotated -1])
next
  case (4 mb out i a b u')
  then show ?case using party_keeps by (auto elim!: log_inv_cong [rotated -1])
next
  case (6 mb out cert)
  then show ?case using log_inv_clear by simp
qed (auto simp: mb_broadcast_eq split: validated_peer_message.splits elim!: log_inv_cong [rotated -1])

sublocale signing_replica \<subseteq> logged: mb_invariant H "log_inv H cnt" u0
proof (unfold_locales, goal_cases)
  case (1 config recovering rt mb)
  then show ?case by (rule log_inv_initial)
next
  case (2 mb r u')
  then show ?case using attest_keeps by (auto elim!: log_inv_cong [rotated -1])
qed (auto elim!: log_inv_cong [rotated -1])

context signing_replica
begin

lemma reachable_log: "mb_reachable H u0 mb \<Longrightarrow> log_inv H cnt mb"
  by (rule logged.reachable_inv)

end

subsection \<open>USIGs with checked counters\<close>

text \<open>
  The USIG in a build with overflow checks, where the increment of the greatest counter panics. The
  laws of a USIG then are those that a replica needs for its log, for each of the three USIGs.
\<close>

definition checked_usig :: "('u \<Rightarrow> count) \<Rightarrow> ('u, 'sig, 'att) usig_ops \<Rightarrow> ('u, 'sig, 'att) usig_ops" where
  "checked_usig cnt ops = ops\<lparr>u_sign := \<lambda>m u. if cnt u = - 1 then None else u_sign ops m u\<rparr>"

lemma checked_signing:
  assumes "usig_service ops cnt key key_of accepts" "cnt u0 = 0"
  shows "signing_replica (H\<lparr>usig := checked_usig cnt ops\<rparr>) cnt u0"
  using assms(2) usig_service.sign_Inr [OF assms(1)]
    usig_service.attest_frame [OF assms(1)] usig_service.add_remote_party_eq [OF assms(1)]
  by unfold_locales (auto simp: checked_usig_def split: if_splits dest: usig_service.sign_Inl [OF assms(1)])

interpretation noop_replica: signing_replica
    "H\<lparr>usig := checked_usig (\<lambda>u. noop_counter (noop_sign_half u)) usig_noop_ops\<rparr>"
    "\<lambda>u. noop_counter (noop_sign_half u)" usig_noop_default
  for H :: "('p, usig_noop, noop_signature, dummy_attestation) crypto"
  by (rule checked_signing [OF noop.usig_service_axioms]) (simp add: usig_noop_default_def)

interpretation sgn_replica: signing_replica
    "H\<lparr>usig := checked_usig (\<lambda>u. sgh_counter (sg_sign_half u)) (usig_signature_ops signer verifier)\<rparr>"
    "\<lambda>u. sgh_counter (sg_sign_half u)" "usig_signature_new sk pk"
  for H and signer :: "'sk \<Rightarrow> bytes \<Rightarrow> 's" and verifier :: "'pk \<Rightarrow> bytes \<Rightarrow> 's \<Rightarrow> bool" and sk pk
  by (rule checked_signing [OF sgn.usig_service_axioms]) (simp add: usig_signature_new_def sg_sign_half_new_def)

interpretation tee_replica: signing_replica
    "H\<lparr>usig := checked_usig tee_count (usig_tee_ops edge ec_sign ec_verify kp0)\<rparr>" tee_count usig_tee_init
  for H edge and ec_sign :: "'sk \<Rightarrow> bytes \<Rightarrow> 's option" and ec_verify :: "'pk \<Rightarrow> bytes \<Rightarrow> 's \<Rightarrow> bool option" and kp0
  by (rule checked_signing [OF tee.usig_service_axioms]) (simp add: usig_tee_init_def tee_count_def)

section \<open>The execution of a replica\<close>

definition mb_abs :: "('p, 'u, 'sig, 'att) min_bft \<Rightarrow> spec_state" where
  "mb_abs mb = rp_abs (mb_request_processor mb) (mb_recovering_replicas mb) (mb_replica_storage mb)"

text \<open>Agreement on the storage, the last executed requests and the round.\<close>

definition same_exec :: "spec_state \<Rightarrow> spec_state \<Rightarrow> bool" where
  "same_exec a b \<longleftrightarrow> sp_last a = sp_last b \<and> sp_storage a = sp_storage b \<and> sp_round a = sp_round b"

lemma same_exec_refl [simp]: "same_exec a a"
  by (simp add: same_exec_def)

lemma same_exec_trans: "same_exec a b \<Longrightarrow> same_exec b c \<Longrightarrow> same_exec a c"
  by (simp add: same_exec_def)

definition spec_accept_all ::
    "('p, 'u, 'sig, 'att, 'z) crypto_scheme \<Rightarrow> ('p, 'sig, 'att) prepare list \<Rightarrow> spec_state \<Rightarrow> spec_state" where
  "spec_accept_all H ps s = fold (\<lambda>p. spec_accept H (pc_request_batch (us_data p))) ps s"

lemma spec_accept_same: "same_exec a b \<Longrightarrow> same_exec (spec_accept H batch a) (spec_accept H batch b)"
  by (auto simp: same_exec_def spec_accept_def split: prod.splits)

lemma spec_accept_all_same: "same_exec a b \<Longrightarrow> same_exec (spec_accept_all H ps a) (spec_accept_all H ps b)"
  by (induction ps arbitrary: a b) (auto simp: spec_accept_all_def intro: spec_accept_same)

lemma spec_accept_all_Cons:
  "spec_accept_all H (p # ps) s = spec_accept_all H ps (spec_accept H (pc_request_batch (us_data p)) s)"
  by (simp add: spec_accept_all_def)

lemma broadcast_signed_exec: "broadcast_signed H hc wrap ty c s = Some (ok, s') \<Longrightarrow> mb_abs (fst s') = mb_abs (fst s)"
  by (auto simp: broadcast_signed_def mb_abs_def mb_broadcast_eq Let_def split: prod.splits bind_splits sum.splits)

lemma process_batching_output_exec: "process_batching_output H batch t s = Some s' \<Longrightarrow> mb_abs (fst s') = mb_abs (fst s)"
  by (auto simp: process_batching_output_def broadcast_prepare_def Let_def
      split: prod.splits option.splits view_state.splits bind_splits if_splits dest!: broadcast_signed_exec)

lemma handle_recovery_requests_exec:
  assumes "handle_recovery_requests H reqs s = Some s'"
  shows "same_exec (mb_abs (fst s')) (mb_abs (fst s))"
proof -
  obtain mb' where mb': "fold_opt (handle_recovery_request H) reqs (fst s) = Some mb'" "fst s' = mb'"
    using assms by (auto simp: handle_recovery_requests_def split: prod.splits)
  have "same_exec (mb_abs mb2) (mb_abs mb1)" if "handle_recovery_request H r mb1 = Some mb2" for r mb1 mb2
    using that by (auto simp: handle_recovery_request_def Let_def same_exec_def mb_abs_def rp_abs_def
        split: prod.splits if_splits bind_splits)
  then show ?thesis unfolding mb'(2)
    by (intro fold_opt_invariant [where I = "\<lambda>mb. same_exec (mb_abs mb) (mb_abs (fst s))", OF _ _ mb'(1)])
      (rule same_exec_trans, assumption, simp_all)
qed

lemma mb_accept_prepare_exec:
  assumes "mb_accept_prepare H p cc s = Some (res, s')"
  shows "mb_abs (fst s') = spec_accept H (pc_request_batch (us_data p)) (mb_abs (fst s))"
proof -
  obtain mb out where s: "s = (mb, out)" by (cases s)
  obtain cp recs nb nt where res: "res = (cp, recs, nb, nt)" by (cases res)
  obtain rp recovering storage out' rt where acc: "accept_prepare H (mb_config mb) p (mb_current_timeout_duration mb) cc
      (mb_request_processor mb) (mb_recovering_replicas mb) (mb_replica_storage mb) out (mb_runtime mb) =
      Some ((cp, recs, nb, nt), rp, recovering, storage, out', rt)" "mb_abs (fst s') = rp_abs rp recovering storage"
    using assms by (auto simp: s res mb_accept_prepare_def mb_abs_def split: bind_splits)
  obtain executed lst' where ex: "spec_run (rp_last (mb_request_processor mb)) (pc_request_batch (us_data p)) = (executed, lst')"
    by fastforce
  have "rp_abs rp recovering storage = spec_accept H (pc_request_batch (us_data p)) (mb_abs mb)"
    using accept_prepare_spec [OF acc(1) ex] unfolding mb_abs_def by blast
  then show ?thesis by (simp add: s acc(2))
qed

lemma accept_one_exec:
  assumes "accept_one H p s = Some (ok, s')"
  shows "same_exec (mb_abs (fst s')) (spec_accept H (pc_request_batch (us_data p)) (mb_abs (fst s)))"
proof -
  obtain cp recs nb nt s1 where s1: "mb_accept_prepare H p True s = Some ((cp, recs, nb, nt), s1)"
    using assms by (auto simp: accept_one_def split: bind_splits)
  obtain s2 where s2: "process_batching_output H nb nt s1 = Some s2"
    using assms s1 by (cases "process_batching_output H nb nt s1") (auto simp: accept_one_def)
  obtain s3 where s3: "handle_recovery_requests H recs s2 = Some s3"
    using assms s1 s2 by (cases "handle_recovery_requests H recs s2") (auto simp: accept_one_def)
  have "mb_abs (fst (process_new_checkpoint s3)) = mb_abs (fst s3)" by (simp add: process_new_checkpoint_def mb_abs_def split: prod.splits)
  then have "mb_abs (fst s') = mb_abs (fst s3)"
    using assms s1 s2 s3 by (auto simp: accept_one_def broadcast_checkpoint_def split: option.splits dest!: broadcast_signed_exec)
  then show ?thesis
    using handle_recovery_requests_exec [OF s3] process_batching_output_exec [OF s2] mb_accept_prepare_exec [OF s1] by simp
qed

text \<open>The counter of the last of some Prepares.\<close>

definition last_counter :: "('p, 'u, 'sig, 'att, 'z) crypto_scheme \<Rightarrow> count option \<Rightarrow> ('p, 'sig, 'att) prepare list \<Rightarrow> count option" where
  "last_counter H c ps = (if ps = [] then c else Some (signed_counter H (last ps)))"

lemma accept_acceptable_exec:
  assumes "accept_acceptable H b ps s = Some s'"
  shows "\<exists>n \<le> length ps. same_exec (mb_abs (fst s')) (spec_accept_all H (take n ps) (mb_abs (fst s))) \<and>
    (n = length ps \<and> mb_counter_last_accepted_prep (fst s') = last_counter H (mb_counter_last_accepted_prep (fst s)) ps \<or>
     b \<and> 0 < n \<and> mb_counter_last_accepted_prep (fst s') = last_counter H (mb_counter_last_accepted_prep (fst s)) (take (n - 1) ps))"
  using assms
proof (induction ps arbitrary: s)
  case Nil
  then show ?case by (simp add: spec_accept_all_def last_counter_def)
next
  case (Cons p ps)
  then obtain ok mb out where one: "accept_one H p s = Some (ok, mb, out)" by (auto split: bind_splits)
  note exec = accept_one_exec [OF one]
  have k: "mb_counter_last_accepted_prep mb = mb_counter_last_accepted_prep (fst s)"
    using kept.accept_one_inv [OF keeps_refl one] by (auto simp: keeps_def split: prod.splits)
  show ?case
  proof (cases "\<not> ok \<and> b")
    case True
    then have "s' = (mb, out)" using Cons.prems one by simp
    with exec k True show ?thesis
      by (intro exI [of _ 1]) (simp add: spec_accept_all_def last_counter_def)
  next
    case False
    let ?mb = "mb\<lparr>mb_counter_last_accepted_prep := Some (signed_counter H p)\<rparr>"
    have "accept_acceptable H b ps (?mb, out) = Some s'" using False Cons.prems one by auto
    from Cons.IH [OF this] obtain n where n: "n \<le> length ps" "same_exec (mb_abs (fst s')) (spec_accept_all H (take n ps) (mb_abs ?mb))"
      "n = length ps \<and> mb_counter_last_accepted_prep (fst s') = last_counter H (Some (signed_counter H p)) ps \<or>
       b \<and> 0 < n \<and> mb_counter_last_accepted_prep (fst s') = last_counter H (Some (signed_counter H p)) (take (n - 1) ps)" by auto
    have "mb_abs ?mb = mb_abs mb" by (simp add: mb_abs_def)
    then have "same_exec (mb_abs (fst s')) (spec_accept_all H (take (Suc n) (p # ps)) (mb_abs (fst s)))"
      using same_exec_trans [OF n(2) spec_accept_all_same] exec by (simp add: spec_accept_all_Cons)
    moreover have "last_counter H c (take (Suc n - 1) (p # ps)) = last_counter H (Some (signed_counter H p)) (take (n - 1) ps)" if "0 < n" for c
      using that by (cases n) (simp_all add: last_counter_def take_Cons')
    moreover have "last_counter H c (p # ps) = last_counter H (Some (signed_counter H p)) ps" for c
      by (simp add: last_counter_def)
    ultimately show ?thesis using n(1,3) by (intro exI [of _ "Suc n"]) auto
  qed
qed

text \<open>
  What a replica does with the Prepares and Commits of the view it is in. The run starts when the
  replica has entered the view, with an empty collector; between the messages it may do anything else
  that does not concern the view, its collector and the execution.
\<close>

inductive view_run ::
    "('p, 'u, 'sig, 'att, 'z) crypto_scheme \<Rightarrow> ('p, 'u, 'sig, 'att) min_bft \<Rightarrow> ('p, 'sig, 'att) view_peer_message list \<Rightarrow>
     ('p, 'u, 'sig, 'att) min_bft \<Rightarrow> bool" for H mb0 where
  run_enter: "mb_view_state mb0 = VS_InView iv \<Longrightarrow> iv_collector_commits iv = collector_commits_new \<Longrightarrow> view_run H mb0 [] mb0"
| run_message: "view_run H mb0 msgs mb \<Longrightarrow> process_view_message H msg (mb, out) = Some (mb', out') \<Longrightarrow>
    view_run H mb0 (msgs @ [msg]) mb'"
| run_other: "view_run H mb0 msgs mb \<Longrightarrow> mb_view_state mb = VS_InView iv \<Longrightarrow>
    mb_view_state mb' = VS_InView (iv\<lparr>iv_has_requested_view_change := b\<rparr>) \<Longrightarrow> mb_config mb' = mb_config mb \<Longrightarrow>
    mb_counter_last_accepted_prep mb' = mb_counter_last_accepted_prep mb \<Longrightarrow> same_exec (mb_abs mb') (mb_abs mb) \<Longrightarrow>
    view_run H mb0 msgs mb'"

definition signs_always :: "('p, 'u, 'sig, 'att, 'z) crypto_scheme \<Rightarrow> bool" where
  "signs_always H \<longleftrightarrow> (\<forall>d u e u'. u_sign (usig H) d u \<noteq> Some (Inl e, u'))"

text \<open>A Prepare of the view with the messages it was accepted with: received messages of the view.\<close>

definition backed_in_view ::
    "('p, 'u, 'sig, 'att, 'z) crypto_scheme \<Rightarrow> config \<Rightarrow> view \<Rightarrow> ('p, 'sig, 'att) view_peer_message set \<Rightarrow>
     ('p, 'sig, 'att) prepare \<times> ('p, 'sig, 'att) usig_message list \<Rightarrow> bool" where
  "backed_in_view H config v S a \<longleftrightarrow> prepare_view (fst a) = v \<and> quorum_backed H config a \<and>
     set (snd a) \<subseteq> UM_View ` {m \<in> S. view_peer_view m = v} \<and> (\<exists>m. UM_View m \<in> set (snd a) \<and> fst a = vp_prepare m)"

definition view_ok ::
    "('p, 'u, 'sig, 'att, 'z) crypto_scheme \<Rightarrow> view \<Rightarrow> ('p, 'sig, 'att) view_peer_message set \<Rightarrow> ('p, 'u, 'sig, 'att) min_bft \<Rightarrow> bool" where
  "view_ok H v S mb \<longleftrightarrow> prep_inv H mb \<and> (\<exists>iv pending. mb_view_state mb = VS_InView iv \<and> iv_view iv = v \<and>
     cc_abs H pending (prepares (iv_collector_commits iv)) (iv_collector_commits iv) \<and> set pending \<subseteq> {m \<in> S. view_peer_view m = v})"

definition accepts ::
    "('p, 'u, 'sig, 'att, 'z) crypto_scheme \<Rightarrow> view \<Rightarrow> ('p, 'sig, 'att) view_peer_message set \<Rightarrow> ('p, 'u, 'sig, 'att) min_bft \<Rightarrow>
     (('p, 'sig, 'att) prepare \<times> ('p, 'sig, 'att) usig_message list) list \<Rightarrow> ('p, 'u, 'sig, 'att) min_bft \<Rightarrow> bool" where
  "accepts H v S mb acc mb' \<longleftrightarrow> mb_config mb' = mb_config mb \<and> list_all (backed_in_view H (mb_config mb) v S) acc \<and>
     sorted_wrt (<) (map (\<lambda>a. signed_counter H (fst a)) acc) \<and>
     list_all (\<lambda>a. mb_counter_last_accepted_prep mb < Some (signed_counter H (fst a))) acc \<and>
     same_exec (mb_abs mb') (spec_accept_all H (map fst acc) (mb_abs mb)) \<and>
     mb_counter_last_accepted_prep mb' = last_counter H (mb_counter_last_accepted_prep mb) (map fst acc)"

lemma accepts_nothing:
  "mb_config mb' = mb_config mb \<Longrightarrow> same_exec (mb_abs mb') (mb_abs mb) \<Longrightarrow>
     mb_counter_last_accepted_prep mb' = mb_counter_last_accepted_prep mb \<Longrightarrow> accepts H v S mb [] mb'"
  by (simp add: accepts_def spec_accept_all_def last_counter_def)

lemma last_counter_bounds:
  assumes "sorted_wrt (<) (map (signed_counter H) ps)" "\<forall>p \<in> set ps. c < Some (signed_counter H p)"
  shows "c \<le> last_counter H c ps \<and> (\<forall>p \<in> set ps. Some (signed_counter H p) \<le> last_counter H c ps)"
  using assms by (cases ps rule: rev_cases) (auto simp: last_counter_def sorted_wrt_append less_imp_le)

lemma backed_in_view_mono:
  assumes "list_all (backed_in_view H config v S) acc" "S \<subseteq> T"
  shows "list_all (backed_in_view H config v T) acc"
proof -
  have "UM_View ` {m \<in> S. view_peer_view m = v} \<subseteq> UM_View ` {m \<in> T. view_peer_view m = v}" using assms(2) by blast
  then have "backed_in_view H config v T a" if "backed_in_view H config v S a" for a
    using that subset_trans [of "set (snd a)"] unfolding backed_in_view_def by blast
  with assms(1) show ?thesis by (simp add: list_all_iff)
qed

lemma accepts_trans:
  assumes first: "accepts H v S mb acc mb1" and second: "accepts H v T mb1 acc' mb2" and "S \<subseteq> T"
  shows "accepts H v T mb (acc @ acc') mb2"
proof -
  let ?c = "mb_counter_last_accepted_prep mb" and ?k = "\<lambda>a. signed_counter H (fst a)"
  note f = first [unfolded accepts_def] and g = second [unfolded accepts_def]
  have config: "mb_config mb1 = mb_config mb" and c1: "mb_counter_last_accepted_prep mb1 = last_counter H ?c (map fst acc)"
    using f by blast+
  have bounds: "?c \<le> last_counter H ?c (map fst acc)" "\<forall>a \<in> set acc. Some (?k a) \<le> last_counter H ?c (map fst acc)"
    using last_counter_bounds [of H "map fst acc" ?c] f by (simp_all add: comp_def list_all_iff)
  have above: "last_counter H ?c (map fst acc) < Some (?k a)" if "a \<in> set acc'" for a
    using g that by (simp add: list_all_iff c1)
  have "?k a < ?k a'" if "a \<in> set acc" "a' \<in> set acc'" for a a'
  proof -
    have "Some (?k a) < Some (?k a')" using bounds(2) that(1) above [OF that(2)] by (meson le_less_trans)
    then show ?thesis by simp
  qed
  then have "sorted_wrt (<) (map ?k (acc @ acc'))" using f g by (simp add: sorted_wrt_append)
  moreover have "list_all (\<lambda>a. ?c < Some (?k a)) (acc @ acc')"
    using f le_less_trans [OF bounds(1) above] by (auto simp: list_all_iff)
  moreover have "list_all (backed_in_view H (mb_config mb) v T) (acc @ acc')"
    using f g backed_in_view_mono [of H "mb_config mb" v S acc T] \<open>S \<subseteq> T\<close> by (simp add: config)
  moreover have "same_exec (mb_abs mb2) (spec_accept_all H (map fst acc') (spec_accept_all H (map fst acc) (mb_abs mb)))"
    using g f same_exec_trans [OF _ spec_accept_all_same] by blast
  moreover have "mb_counter_last_accepted_prep mb2 = last_counter H ?c (map fst (acc @ acc'))"
    using g by (simp add: c1 last_counter_def)
  ultimately show ?thesis using g unfolding accepts_def by (simp add: config spec_accept_all_def)
qed

text \<open>Accepting Prepares when signing does not fail.\<close>

lemma broadcast_signed_ok: "signs_always H \<Longrightarrow> broadcast_signed H hc w ty c s = Some (ok, s') \<Longrightarrow> ok"
  by (auto simp: broadcast_signed_def signs_always_def usig_signed_sign_Inl Let_def split: bind_splits sum.splits prod.splits)

lemma accept_one_ok:
  assumes "signs_always H" "accept_one H p s = Some (ok, s')"
  shows ok
proof -
  obtain cp recs nb nt s1 where s1: "mb_accept_prepare H p True s = Some ((cp, recs, nb, nt), s1)"
    using assms(2) by (auto simp: accept_one_def split: bind_splits)
  obtain s2 where s2: "process_batching_output H nb nt s1 = Some s2"
    using assms(2) s1 by (cases "process_batching_output H nb nt s1") (auto simp: accept_one_def)
  obtain s3 where s3: "handle_recovery_requests H recs s2 = Some s3"
    using assms(2) s1 s2 by (cases "handle_recovery_requests H recs s2") (auto simp: accept_one_def)
  show ?thesis
    using assms s1 s2 s3 by (auto simp: accept_one_def broadcast_checkpoint_def split: option.splits dest: broadcast_signed_ok)
qed

lemma accept_acceptable_all:
  assumes "signs_always H" "accept_acceptable H b ps s = Some s'"
  shows "same_exec (mb_abs (fst s')) (spec_accept_all H ps (mb_abs (fst s)))"
    and "mb_counter_last_accepted_prep (fst s') = last_counter H (mb_counter_last_accepted_prep (fst s)) ps"
proof -
  have "accept_acceptable H False ps s = Some s'"
    using assms(2) by (induction ps arbitrary: s) (auto split: bind_splits dest: accept_one_ok [OF assms(1)])
  from accept_acceptable_exec [OF this]
  show "same_exec (mb_abs (fst s')) (spec_accept_all H ps (mb_abs (fst s)))"
    "mb_counter_last_accepted_prep (fst s') = last_counter H (mb_counter_last_accepted_prep (fst s)) ps" by auto
qed

lemma accepted_in_view:
  assumes "\<exists>ms. ms \<noteq> [] \<and> set ms \<subseteq> set pending \<and> a = (vp_prepare (last ms), map UM_View ms)"
    and "set pending \<subseteq> {m \<in> S. view_peer_view m = v}"
  shows "prepare_view (fst a) = v \<and> set (snd a) \<subseteq> UM_View ` {m \<in> S. view_peer_view m = v} \<and>
    (\<exists>m. UM_View m \<in> set (snd a) \<and> fst a = vp_prepare m)"
proof -
  have view: "prepare_view (vp_prepare m) = view_peer_view m" for m :: "('a, 'b, 'c) view_peer_message" by (cases m) simp_all
  obtain ms where ms: "ms \<noteq> []" "set ms \<subseteq> {m \<in> S. view_peer_view m = v}" "a = (vp_prepare (last ms), map UM_View ms)"
    using assms(1) subset_trans [OF _ assms(2)] by blast
  have "last ms \<in> set ms" using ms(1) by simp
  then show ?thesis using ms(2,3) by (auto simp: view)
qed

lemma collect_and_accept_effect:
  assumes ok: "view_ok H v S mb" "mb_view_state mb = VS_InView iv" and signs: "signs_always H" and view: "view_peer_view msg = v"
    and new: "mb_counter_last_accepted_prep mb < Some (signed_counter H (vp_prepare msg))"
    and acc: "collect_and_accept H b msg iv (mb, out) = Some s'"
  shows "\<exists>acc. view_ok H v (insert msg S) (fst s') \<and> accepts H v (insert msg S) mb acc (fst s')"
proof -
  obtain pending where pending: "iv_view iv = v" "set pending \<subseteq> {m \<in> S. view_peer_view m = v}"
      "cc_abs H pending (prepares (iv_collector_commits iv)) (iv_collector_commits iv)" and inv: "prep_inv H mb"
    using ok by (auto simp: view_ok_def)
  obtain acc c where col: "collect_commit H msg (mb_config mb) (iv_collector_commits iv) = Some (acc, c)"
    and loop: "accept_acceptable H b (map fst acc) (mb\<lparr>mb_view_state := VS_InView (iv\<lparr>iv_collector_commits := c\<rparr>)\<rparr>, out) = Some s'"
    using acc by (auto simp: collect_and_accept_def split: bind_splits)
  have ci: "cc_inv H (iv_collector_commits iv)"
      "\<forall>k \<in> set (hm_keys (prepares (iv_collector_commits iv))). mb_counter_last_accepted_prep mb < Some k"
    using inv ok(2) by (simp_all add: prep_inv_def)
  have order: "sorted_wrt (<) (map (\<lambda>a. signed_counter H (fst a)) acc)"
    "list_all (\<lambda>a. mb_counter_last_accepted_prep mb < Some (signed_counter H (fst a))) acc"
    using collect_and_accept_order [OF ci new col] by (auto simp: sorted_wrt_append list_all_iff)
  have quorum: "list_all (quorum_backed H (mb_config mb)) acc"
    using collect_commit_ok [OF ci(1), of msg "mb_config mb"] col by (auto simp: accepts_prefix_def)
  let ?ks = "sorted_list_of_set (vp_counter H ` set (pending @ [msg]))"
  obtain pending' where spec: "accept_spec H (mb_config mb) ?ks (pending @ [msg]) = (acc, pending')" "cc_abs H pending' (prepares c) c"
    using collect_commit_abs [OF pending(3), of msg "mb_config mb"] unfolding col by blast
  have S: "set (pending @ [msg]) \<subseteq> {m \<in> insert msg S. view_peer_view m = v}" using pending(2) view by auto
  have "backed_in_view H (mb_config mb) v (insert msg S) a" if "a \<in> set acc" for a
    using accepted_in_view [OF accept_spec_accepted [OF spec(1) that] S] quorum that by (simp add: list_all_iff backed_in_view_def)
  then have backed: "list_all (backed_in_view H (mb_config mb) v (insert msg S)) acc" by (simp add: list_all_iff)
  have keep: "mb_config (fst s') = mb_config mb" "mb_view_state (fst s') = VS_InView (iv\<lparr>iv_collector_commits := c\<rparr>)"
    using accept_acceptable_counter [OF loop] by (auto simp: keeps_view_def split: prod.splits)
  have "mb_abs (mb\<lparr>mb_view_state := x\<rparr>) = mb_abs mb" for x by (simp add: mb_abs_def)
  then have "accepts H v (insert msg S) mb acc (fst s')"
    using accept_acceptable_all [OF signs loop] order backed keep(1) by (simp add: accepts_def)
  moreover have "set pending' \<subseteq> {m \<in> insert msg S. view_peer_view m = v}"
    using subset_trans [OF accept_spec_pending [of H "mb_config mb" ?ks "pending @ [msg]"] S] unfolding spec(1) snd_conv .
  then have "view_ok H v (insert msg S) (fst s')"
    using prep_inv_collect [OF inv ok(2) new acc] spec(2) keep(2) pending(1) by (auto simp: view_ok_def)
  ultimately show ?thesis by blast
qed

lemma view_ok_cong:
  assumes "view_ok H v S mb" "S \<subseteq> T" "mb_view_state mb = VS_InView iv"
    "mb_view_state mb' = VS_InView (iv\<lparr>iv_has_requested_view_change := b\<rparr>)"
    "mb_counter_last_accepted_prep mb' = mb_counter_last_accepted_prep mb"
  shows "view_ok H v T mb'"
  using assms by (fastforce simp: view_ok_def prep_inv_def)

lemma process_prepare_effect:
  assumes ok: "view_ok H v S mb" "mb_view_state mb = VS_InView iv" and signs: "signs_always H" and view: "prepare_view p = v"
    and step: "process_prepare H p (mb, out) = Some (mb', out')"
  shows "\<exists>acc. view_ok H v (insert (VP_Prepare p) S) mb' \<and> accepts H v (insert (VP_Prepare p) S) mb acc mb'"
proof (cases "Some (signed_counter H p) \<le> mb_counter_last_accepted_prep mb")
  case True
  then have "mb' = mb" using step ok(2) by (simp add: process_prepare_def)
  then show ?thesis
    using view_ok_cong [OF ok(1) subset_insertI ok(2), of mb "iv_has_requested_view_change iv" "VP_Prepare p"] ok(2)
      accepts_nothing [of mb mb H v "insert (VP_Prepare p) S"] by (intro exI [of _ "[]"]) simp
next
  case False
  then obtain b mb1 out1 where s1: "(if prepare_origin p \<noteq> mb_me mb then broadcast_commit H p (mb, out) else Some (True, mb, out)) = Some (b, mb1, out1)"
    "(if \<not> b then Some (mb1, out1) else collect_and_accept H True (VP_Prepare p) iv (mb1, out1)) = Some (mb', out')"
    using step ok(2) by (auto simp: process_prepare_def split: bind_splits)
  have b using s1(1) broadcast_signed_ok [OF signs] by (auto simp: broadcast_commit_def split: if_splits)
  have "keeps (mb, out) (mb1, out1)" using s1(1) kept.broadcast_commit_inv [OF keeps_refl] by (auto split: if_splits)
  then have keep: "mb_config mb1 = mb_config mb" "mb_view_state mb1 = VS_InView iv"
    "mb_counter_last_accepted_prep mb1 = mb_counter_last_accepted_prep mb"
    using ok(2) by (auto simp: keeps_def)
  have abs: "mb_abs mb1 = mb_abs mb"
    using s1(1) broadcast_signed_exec by (fastforce simp: broadcast_commit_def split: if_splits)
  have "view_ok H v S mb1"
    using view_ok_cong [OF ok(1) subset_refl ok(2), of mb1 "iv_has_requested_view_change iv"] keep by simp
  from collect_and_accept_effect [OF this keep(2) signs, of "VP_Prepare p" True out1 "(mb', out')"] s1(2) \<open>b\<close> view False keep(3)
  obtain acc where "view_ok H v (insert (VP_Prepare p) S) mb'" "accepts H v (insert (VP_Prepare p) S) mb1 acc mb'"
    by (auto simp: not_le)
  then show ?thesis using keep abs by (auto simp: accepts_def)
qed

lemma process_view_message_effect:
  assumes ok: "view_ok H v S mb" and signs: "signs_always H"
    and step: "process_view_message H msg (mb, out) = Some (mb', out')"
  shows "\<exists>acc. view_ok H v (insert msg S) mb' \<and> accepts H v (insert msg S) mb acc mb'"
proof -
  obtain iv where iv: "mb_view_state mb = VS_InView iv" "iv_view iv = v" using ok by (auto simp: view_ok_def)
  have same: ?thesis if "mb' = mb"
    using view_ok_cong [OF ok subset_insertI iv(1), of mb "iv_has_requested_view_change iv" msg] iv(1)
      accepts_nothing [of mb mb H v "insert msg S"] that by (intro exI [of _ "[]"]) simp
  show ?thesis
  proof (cases "view_peer_view msg = v")
    case False
    then have "mb' = mb" using step iv by (simp add: process_view_message_def)
    then show ?thesis by (rule same)
  next
    case view: True
    show ?thesis
    proof (cases msg)
      case (VP_Prepare p)
      then show ?thesis using process_prepare_effect [OF ok iv(1) signs] step iv view by (simp add: process_view_message_def)
    next
      case (VP_Commit c)
      then have commit: "process_commit H c (mb, out) = Some (mb', out')" using step iv view by (simp add: process_view_message_def)
      show ?thesis
      proof (cases "Some (signed_counter H (commit_prepare c)) \<le> mb_counter_last_accepted_prep mb")
        case True
        then have "mb' = mb" using commit iv(1) by (simp add: process_commit_def)
        then show ?thesis by (rule same)
      next
        case False
        then show ?thesis
          using collect_and_accept_effect [OF ok iv(1) signs view, of False out "(mb', out')"] commit iv(1) VP_Commit
          by (simp add: process_commit_def)
      qed
    qed
  qed
qed

lemma view_run_accepts:
  assumes "view_run H mb0 msgs mb" "signs_always H" "mb_view_state mb0 = VS_InView iv0"
  shows "\<exists>acc. view_ok H (iv_view iv0) (set msgs) mb \<and> accepts H (iv_view iv0) (set msgs) mb0 acc mb"
  using assms(1)
proof induction
  case (run_enter iv)
  then have "view_ok H (iv_view iv0) (set []) mb0"
    using assms(3) cc_abs_new [of H] cc_inv_new [of H] by (auto simp: view_ok_def prep_inv_def collector_commits_new_def)
  with accepts_nothing [of mb0 mb0 H "iv_view iv0" "set []", OF refl same_exec_refl refl] show ?case by blast
next
  case (run_message msgs mb msg out mb' out')
  then obtain acc acc' where "accepts H (iv_view iv0) (set msgs) mb0 acc mb" "view_ok H (iv_view iv0) (insert msg (set msgs)) mb'"
    "accepts H (iv_view iv0) (insert msg (set msgs)) mb acc' mb'"
    using process_view_message_effect [OF _ assms(2)] by blast
  then have "view_ok H (iv_view iv0) (set (msgs @ [msg])) mb'" "accepts H (iv_view iv0) (set (msgs @ [msg])) mb0 (acc @ acc') mb'"
    using accepts_trans [OF _ _ subset_insertI] by simp_all
  then show ?case by blast
next
  case (run_other msgs mb iv mb' b)
  then obtain acc where acc: "view_ok H (iv_view iv0) (set msgs) mb" "accepts H (iv_view iv0) (set msgs) mb0 acc mb" by blast
  have "accepts H (iv_view iv0) (set msgs) mb [] mb'" using run_other by (intro accepts_nothing) auto
  from accepts_trans [OF acc(2) this subset_refl] view_ok_cong [OF acc(1) subset_refl run_other(2-3,5)] show ?case by blast
qed

section \<open>Sample replicas\<close>

definition solo_config :: config where
  "solo_config = sample_config\<lparr>cfg_n := 1, cfg_t := 0\<rparr>"

lemma noop_signs: "\<exists>sg u'. usig_signed_sign noop_crypto hc d u = Some (Inr (UsigSigned d sg), u')"
  by (simp add: usig_signed_sign_def noop_crypto_def usig_noop_ops_def noop_half_sign_def Let_def)

lemma noop_broadcasts: "\<exists>s'. broadcast_signed noop_crypto hc w ty c s = Some (True, s')"
  using noop_signs [of hc c "mb_usig (fst s)"] by (auto simp: broadcast_signed_def Let_def split: prod.splits)

lemma solo_reachable: "\<exists>mb out. mb_new noop_crypto sample_usig solo_config False 0 sample_runtime = Some (Inr (mb, out)) \<and>
  mb_view_state mb = view_state_new \<and> mb_counter_last_accepted_prep mb = None \<and> mb_config mb = solo_config \<and>
  rp_request_batcher (mb_request_processor mb) = RB_Trivial (trivial_new 0 None)"
  by (simp add: mb_new_def initial_replica_def solo_config_def sample_config_def config_validate_def rust_assert_def
    collector_forwards_new_def attest_def noop_crypto_def usig_noop_ops_def noop_half_attest_def noop_half_add_remote_party_def sample_usig_def usig_noop_default_def
    mb_broadcast_eq mb_reflect_def out_reflect_def reflect_loop.simps out_new_def out_ready_for_client_requests_def
    process_reflected_peer_message_def process_peer_message_def process_hello_message_def rp_new_def me_def view_state_new_def Let_def)

lemma client_request_not_recovery: "snd (fst (accept_request H (sample_request c i) d rp storage out)) = None"
  by (simp add: accept_request_def sample_request_def Let_def split: prod.split)

lemma sample_prepare_accepted:
  assumes "rp_request_batcher (mb_request_processor (fst s)) = RB_Trivial b"
  shows "\<exists>cp s1. mb_accept_prepare noop_crypto (sample_prepare [sample_request c i]) True s = Some ((cp, [], None, None), s1)"
proof -
  obtain mb out where s: "s = (mb, out)" by (cases s)
  obtain x rp storage out1 where r: "accept_request noop_crypto (sample_request c i) (mb_current_timeout_duration mb)
      (mb_request_processor mb\<lparr>rp_request_batcher := RB_Trivial b\<rparr>) (mb_replica_storage mb) out = ((x, None), rp, storage, out1)"
    using client_request_not_recovery by (metis prod.collapse)
  then show ?thesis using assms r
    by (auto simp: s mb_accept_prepare_def accept_prepare_def update_batcher_def trivial_update_def accept_batch_def sample_prepare_def Let_def split: prod.split)
qed

lemma noop_broadcasts_checkpoint: "\<exists>s'. broadcast_checkpoint noop_crypto c s = Some (True, s')"
  unfolding broadcast_checkpoint_def by (rule noop_broadcasts)

lemma sample_accept_one:
  assumes "rp_request_batcher (mb_request_processor (fst s)) = RB_Trivial b"
  shows "\<exists>s'. accept_one noop_crypto (sample_prepare [sample_request c i]) s = Some (True, s')"
proof -
  obtain cp s1 where acc: "mb_accept_prepare noop_crypto (sample_prepare [sample_request c i]) True s = Some ((cp, [], None, None), s1)"
    using sample_prepare_accepted [OF assms] by blast
  have "process_batching_output noop_crypto None None s1 = Some s1" "handle_recovery_requests noop_crypto [] s1 = Some s1"
    by (simp_all add: process_batching_output_def handle_recovery_requests_def Let_def split: prod.split)
  then show ?thesis using acc noop_broadcasts_checkpoint [of _ "process_new_checkpoint s1"]
    by (cases cp) (simp_all add: accept_one_def)
qed

lemma solo_accepts:
  assumes "mb_view_state mb = view_state_new" "mb_counter_last_accepted_prep mb = None" "mb_config mb = solo_config"
    "rp_request_batcher (mb_request_processor mb) = RB_Trivial b"
  shows "\<exists>mb' out'. process_view_message noop_crypto (VP_Prepare (sample_prepare [sample_request 1 5])) (mb, out_new True) = Some (mb', out')"
proof -
  let ?p = "sample_prepare [sample_request 1 5]"
  obtain iv where iv: "mb_view_state mb = VS_InView iv" "iv_view iv = 0" "iv_collector_commits iv = collector_commits_new"
    using assms(1) by (auto simp: view_state_new_def)
  have "\<exists>c. collect_commit noop_crypto (VP_Prepare ?p) solo_config collector_commits_new = Some ([(?p, [UM_View (VP_Prepare ?p)])], c)"
    by (simp add: collect_commit_def note_commit_def collector_commits_new_def solo_config_def sample_config_def sample_prepare_def)
  then obtain c where c: "collect_commit noop_crypto (VP_Prepare ?p) solo_config collector_commits_new = Some ([(?p, [UM_View (VP_Prepare ?p)])], c)" by blast
  let ?s = "(mb\<lparr>mb_view_state := VS_InView (iv\<lparr>iv_collector_commits := c\<rparr>)\<rparr>, out_new True)"
  obtain mb1 out1 where "accept_one noop_crypto ?p ?s = Some (True, mb1, out1)"
    using sample_accept_one [of ?s b 1 5] assms(4) by auto
  then have "collect_and_accept noop_crypto True (VP_Prepare ?p) iv (mb, out_new True) =
      Some (mb1\<lparr>mb_counter_last_accepted_prep := Some (signed_counter noop_crypto ?p)\<rparr>, out1)"
    using c assms(3) iv(3) by (simp add: collect_and_accept_def)
  then show ?thesis using iv assms(2,3)
    by (simp add: process_view_message_def process_prepare_def sample_prepare_def solo_config_def sample_config_def me_def)
qed
section \<open>Properties\<close>

subsection \<open>Prepares are accepted in order\<close>

text \<open>
  Claim C27. From the moment a replica has entered a view, whatever Prepares and Commits it then processes
  and whatever it does in between that does not concern the view and the execution: the Prepares it
  accepts are all of that view, have strictly ascending counters above that of the last Prepare
  accepted before, and each of them is contained in a processed message and was accepted with
  processed messages of the view from more than \<open>t\<close> different replicas that all carry a Prepare with its
  counter. The storage, the last executed requests and the round are what the specification of the
  execution gives for these Prepares in this order, and the counter of the last accepted Prepare is that of
  the last of them. The hypothesis is that the USIG does not fail to sign (it may panic).
\<close>

theorem prepares_accepted_in_order:
  assumes "view_run H mb0 msgs mb" "signs_always H" "mb_view_state mb0 = VS_InView iv0"
  shows "\<exists>acc. list_all (backed_in_view H (mb_config mb0) (iv_view iv0) (set msgs)) acc \<and>
    sorted_wrt (<) (map (\<lambda>a. signed_counter H (fst a)) acc) \<and>
    list_all (\<lambda>a. mb_counter_last_accepted_prep mb0 < Some (signed_counter H (fst a))) acc \<and>
    same_exec (mb_abs mb) (spec_accept_all H (map fst acc) (mb_abs mb0)) \<and>
    mb_counter_last_accepted_prep mb = last_counter H (mb_counter_last_accepted_prep mb0) (map fst acc)"
  using view_run_accepts [OF assms] unfolding accepts_def by blast

theorem prepares_accepted_in_order_witness:
  "\<exists>mb0 mb acc. mb_reachable noop_crypto sample_usig mb0 \<and>
     view_run noop_crypto mb0 [VP_Prepare (sample_prepare [sample_request 1 5])] mb \<and>
     list_all (backed_in_view noop_crypto (mb_config mb0) 0 {VP_Prepare (sample_prepare [sample_request 1 5])}) acc \<and>
     sorted_wrt (<) (map (\<lambda>a. signed_counter noop_crypto (fst a)) acc) \<and>
     same_exec (mb_abs mb) (spec_accept_all noop_crypto (map fst acc) (mb_abs mb0))"
proof -
  obtain mb0 out where mb: "mb_new noop_crypto sample_usig solo_config False 0 sample_runtime = Some (Inr (mb0, out))"
    "mb_view_state mb0 = view_state_new" "mb_counter_last_accepted_prep mb0 = None" "mb_config mb0 = solo_config"
    "rp_request_batcher (mb_request_processor mb0) = RB_Trivial (trivial_new 0 None)"
    using solo_reachable by blast
  have reach: "mb_reachable noop_crypto sample_usig mb0" by (rule reach_new [OF mb(1)])
  obtain iv where iv: "mb_view_state mb0 = VS_InView iv" "iv_collector_commits iv = collector_commits_new" "iv_view iv = 0" using mb(2) by (auto simp: view_state_new_def)
  obtain mb out' where step: "process_view_message noop_crypto (VP_Prepare (sample_prepare [sample_request 1 5])) (mb0, out_new True) = Some (mb, out')"
    using solo_accepts [OF mb(2-5)] by blast
  have run: "view_run noop_crypto mb0 [VP_Prepare (sample_prepare [sample_request 1 5])] mb"
    using run_message [OF run_enter [OF iv(1,2)] step] by simp
  have "signs_always noop_crypto"
    by (simp add: signs_always_def noop_crypto_def usig_noop_ops_def noop_half_sign_def Let_def)
  from prepares_accepted_in_order [OF run this iv(1)] obtain acc where
    "list_all (backed_in_view noop_crypto (mb_config mb0) 0 {VP_Prepare (sample_prepare [sample_request 1 5])}) acc"
    "sorted_wrt (<) (map (\<lambda>a. signed_counter noop_crypto (fst a)) acc)"
    "same_exec (mb_abs mb) (spec_accept_all noop_crypto (map fst acc) (mb_abs mb0))" by (auto simp: iv(3))
  with reach run show ?thesis by (intro exI conjI)
qed

subsection \<open>The log and the ViewChanges of a replica\<close>

lemma sort_upt_words:
  assumes "map unat (cs :: u64 list) = [0..<n]"
  shows "sort cs = cs \<and> (cs \<noteq> [] \<longrightarrow> hd cs = 0 \<and> last cs + 1 = of_nat n)"
proof -
  have "sorted (map unat cs)" unfolding assms by (rule sorted_upt)
  then have "sorted cs" unfolding sorted_map by (rule sorted_wrt_mono_rel [rotated]) (simp add: word_le_nat_alt)
  moreover have "hd cs = 0 \<and> last cs + 1 = of_nat n" if ne: "cs \<noteq> []"
  proof -
    have n: "0 < n" using ne assms by (cases n) auto
    have "unat (hd cs) = hd [0..<n]" "unat (last cs) = last [0..<n]"
      using ne by (simp_all add: hd_map last_map flip: assms)
    then have "unat (hd cs) = 0" "Suc (unat (last cs)) = n" using n by simp_all
    then have "hd cs = 0" "of_nat (Suc (unat (last cs))) = (of_nat n :: u64)" by (simp_all add: unat_eq_0)
    then show ?thesis by (simp add: add.commute)
  qed
  ultimately show ?thesis by (auto intro: sorted_sort_id)
qed

lemma consecutive_log_valid:
  assumes "map (\<lambda>m. unat (usig_message_counter H m)) (vc_variant (us_data vc)) = [0..<unat (signed_counter H vc)]"
    and "vc_checkpoint_cert (us_data vc) = None"
    and "usig_signed_verify H (view_change_hash_content H (message_log_hash H)) vc_origin u vc = Some (Inr ())"
  shows "view_change_validate H config u vc = valid"
proof -
  let ?cs = "map (usig_message_counter H) (vc_variant (us_data vc))" and ?n = "signed_counter H vc"
  have cs: "map unat ?cs = [0..<unat ?n]" using assms(1) by (simp add: comp_def)
  have len: "length ?cs = unat ?n" using arg_cong [OF cs, of length] by simp
  note sorted = sort_upt_words [OF cs]
  have "usig_message_counter H (last (vc_variant (us_data vc))) = last ?cs" if "vc_variant (us_data vc) \<noteq> []"
    using that by (simp add: last_map)
  moreover have "?n = 0" if "vc_variant (us_data vc) = []" using len that by (simp add: unat_eq_0)
  ultimately show ?thesis using sorted len assms(2,3)
    by (auto simp: view_change_validate_def Let_def validate_simps eq_diff_eq)
qed

lemma broadcast_view_change_signed:
  assumes "broadcast_view_change H v (mb, out) = Some (True, mb', out')"
  shows "\<exists>d sg. u_sign (usig H) d (mb_usig mb) = Some (Inr sg, mb_usig mb') \<and> nro_broadcasts out' = nro_broadcasts out @
    [PM_Usig (UM_ViewChange (UsigSigned (view_change_content_new H (mb_me mb) v (mb_last_checkpoint_cert mb) (mb_sent_usig_msgs mb)) sg))]"
  using assms
  by (auto simp: broadcast_view_change_def broadcast_signed_def mb_broadcast_eq usig_signed_sign_Inr Let_def
      split: bind_splits sum.splits) blast

text \<open>
  Claim C28. A ViewChange that a replica without a stable checkpoint broadcasts is valid for every replica
  that accepts its signature: in every reachable state the log of a replica holds all the messages it
  signed so far, with counters from 0 to the one before the ViewChange. The hypothesis names what is
  used of the USIG: it signs with consecutive counters from 0 and does not pass the greatest counter.
\<close>

theorem view_change_of_replica_valid:
  assumes "signing_replica H cnt u0" "mb_reachable H u0 mb" "mb_last_checkpoint_cert mb = None"
    and "broadcast_view_change H v (mb, out) = Some (True, mb', out')"
  shows "\<exists>vc. nro_broadcasts out' = nro_broadcasts out @ [PM_Usig (UM_ViewChange vc)] \<and>
    vc_origin (us_data vc) = mb_me mb \<and> vc_next_view (us_data vc) = v \<and>
    (\<forall>config u. usig_signed_verify H (view_change_hash_content H (message_log_hash H)) vc_origin u vc = Some (Inr ()) \<longrightarrow>
       view_change_validate H config u vc = valid)"
proof -
  obtain d sg where sg: "u_sign (usig H) d (mb_usig mb) = Some (Inr sg, mb_usig mb')" "nro_broadcasts out' = nro_broadcasts out @
      [PM_Usig (UM_ViewChange (UsigSigned (view_change_content_new H (mb_me mb) v None (mb_sent_usig_msgs mb)) sg))]"
    using broadcast_view_change_signed [OF assms(4)] unfolding assms(3) by blast
  let ?vc = "UsigSigned (view_change_content_new H (mb_me mb) v None (mb_sent_usig_msgs mb)) sg"
  have counter: "signed_counter H ?vc = cnt (mb_usig mb)"
    using signing_replica.sign_counts [OF assms(1) sg(1)] by (simp add: signed_counter_def)
  have "log_inv H cnt mb" by (rule signing_replica.reachable_log [OF assms(1,2)])
  then have "map (\<lambda>m. unat (usig_message_counter H m)) (mb_sent_usig_msgs mb) = [0..<unat (cnt (mb_usig mb))]"
    using assms(3) by (auto simp: log_inv_def)
  then have "map (\<lambda>m. unat (usig_message_counter H m)) (vc_variant (us_data ?vc)) = [0..<unat (signed_counter H ?vc)]"
    unfolding counter by (simp add: view_change_content_new_def comp_def)
  from consecutive_log_valid [OF this] sg(2) show ?thesis by (intro exI [of _ ?vc]) (simp add: view_change_content_new_def)
qed

definition checked_crypto :: "(bytes, usig_noop, noop_signature, dummy_attestation) crypto" where
  "checked_crypto = noop_crypto\<lparr>usig := checked_usig (\<lambda>u. noop_counter (noop_sign_half u)) usig_noop_ops\<rparr>"

lemma checked_reachable:
  "\<exists>mb out. mb_new checked_crypto usig_noop_default solo_config False 0 sample_runtime = Some (Inr (mb, out)) \<and>
    noop_counter (noop_sign_half (mb_usig mb)) = 0 \<and> mb_last_checkpoint_cert mb = None \<and> mb_config mb = solo_config"
  by (simp add: mb_new_def initial_replica_def solo_config_def sample_config_def config_validate_def rust_assert_def
      collector_forwards_new_def attest_def checked_crypto_def checked_usig_def noop_crypto_def usig_noop_ops_def noop_half_attest_def
      noop_half_add_remote_party_def usig_noop_default_def mb_broadcast_eq mb_reflect_def out_reflect_def reflect_loop.simps out_new_def
      out_ready_for_client_requests_def process_reflected_peer_message_def process_peer_message_def process_hello_message_def
      rp_new_def me_def view_state_new_def Let_def)

theorem view_change_of_replica_valid_witness:
  "\<exists>mb mb' out' vc config u. mb_reachable checked_crypto usig_noop_default mb \<and>
     broadcast_view_change checked_crypto 1 (mb, out_new True) = Some (True, mb', out') \<and>
     nro_broadcasts out' = [PM_Usig (UM_ViewChange vc)] \<and> view_change_validate checked_crypto config u vc = valid"
proof -
  obtain mb out where mb: "mb_new checked_crypto usig_noop_default solo_config False 0 sample_runtime = Some (Inr (mb, out))"
    "noop_counter (noop_sign_half (mb_usig mb)) = 0" "mb_last_checkpoint_cert mb = None" "mb_config mb = solo_config"
    using checked_reachable by blast
  have law: "signing_replica checked_crypto (\<lambda>u. noop_counter (noop_sign_half u)) usig_noop_default"
    unfolding checked_crypto_def by (rule noop_replica.signing_replica_axioms)
  have reach: "mb_reachable checked_crypto usig_noop_default mb" by (rule reach_new [OF mb(1)])
  obtain mb' out' where bc: "broadcast_view_change checked_crypto 1 (mb, out_new True) = Some (True, mb', out')"
    using mb(2) by (simp add: broadcast_view_change_def broadcast_signed_def usig_signed_sign_def checked_crypto_def checked_usig_def
        usig_noop_ops_def noop_half_sign_def mb_broadcast_eq Let_def)
  have me: "mb_me mb = 0" by (simp add: mb(4) me_def solo_config_def sample_config_def)
  from view_change_of_replica_valid [OF law reach mb(3) bc] obtain vc
    where vc: "nro_broadcasts out' = [PM_Usig (UM_ViewChange vc)]" "vc_origin (us_data vc) = 0"
      "\<And>config u. usig_signed_verify checked_crypto (view_change_hash_content checked_crypto (message_log_hash checked_crypto))
        vc_origin u vc = Some (Inr ()) \<Longrightarrow> view_change_validate checked_crypto config u vc = valid"
    by (auto simp: me out_new_def)
  have "usig_signed_verify checked_crypto (view_change_hash_content checked_crypto (message_log_hash checked_crypto))
      vc_origin sample_usig vc = Some (Inr ())"
    by (simp add: usig_signed_verify_def checked_crypto_def checked_usig_def usig_noop_ops_def noop_half_verify_def sample_usig_def vc(2))
  from vc(3) [OF this] reach bc vc(1) show ?thesis by blast
qed

subsection \<open>A replica after recovery\<close>

definition sample_replica :: "bool \<Rightarrow> (bytes, usig_noop, noop_signature, dummy_attestation) min_bft" where
  "sample_replica recovering = the (initial_replica sample_usig sample_config recovering sample_runtime)"

lemma sample_replica: "initial_replica sample_usig sample_config recovering sample_runtime = Some (sample_replica recovering)"
  by (simp add: sample_replica_def initial_replica_def sample_config_def config_validate_def rust_assert_def collector_forwards_new_def)

lemma sample_replica_simps [simp]:
  "mb_config (sample_replica r) = sample_config" "mb_last_checkpoint_cert (sample_replica r) = None"
  "mb_recovering (sample_replica r) = r" "mb_recovery_unverified_usig_messages (sample_replica r) = []"
  "mb_runtime (sample_replica r) = sample_runtime" "mb_sent_usig_msgs (sample_replica r) = []"
  by (simp_all add: sample_replica_def initial_replica_def sample_config_def config_validate_def rust_assert_def collector_forwards_new_def)

text \<open>
  Claim C32. A replica that has signed nothing and recovers with a RecoveryReply, and that has not sent a
  signed message and not got another stable checkpoint since, cannot take part in a view change: its
  ViewChange carries the checkpoint certificate it recovered from and an empty log, and no replica
  accepts such a message. (No signed messages wait to be verified when the reply arrives.)
\<close>

theorem recovered_view_change_rejected:
  assumes recovering: "mb_recovering mb0" "mb_recovering_nonce mb0 = Some nonce" "mb_recovery_unverified_usig_messages mb0 = []"
      "mb_sent_usig_msgs mb0 = []"
    and reply: "receive_peer_message H r (PM_RecoveryReply nonce storage cert) (mb0, out0) = Some (mb, out)" "\<not> mb_recovering mb"
    and silent: "mb_sent_usig_msgs mb1 = mb_sent_usig_msgs mb" "mb_last_checkpoint_cert mb1 = mb_last_checkpoint_cert mb"
    and sent: "broadcast_view_change H v (mb1, out1) = Some (True, mb', out')"
  shows "\<exists>vc. nro_broadcasts out' = nro_broadcasts out1 @ [PM_Usig (UM_ViewChange vc)] \<and>
    vc_checkpoint_cert (us_data vc) = Some cert \<and> vc_variant (us_data vc) = [] \<and>
    (\<forall>config u. view_change_validate H config u vc \<noteq> valid)"
proof -
  have "restore_checkpoint H cert storage mb0 = Some mb"
    using reply recovering(1-3)
    by (auto simp: receive_peer_message_def process_peer_message_def process_recovery_reply_def handle_recovery_reply_def
        restore_checkpoint_def Let_def split: if_splits bind_splits)
  then have mb: "mb_sent_usig_msgs mb = []" "mb_last_checkpoint_cert mb = Some cert"
    using recovering(4) by (auto simp: restore_checkpoint_def Let_def split: bind_splits)
  let ?c = "view_change_content_new H (mb_me mb1) v (Some cert) []"
  obtain sg where sg: "nro_broadcasts out' = nro_broadcasts out1 @ [PM_Usig (UM_ViewChange (UsigSigned ?c sg))]"
    using broadcast_view_change_signed [OF sent] unfolding silent mb by blast
  have c: "vc_checkpoint_cert ?c = Some cert" "vc_variant ?c = []" by (simp_all add: view_change_content_new_def)
  then have "view_change_validate H config u (UsigSigned ?c sg) \<noteq> valid" for config u
    by (auto simp: view_change_validate_def Let_def validate_simps)
  with sg c show ?thesis by (intro exI [of _ "UsigSigned ?c sg"]) simp
qed

theorem recovered_view_change_rejected_witness:
  "\<exists>cert mb mb' out'. receive_peer_message noop_crypto 2 (PM_RecoveryReply 5 \<lparr>last_hash = replicate 32 7\<rparr> cert)
       ((sample_replica True)\<lparr>mb_recovering_nonce := Some 5\<rparr>, out_new False) = Some (mb, out_new False) \<and>
     \<not> mb_recovering mb \<and> broadcast_view_change noop_crypto 1 (mb, out_new True) = Some (True, mb', out') \<and>
     (\<exists>vc. nro_broadcasts out' = [PM_Usig (UM_ViewChange vc)] \<and> (\<forall>config u. view_change_validate noop_crypto config u vc \<noteq> valid))"
proof -
  let ?cert = "\<lparr>my_checkpoint = sample_checkpoint 1, other_checkpoints = [sample_checkpoint 2]\<rparr>"
  let ?mb0 = "(sample_replica True)\<lparr>mb_recovering_nonce := Some 5\<rparr>"
  let ?m = "PM_RecoveryReply 5 \<lparr>last_hash = replicate 32 7\<rparr> ?cert"
  have valid: "validate_checkpoint_certificate sample_config ?cert 5"
    by (simp add: validate_checkpoint_certificate_def sample_checkpoint_def sample_config_def hm_eq_def recovery_nonce_ok_def)
  have "\<exists>mb. receive_peer_message noop_crypto 2 ?m (?mb0, out_new False) = Some (mb, out_new False) \<and> \<not> mb_recovering mb"
    using valid
    by (simp add: receive_peer_message_def process_peer_message_def process_recovery_reply_def handle_recovery_reply_def)
      (simp add: restore_checkpoint_def sample_checkpoint_def add_attestation_def noop_crypto_def usig_noop_ops_def
        noop_half_add_remote_party_def sample_config_def Let_def)
  then obtain mb where mb: "receive_peer_message noop_crypto 2 ?m (?mb0, out_new False) = Some (mb, out_new False)" "\<not> mb_recovering mb" by blast
  obtain mb' out' where bc: "broadcast_view_change noop_crypto 1 (mb, out_new True) = Some (True, mb', out')"
    using noop_broadcasts unfolding broadcast_view_change_def by (metis prod.collapse)
  have "\<exists>vc. nro_broadcasts out' = nro_broadcasts (out_new True :: (bytes, noop_signature, dummy_attestation) not_reflected_output) @ [PM_Usig (UM_ViewChange vc)] \<and>
      vc_checkpoint_cert (us_data vc) = Some ?cert \<and> vc_variant (us_data vc) = [] \<and>
      (\<forall>config u. view_change_validate noop_crypto config u vc \<noteq> valid)"
    by (rule recovered_view_change_rejected [OF _ _ _ _ mb refl refl bc]) simp_all
  then have "\<exists>vc. nro_broadcasts out' = [PM_Usig (UM_ViewChange vc)] \<and> (\<forall>config u. view_change_validate noop_crypto config u vc \<noteq> valid)"
    by (auto simp: out_new_def)
  with mb bc show ?thesis by blast
qed

subsection \<open>The state of a new view\<close>

text \<open>The Prepares in a log, as messages of their own or in Commits.\<close>

fun log_prepares :: "('p, 'sig, 'att) log_message list \<Rightarrow> ('p, 'sig, 'att) prepare list" where
  "log_prepares [] = []"
| "log_prepares (UM_View v # ms) = vp_prepare v # log_prepares ms"
| "log_prepares (_ # ms) = log_prepares ms"

lemma note_prepares:
  assumes "heap_wf (signed_counter H) preps"
  shows "heap_wf (signed_counter H) (fold (note_prepare H c) ms preps) \<and>
    set (fold (note_prepare H c) ms preps) = set preps \<union> {p \<in> set (log_prepares ms). c < Some (signed_counter H p)}"
  using assms
proof (induction ms arbitrary: preps)
  case (Cons m ms)
  have step: "heap_wf (signed_counter H) (note_prepare H c m preps)"
    "set (note_prepare H c m preps) \<union> {p \<in> set (log_prepares ms). c < Some (signed_counter H p)} =
     set preps \<union> {p \<in> set (log_prepares (m # ms)). c < Some (signed_counter H p)}"
    using Cons.prems by (cases "(H, c, m, preps)" rule: note_prepare.cases; auto simp: heap_push_def sorted_insort_key set_insort_key)+
  from Cons.IH [OF step(1)] step(2) show ?case by simp
qed simp

lemma unique_prepares_spec:
  assumes "sorted_wrt (<) (map (signed_counter H) unique)" "heap_wf (signed_counter H) preps"
    and "\<forall>p \<in> set unique. \<forall>q \<in> set preps. signed_counter H p \<le> signed_counter H q"
  shows "sorted_wrt (<) (map (signed_counter H) (unique_prepares H unique preps)) \<and>
    set unique \<subseteq> set (unique_prepares H unique preps) \<and> set (unique_prepares H unique preps) \<subseteq> set unique \<union> set preps \<and>
    signed_counter H ` set (unique_prepares H unique preps) = signed_counter H ` (set unique \<union> set preps)"
  using assms
proof (induction H unique preps rule: unique_prepares.induct)
  case (2 H unique p preps)
  show ?case
  proof (cases "unique = [] \<or> signed_counter H (last unique) \<noteq> signed_counter H p")
    case True
    have lt: "signed_counter H x < signed_counter H p" if x: "x \<in> set unique" for x
    proof -
      have "signed_counter H x \<le> signed_counter H (last unique)"
        using 2(3) x by (cases unique rule: rev_cases) (auto simp: sorted_wrt_append dest: less_imp_le)
      moreover have "last unique \<in> set unique" using x by (intro last_in_set) auto
      then have "signed_counter H (last unique) \<le> signed_counter H p" using 2(5) by simp
      ultimately show ?thesis using True x by (cases "unique = []") auto
    qed
    have "sorted_wrt (<) (map (signed_counter H) (unique @ [p]))" using 2(3) lt by (simp add: sorted_wrt_append)
    moreover have "\<forall>x \<in> set (unique @ [p]). \<forall>q \<in> set preps. signed_counter H x \<le> signed_counter H q" using 2(4,5) by auto
    ultimately show ?thesis using 2(1) [OF True] 2(4) True by auto
  next
    case False
    then have "signed_counter H p \<in> signed_counter H ` set unique" using last_in_set by (metis image_eqI)
    with 2(2) [OF False] 2(3-5) False show ?thesis by (auto simp: insert_absorb)
  qed
qed auto

text \<open>
  Claim C29. The Prepares that a replica takes over from a NewView certificate have strictly ascending
  counters, all of them come from the logs in the certificate, and for every counter above that of the
  last accepted Prepare for which these logs hold a Prepare there is exactly one.
\<close>

theorem new_view_state_correct:
  "\<exists>cp ps. compute_new_view_state H c view_changes = (cp, ps) \<and> sorted_wrt (<) (map (signed_counter H) ps) \<and>
     set ps \<subseteq> set (log_prepares (concat (map (\<lambda>vc. vc_variant (us_data vc)) view_changes))) \<and>
     signed_counter H ` set ps = {k. c < Some k} \<inter>
       signed_counter H ` set (log_prepares (concat (map (\<lambda>vc. vc_variant (us_data vc)) view_changes)))"
proof -
  let ?log = "concat (map (\<lambda>vc. vc_variant (us_data vc)) view_changes)"
  let ?preps = "fold (note_prepare H c) ?log []"
  have preps: "heap_wf (signed_counter H) ?preps" "set ?preps = {p \<in> set (log_prepares ?log). c < Some (signed_counter H p)}"
    using note_prepares [of H "[]" c ?log] by auto
  have "compute_new_view_state H c view_changes = (fold note_checkpoint ?log None, unique_prepares H [] ?preps)"
    by (simp add: compute_new_view_state_def Let_def)
  moreover note unique_prepares_spec [of H "[]", OF _ preps(1)]
  ultimately show ?thesis using preps(2) by (intro exI conjI) auto
qed

subsection \<open>Own broadcasts\<close>

text \<open>
  Claim C30. When a public operation returns, the replica has processed each of the messages it broadcasts,
  those it broadcast while doing so included, exactly once and in the order of the broadcasts.
\<close>

theorem own_broadcasts_processed:
  assumes "mb_reflect H (mb, out) = Some (mb', res)"
  shows "\<exists>ms out'. o_broadcasts res = nro_broadcasts out @ ms \<and>
    fold_opt (process_reflected_peer_message H) (o_broadcasts res) (mb, out) = Some (mb', out') \<and>
    res = to_output (current_primary mb') (view_info_of mb') (round_of mb') out'"
proof -
  obtain out' where loop: "reflect_loop (process_reflected_peer_message H) 0 (mb, out) = Some (mb', out')"
    "res = to_output (current_primary mb') (view_info_of mb') (round_of mb') out'"
    using assms by (auto simp: mb_reflect_def out_reflect_def split: bind_splits)
  have "fold_opt (process_reflected_peer_message H) (nro_broadcasts out') (mb, out) = Some (mb', out') \<and>
      (\<exists>ms. nro_broadcasts out' = nro_broadcasts out @ ms)"
    using own.reflect_loop_processes [OF loop(1)] by (simp add: own.reflected_def)
  then show ?thesis by (auto simp: loop(2) to_output_def)
qed

theorem own_broadcasts_processed_witness:
  "\<exists>mb out mb' res. mb_new noop_crypto sample_usig solo_config False 0 sample_runtime = Some (Inr (mb, out)) \<and>
     mb_reflect noop_crypto (mb_broadcast (PM_Hello DummyAttestation) (mb, out_new True)) = Some (mb', res) \<and>
     o_broadcasts res = [PM_Hello DummyAttestation] \<and>
     (\<exists>out'. fold_opt (process_reflected_peer_message noop_crypto) [PM_Hello DummyAttestation]
        (mb_broadcast (PM_Hello DummyAttestation) (mb, out_new True)) = Some (mb', out'))"
proof -
  obtain mb out where mb: "mb_new noop_crypto sample_usig solo_config False 0 sample_runtime = Some (Inr (mb, out))"
    "mb_config mb = solo_config" using solo_reachable by blast
  let ?s = "mb_broadcast (PM_Hello DummyAttestation) (mb, out_new True)"
  obtain mb' res where refl: "mb_reflect noop_crypto ?s = Some (mb', res)" "o_broadcasts res = [PM_Hello DummyAttestation]"
    by (simp add: mb_broadcast_eq mb_reflect_def out_reflect_def reflect_loop.simps out_new_def to_output_def
        process_reflected_peer_message_def process_peer_message_def process_hello_message_def noop_crypto_def usig_noop_ops_def
        noop_half_add_remote_party_def out_ready_for_client_requests_def Let_def)
  have "mb_reflect noop_crypto (fst ?s, snd ?s) = Some (mb', res)" using refl(1) by simp
  from own_broadcasts_processed [OF this] refl(2) obtain out'
    where "fold_opt (process_reflected_peer_message noop_crypto) [PM_Hello DummyAttestation] ?s = Some (mb', out')" by auto
  with mb(1) refl show ?thesis by blast
qed

subsection \<open>The shape of a replica\<close>

definition mb_wf :: "('p, 'u, 'sig, 'att) min_bft \<Rightarrow> bool" where
  "mb_wf mb \<longleftrightarrow> config_validate (mb_config mb) = Some () \<and> length (mb_replicas_state mb) = unat (cfg_n (mb_config mb))"

interpretation shape: replica_simple H "\<lambda>s. mb_wf (fst s)" for H :: "('p, 'u, 'sig, 'att, 'z) crypto_scheme"
  by unfold_locales (auto simp: mb_wf_def mb_core_def mb_broadcast_eq)

interpretation shaped: mb_invariant H mb_wf u0 for H :: "('p, 'u, 'sig, 'att, 'z) crypto_scheme" and u0
  by unfold_locales (auto simp: mb_wf_def initial_replica_def length_all_replicas split: bind_splits)

text \<open>
  Claim C31. In every reachable state the configuration is the valid one the replica was created with, so its
  own identifier is below \<open>n\<close>, and there is one order enforcer for every replica: looking up the
  state of a replica with a valid identifier, and asking whether the replica is the primary, never panics.
\<close>

theorem replica_well_formed:
  assumes "mb_reachable H u0 mb" "r < cfg_n (mb_config mb)"
  shows "index_vec (mb_replicas_state mb) (unat r) \<noteq> None \<and> me_primary (mb_config mb) v \<noteq> None"
proof -
  have wf: "mb_wf mb" by (rule shaped.reachable_inv [OF assms(1)])
  have "unat r < length (mb_replicas_state mb)" using assms(2) wf by (simp add: mb_wf_def word_less_nat_alt)
  moreover have "cfg_id (mb_config mb) < cfg_n (mb_config mb)"
    using wf by (auto simp: mb_wf_def config_validate_def rust_assert_def split: if_splits)
  ultimately show ?thesis by (simp add: index_vec_def me_primary_def is_primary_def me_def rust_assert_def)
qed

theorem replica_well_formed_witness:
  "\<exists>mb. mb_reachable noop_crypto sample_usig mb \<and> index_vec (mb_replicas_state mb) 0 \<noteq> None"
proof -
  obtain mb out where mb: "mb_new noop_crypto sample_usig solo_config False 0 sample_runtime = Some (Inr (mb, out))"
    "mb_config mb = solo_config" using solo_reachable by blast
  have reach: "mb_reachable noop_crypto sample_usig mb" by (rule reach_new [OF mb(1)])
  have "0 < cfg_n (mb_config mb)" by (simp add: mb(2) solo_config_def)
  from replica_well_formed [OF reach this] reach show ?thesis by auto
qed

subsection \<open>New views and recovery replies without a valid certificate\<close>

text \<open>
  Claim C33. A replica that is changing views and has no stable checkpoint enters the view of a NewView
  with an empty certificate whenever that view is not above the one it is changing to and the replica is not
  itself the primary of it: the certificate is found to be invalid, but the result of the validation is
  not used. The view can also be smaller than that the replica comes from.
\<close>

theorem new_view_without_certificate_accepted:
  assumes "mb_view_state mb = VS_ChangeInProgress cip" "mb_last_checkpoint_cert mb = None"
    and "next_view \<le> cip_next_view cip" "mb_me mb < cfg_n (mb_config mb)" "primary (mb_config mb) next_view \<noteq> mb_me mb"
  shows "\<exists>mb' out'. process_new_view H (UsigSigned (NewViewContent origin next_view []) sg) (mb, out) =
      Some (mb', out') \<and> (\<exists>iv. mb_view_state mb' = VS_InView iv \<and> iv_view iv = next_view) \<and>
    new_view_certificate_validate H (mb_config mb) (mb_usig mb) origin next_view [] \<noteq> valid"
proof -
  have prim: "me_primary (mb_config mb) next_view = Some False"
    using assms(4,5) by (auto simp: me_primary_def is_primary_def rust_assert_def me_def)
  obtain e where val: "new_view_certificate_validate H (mb_config mb) (mb_usig mb) origin next_view [] = invalid e"
    by (cases "origin = next_view mod cfg_n (mb_config mb)") (simp_all add: new_view_certificate_validate_def)
  have "\<not> cip_next_view cip < next_view" using assms(3) by simp
  then show ?thesis using assms(1,2) prim
    by (simp add: process_new_view_def val compute_new_view_state_def latest_certificate_def enter_view_def finish_new_view_def
        Let_def)
qed

theorem new_view_without_certificate_accepted_witness:
  "\<exists>mb' out' iv. process_new_view noop_crypto (UsigSigned (NewViewContent 1 1 []) (Noop_Signature 0))
     ((sample_replica False)\<lparr>mb_view_state := VS_ChangeInProgress
        \<lparr>cip_prev_view = 2, cip_next_view = 3, cip_has_broadcast_view_change = True\<rparr>\<rparr>, out_new True) = Some (mb', out') \<and>
     mb_view_state mb' = VS_InView iv \<and> iv_view iv = 1"
  using new_view_without_certificate_accepted [where next_view = 1 and origin = 1 and H = noop_crypto and sg = "Noop_Signature 0" and out = "out_new True"
      and mb = "(sample_replica False)\<lparr>mb_view_state := VS_ChangeInProgress
        \<lparr>cip_prev_view = 2, cip_next_view = 3, cip_has_broadcast_view_change = True\<rparr>\<rparr>"]
  by (auto simp: sample_config_def me_def primary_def)

lemma fold_insert_distinct: "distinct (xs @ ys) \<Longrightarrow> fold List.insert xs ys = rev xs @ ys"
  by (induction xs arbitrary: ys) auto

text \<open>
  Claim C34. A recovering replica accepts a RecoveryReply with its nonce from any replica, with any storage
  and with any signatures: it checks only that the certificate has \<open>t\<close> other Checkpoints, of different
  origins, that agree. So a single faulty replica, which knows the broadcast nonce, chooses the state
  that the replica recovers.
\<close>

theorem forged_recovery_reply_accepted:
  fixes mb :: "('p, 'u, 'sig, 'att) min_bft"
  assumes "mb_recovering mb" "mb_recovering_nonce mb = Some nonce" "mb_recovery_unverified_usig_messages mb = []"
    and "batcher_init (cfg_batcher_configuration (mb_config mb)) (mb_runtime mb) \<noteq> (None :: (('p, 'att) request_batcher \<times> runtime) option)"
  shows "\<exists>cert mb'. us_signature (my_checkpoint cert) = sg \<and>
    other_checkpoints cert = map (\<lambda>i. UsigSigned (us_data (my_checkpoint cert)\<lparr>cp_origin := of_nat i\<rparr>) sg) [0 ..< unat (cfg_t (mb_config mb))] \<and>
    receive_peer_message H r (PM_RecoveryReply nonce st cert) (mb, out) = Some (mb', out) \<and>
    mb_replica_storage mb' = st \<and> mb_last_checkpoint_cert mb' = Some cert \<and> \<not> mb_recovering mb'"
proof -
  let ?t = "unat (cfg_t (mb_config mb))"
  define c :: "'att checkpoint_content" where "c = \<lparr>cp_origin = 0, cp_counter_latest_prep = 0, cp_view_latest_prep = 0, cp_state_hash = last_hash st,
    cp_total_amount_accepted_batches = 0, cp_last_executed_client_req = [], cp_usig_attestations = [], cp_recovering_replicas = []\<rparr>"
  define cert :: "('sig, 'att) checkpoint_certificate" where "cert = \<lparr>my_checkpoint = UsigSigned c sg,
    other_checkpoints = map (\<lambda>i. UsigSigned (c\<lparr>cp_origin := of_nat i\<rparr>) sg) [0 ..< ?t]\<rparr>"
  have ids: "inj_on (of_nat :: nat \<Rightarrow> replica_id) {0 ..< ?t}"
  proof (rule inj_onI)
    fix x y assume "x \<in> {0 ..< ?t}" "y \<in> {0 ..< ?t}" "(of_nat x :: replica_id) = of_nat y"
    moreover have "?t \<le> u64_max" using unsigned_less [of "cfg_t (mb_config mb)"] by (simp add: less_u64_max)
    ultimately have "x \<le> u64_max" "y \<le> u64_max" "unat (of_nat x :: replica_id) = unat (of_nat y :: replica_id)" by auto
    then show "x = y" unfolding unat_of_nat_u64 [OF \<open>x \<le> u64_max\<close>] unat_of_nat_u64 [OF \<open>y \<le> u64_max\<close>] by blast
  qed
  have "fold (\<lambda>checkpoint. hs_insert (cp_origin (us_data checkpoint))) (other_checkpoints cert) [] =
      fold hs_insert (map of_nat [0 ..< ?t]) []"
    by (simp add: cert_def fold_map comp_def)
  moreover have "length (fold hs_insert (map (of_nat :: nat \<Rightarrow> replica_id) [0 ..< ?t]) []) = ?t"
    using ids by (simp add: fold_insert_distinct distinct_map)
  ultimately have "length (fold (\<lambda>checkpoint. hs_insert (cp_origin (us_data checkpoint))) (other_checkpoints cert) []) = ?t" by simp
  then have valid: "validate_checkpoint_certificate (mb_config mb) cert nonce"
    by (simp add: validate_checkpoint_certificate_def list_all_iff cert_def c_def hm_eq_def recovery_nonce_ok_def)
  have my: "cp_state_hash (us_data (my_checkpoint cert)) = last_hash st" "cp_usig_attestations (us_data (my_checkpoint cert)) = []"
    by (simp_all add: cert_def c_def)
  obtain b :: "('p, 'att) request_batcher" and rt where b: "batcher_init (cfg_batcher_configuration (mb_config mb)) (mb_runtime mb) = Some (b, rt)"
    using assms(4) by auto
  have "\<exists>mb'. receive_peer_message H r (PM_RecoveryReply nonce st cert) (mb, out) = Some (mb', out) \<and>
    mb_replica_storage mb' = st \<and> mb_last_checkpoint_cert mb' = Some cert \<and> \<not> mb_recovering mb'"
    using assms(1-3) valid my
    by (simp add: receive_peer_message_def process_peer_message_def process_recovery_reply_def
        handle_recovery_reply_def restore_checkpoint_def b Let_def)
  moreover have "us_signature (my_checkpoint cert) = sg" "other_checkpoints cert =
      map (\<lambda>i. UsigSigned (us_data (my_checkpoint cert)\<lparr>cp_origin := of_nat i\<rparr>) sg) [0 ..< ?t]" by (simp_all add: cert_def)
  ultimately show ?thesis by blast
qed

theorem forged_recovery_reply_accepted_witness:
  "\<exists>cert mb'. us_signature (my_checkpoint cert) = Noop_Signature 7 \<and> length (other_checkpoints cert) = 1 \<and>
     receive_peer_message noop_crypto 2 (PM_RecoveryReply 5 \<lparr>last_hash = replicate 32 1\<rparr> cert)
       ((sample_replica True)\<lparr>mb_recovering_nonce := Some 5\<rparr>, out_new False) = Some (mb', out_new False) \<and>
     mb_replica_storage mb' = \<lparr>last_hash = replicate 32 1\<rparr>"
proof -
  let ?mb = "(sample_replica True)\<lparr>mb_recovering_nonce := Some 5\<rparr>"
  have "mb_recovering ?mb" "mb_recovering_nonce ?mb = Some 5" "mb_recovery_unverified_usig_messages ?mb = []"
    "batcher_init (cfg_batcher_configuration (mb_config ?mb)) (mb_runtime ?mb) \<noteq>
       (None :: ((bytes, dummy_attestation) request_batcher \<times> runtime) option)"
    by (simp_all add: sample_config_def)
  from forged_recovery_reply_accepted [OF this, where out = "out_new False"
      and sg = "Noop_Signature 7" and r = 2 and H = noop_crypto and st = "\<lparr>last_hash = replicate 32 1\<rparr>"]
  obtain cert mb' where "us_signature (my_checkpoint cert) = Noop_Signature 7"
    "other_checkpoints cert = map (\<lambda>i. UsigSigned (us_data (my_checkpoint cert)\<lparr>cp_origin := of_nat i\<rparr>) (Noop_Signature 7))
       [0 ..< unat (cfg_t (mb_config ?mb))]"
    "receive_peer_message noop_crypto 2 (PM_RecoveryReply 5 \<lparr>last_hash = replicate 32 1\<rparr> cert) (?mb, out_new False) = Some (mb', out_new False)"
    "mb_replica_storage mb' = \<lparr>last_hash = replicate 32 1\<rparr>" by (elim exE conjE) (rule that)
  moreover from this(2) have "length (other_checkpoints cert) = 1" by (simp add: sample_config_def)
  ultimately show ?thesis by blast
qed

end
