(* ===== verification/Id_Set.thy ===== *)
theory Id_Set
  imports Shared_Ids "HOL-Library.FSet"
begin

text \<open>
  Sets of identifiers (\<^verbatim>\<open>src/other/id-set/src/lib.rs\<close>). An \<open>IdSet\<close> is a bit set; the model is the finite
  set of its identifiers, whose iteration visits the identifiers in ascending order.
\<close>

type_synonym id_set = "u64 fset"

definition ids_with_capacity :: "u64 \<Rightarrow> id_set" where
  "ids_with_capacity sz = {||}"

definition ids_insert :: "u64 \<Rightarrow> id_set \<Rightarrow> bool \<times> id_set" where
  "ids_insert i s = (i |\<notin>| s, finsert i s)"

definition ids_remove :: "u64 \<Rightarrow> id_set \<Rightarrow> bool \<times> id_set" where
  "ids_remove i s = (i |\<in>| s, s |-| {|i|})"

definition ids_contains :: "id_set \<Rightarrow> u64 \<Rightarrow> bool" where
  "ids_contains s i \<longleftrightarrow> i |\<in>| s"

definition ids_merge :: "id_set \<Rightarrow> id_set \<Rightarrow> id_set" where
  "ids_merge other s = s |\<union>| other"

definition ids_len :: "id_set \<Rightarrow> u64" where
  "ids_len s = of_nat (fcard s)"

definition ids_is_empty :: "id_set \<Rightarrow> bool" where
  "ids_is_empty s \<longleftrightarrow> s = {||}"

definition ids_iter :: "id_set \<Rightarrow> u64 list" where
  "ids_iter s = sorted_list_of_fset s"

definition ids_clear :: "id_set \<Rightarrow> id_set" where
  "ids_clear s = {||}"

section \<open>Lemmas\<close>

named_theorems ids_simps \<open>membership in sets of identifiers\<close>

declare ids_with_capacity_def [ids_simps] ids_insert_def [ids_simps] ids_remove_def [ids_simps]
  ids_contains_def [ids_simps] ids_merge_def [ids_simps] ids_clear_def [ids_simps]

lemma set_ids_iter [simp]: "set (ids_iter s) = fset s"
  by (simp add: ids_iter_def)

lemma ids_iter_sorted: "sorted_wrt (<) (ids_iter s)"
  by (simp add: ids_iter_def sorted_list_of_fset.rep_eq strict_sorted_list_of_set)

lemma ids_iter_distinct [simp]: "distinct (ids_iter s)"
  using ids_iter_sorted strict_sorted_iff by blast

lemma ids_iter_inject [simp]: "ids_iter s = ids_iter t \<longleftrightarrow> s = t"
  by (metis fset_inject set_ids_iter)

lemma ids_iter_code [code]: "ids_iter s = sorted_list_of_set (fset s)"
  by (simp add: ids_iter_def sorted_list_of_fset.rep_eq)

lemma ids_iter_of_list: "ids_iter (fset_of_list xs) = sort (remdups xs)"
  by (simp add: ids_iter_def sorted_list_of_fset.rep_eq fset_of_list.rep_eq sorted_list_of_set_sort_remdups)

lemma ids_iter_empty [simp]: "ids_iter {||} = []"
  using ids_iter_of_list [of "[]"] by simp

lemma ids_iter_finsert [simp]:
  "ids_iter (finsert x s) = (if x |\<in>| s then ids_iter s else insort x (ids_iter s))"
  by (cases "x |\<in>| s") (simp_all add: finsert_absorb, simp add: ids_iter_def sorted_list_of_fset.rep_eq)

lemma unat_ids_len: "unat (ids_len s) \<le> fcard s"
  by (simp add: ids_len_def unat_of_nat take_bit_eq_mod)

lemma fcard_iter: "length (ids_iter s) = fcard s"
  by (metis distinct_card fcard.rep_eq ids_iter_distinct set_ids_iter)

end
