(* ===== verification/Nxbft_Vertex.thy ===== *)
theory Nxbft_Vertex
  imports Id_Set
begin

text \<open>
  Addresses, vertices and rounds of NxBFT: \<^verbatim>\<open>nxbft-base/src/lib.rs\<close>, \<^verbatim>\<open>nxbft-base/src/vertex.rs\<close> and
  \<^verbatim>\<open>nxbft/src/util.rs\<close>. The hash functions and the hash and identifiers of a transaction (the traits
  \<open>Hashbar\<close> and \<open>Transaction\<close> of the application) are the record \<open>tx_scheme\<close>.
\<close>

section \<open>Rounds, waves and addresses\<close>

type_synonym round = u64
type_synonym wave = u64

definition wave_from_round :: "round \<Rightarrow> wave option" where
  "wave_from_round r = do { rust_assert (4 \<le> r); Some (r div 4) }"

definition round_of_wave :: "wave \<Rightarrow> u64 \<Rightarrow> round option" where
  "round_of_wave w round_in_wave =
     do {
       rust_assert (0 < round_in_wave \<and> round_in_wave < 5);
       Some (4 * (w - 1) + round_in_wave)
     }"

datatype dag_address = DagAddress (addr_round: round) (addr_creator: replica_id)

text \<open>The derived order compares the round first.\<close>

definition dag_address_le :: "dag_address \<Rightarrow> dag_address \<Rightarrow> bool" where
  "dag_address_le a b \<longleftrightarrow>
     addr_round a < addr_round b \<or> addr_round a = addr_round b \<and> addr_creator a \<le> addr_creator b"

definition dag_address_lt :: "dag_address \<Rightarrow> dag_address \<Rightarrow> bool" where
  "dag_address_lt a b \<longleftrightarrow>
     addr_round a < addr_round b \<or> addr_round a = addr_round b \<and> addr_creator a < addr_creator b"

instantiation dag_address :: linorder
begin

definition less_eq_dag_address :: "dag_address \<Rightarrow> dag_address \<Rightarrow> bool" where
  "less_eq_dag_address = dag_address_le"

definition less_dag_address :: "dag_address \<Rightarrow> dag_address \<Rightarrow> bool" where
  "less_dag_address = dag_address_lt"

instance
  by standard (auto simp: less_eq_dag_address_def less_dag_address_def dag_address_le_def dag_address_lt_def dag_address.expand)

end

section \<open>Vertices\<close>

record 'tx tx_scheme =
  tx_sha256 :: "bytes \<Rightarrow> bytes"
  tx_blake2b :: "bytes \<Rightarrow> bytes"
  tx_bytes :: "'tx \<Rightarrow> bytes"
  tx_client_id :: "'tx \<Rightarrow> client_id"
  tx_request_id :: "'tx \<Rightarrow> request_id"

record signable_vertex =
  sv_address :: dag_address
  sv_transactions_hash :: bytes
  sv_edges :: id_set

record 'sig signed_vertex =
  sgv_signable :: signable_vertex
  sgv_signature :: 'sig
  sgv_counter :: u64

record ('tx, 'sig) vertex =
  vx_transactions :: "'tx list"
  vx_signed :: "'sig signed_vertex"

abbreviation vx_address :: "('tx, 'sig) vertex \<Rightarrow> dag_address" where
  "vx_address v \<equiv> sv_address (sgv_signable (vx_signed v))"

abbreviation vx_round :: "('tx, 'sig) vertex \<Rightarrow> round" where
  "vx_round v \<equiv> addr_round (vx_address v)"

abbreviation vx_creator :: "('tx, 'sig) vertex \<Rightarrow> replica_id" where
  "vx_creator v \<equiv> addr_creator (vx_address v)"

abbreviation vx_edges :: "('tx, 'sig) vertex \<Rightarrow> id_set" where
  "vx_edges v \<equiv> sv_edges (sgv_signable (vx_signed v))"

abbreviation vx_counter :: "('tx, 'sig) vertex \<Rightarrow> u64" where
  "vx_counter v \<equiv> sgv_counter (vx_signed v)"

abbreviation vx_signature :: "('tx, 'sig) vertex \<Rightarrow> 'sig" where
  "vx_signature v \<equiv> sgv_signature (vx_signed v)"

definition signable_vertex_bytes :: "signable_vertex \<Rightarrow> bytes" where
  "signable_vertex_bytes v =
     to_le_bytes (addr_round (sv_address v)) @ to_le_bytes (addr_creator (sv_address v)) @
     sv_transactions_hash v @ concat (map to_le_bytes (ids_iter (sv_edges v)))"

definition signable_vertex_new :: "('tx, 'z) tx_scheme_scheme \<Rightarrow> dag_address \<Rightarrow> id_set \<Rightarrow> 'tx list \<Rightarrow> signable_vertex" where
  "signable_vertex_new T address edges transactions =
     \<lparr>sv_address = address, sv_transactions_hash = tx_sha256 T (concat (map (tx_bytes T) transactions)), sv_edges = edges\<rparr>"

definition num_edges :: "('tx, 'sig) vertex \<Rightarrow> u64" where
  "num_edges v = ids_len (vx_edges v)"

definition edges_valid :: "u64 \<Rightarrow> ('tx, 'sig) vertex \<Rightarrow> bool" where
  "edges_valid quorum v \<longleftrightarrow> quorum \<le> num_edges v"

definition signable_vertex_to_hash :: "('tx, 'z) tx_scheme_scheme \<Rightarrow> signable_vertex \<Rightarrow> bytes" where
  "signable_vertex_to_hash T v = tx_blake2b T (signable_vertex_bytes v)"

text \<open>
  \<open>sign\<close> is the closure that the caller passes; it can fail, and its state (the enclave of the
  caller) is threaded through.
\<close>

definition vertex_new ::
    "('tx, 'z) tx_scheme_scheme \<Rightarrow> round \<Rightarrow> replica_id \<Rightarrow> id_set \<Rightarrow> 'tx list \<Rightarrow>
     (signable_vertex \<Rightarrow> 's \<Rightarrow> (('err + 'sig \<times> u64) \<times> 's) option) \<Rightarrow> 's \<Rightarrow>
     (('err + ('tx, 'sig) vertex) \<times> 's) option" where
  "vertex_new T r creator edges transactions sign s =
     do {
       let signable_vertex = signable_vertex_new T (DagAddress r creator) edges transactions;
       (res, s) \<leftarrow> sign signable_vertex s;
       Some (case res of
           Inl e \<Rightarrow> (Inl e, s)
         | Inr (signature, counter) \<Rightarrow>
             (Inr \<lparr>vx_transactions = transactions,
                vx_signed = \<lparr>sgv_signable = signable_vertex, sgv_signature = signature, sgv_counter = counter\<rparr>\<rparr>, s))
     }"

definition vertex_new_with_signature ::
    "('tx, 'z) tx_scheme_scheme \<Rightarrow> round \<Rightarrow> replica_id \<Rightarrow> id_set \<Rightarrow> 'tx list \<Rightarrow> 'sig \<Rightarrow> u64 \<Rightarrow> ('tx, 'sig) vertex" where
  "vertex_new_with_signature T r creator edges transactions signature counter =
     \<lparr>vx_transactions = transactions,
      vx_signed = \<lparr>sgv_signable = signable_vertex_new T (DagAddress r creator) edges transactions,
        sgv_signature = signature, sgv_counter = counter\<rparr>\<rparr>"

section \<open>Serialization\<close>

text \<open>
  The data format behind serde hands a visitor typed values, as a sequence or as a map with the
  names of the fields; a value of another type than the requested one is an error of the format.
\<close>

datatype vertex_field = VF_Round | VF_Creator | VF_Edges | VF_Transactions | VF_Signature | VF_Counter

datatype ('tx, 'sig) field_value =
  FV_U64 u64
| FV_Set id_set
| FV_Txs "'tx list"
| FV_Sig 'sig

datatype de_error =
  DE_InvalidType
| DE_InvalidLength nat
| DE_DuplicateField vertex_field
| DE_MissingField vertex_field

definition vertex_serialize :: "('tx, 'sig) vertex \<Rightarrow> (vertex_field \<times> ('tx, 'sig) field_value) list" where
  "vertex_serialize v =
     [(VF_Round, FV_U64 (vx_round v)), (VF_Creator, FV_U64 (vx_creator v)), (VF_Edges, FV_Set (vx_edges v)),
      (VF_Transactions, FV_Txs (vx_transactions v)), (VF_Signature, FV_Sig (vx_signature v)),
      (VF_Counter, FV_U64 (vx_counter v))]"

fun de_u64 :: "('tx, 'sig) field_value \<Rightarrow> de_error + u64" where
  "de_u64 (FV_U64 x) = Inr x"
| "de_u64 _ = Inl DE_InvalidType"

fun de_set :: "('tx, 'sig) field_value \<Rightarrow> de_error + id_set" where
  "de_set (FV_Set x) = Inr x"
| "de_set _ = Inl DE_InvalidType"

fun de_txs :: "('tx, 'sig) field_value \<Rightarrow> de_error + 'tx list" where
  "de_txs (FV_Txs x) = Inr x"
| "de_txs _ = Inl DE_InvalidType"

fun de_sig :: "('tx, 'sig) field_value \<Rightarrow> de_error + 'sig" where
  "de_sig (FV_Sig x) = Inr x"
| "de_sig _ = Inl DE_InvalidType"

abbreviation result_bind :: "'e + 'a \<Rightarrow> ('a \<Rightarrow> 'e + 'b) \<Rightarrow> 'e + 'b" where
  "result_bind r f \<equiv> (case r of Inl e \<Rightarrow> Inl e | Inr x \<Rightarrow> f x)"

text \<open>\<open>seq.next_element()?.ok_or_else(invalid_length(i))?\<close> at position \<open>i\<close>.\<close>

definition next_element ::
    "('v \<Rightarrow> de_error + 'a) \<Rightarrow> nat \<Rightarrow> 'v list \<Rightarrow> ('a \<Rightarrow> 'v list \<Rightarrow> de_error + 'b) \<Rightarrow> de_error + 'b" where
  "next_element de i s f =
     (case s of [] \<Rightarrow> Inl (DE_InvalidLength i) | v # s' \<Rightarrow> result_bind (de v) (\<lambda>x. f x s'))"

definition visit_seq :: "('tx, 'z) tx_scheme_scheme \<Rightarrow> ('tx, 'sig) field_value list \<Rightarrow> de_error + ('tx, 'sig) vertex" where
  "visit_seq T s =
     next_element de_u64 0 s (\<lambda>r s.
     next_element de_u64 1 s (\<lambda>creator s.
     next_element de_set 2 s (\<lambda>edges s.
     next_element de_txs 3 s (\<lambda>transactions s.
     next_element de_sig 4 s (\<lambda>signature s.
     next_element de_u64 5 s (\<lambda>counter s.
       Inr (vertex_new_with_signature T r creator edges transactions signature counter)))))))"

record ('tx, 'sig) vertex_parts =
  vp_round :: "round option"
  vp_creator :: "replica_id option"
  vp_edges :: "id_set option"
  vp_transactions :: "'tx list option"
  vp_signature :: "'sig option"
  vp_counter :: "u64 option"

definition vertex_parts_none :: "('tx, 'sig) vertex_parts" where
  "vertex_parts_none = \<lparr>vp_round = None, vp_creator = None, vp_edges = None, vp_transactions = None,
     vp_signature = None, vp_counter = None\<rparr>"

fun visit_entry ::
    "vertex_field \<times> ('tx, 'sig) field_value \<Rightarrow> ('tx, 'sig) vertex_parts \<Rightarrow> de_error + ('tx, 'sig) vertex_parts" where
  "visit_entry (VF_Round, v) p =
     (if vp_round p \<noteq> None then Inl (DE_DuplicateField VF_Round)
      else result_bind (de_u64 v) (\<lambda>x. Inr (p\<lparr>vp_round := Some x\<rparr>)))"
| "visit_entry (VF_Creator, v) p =
     (if vp_creator p \<noteq> None then Inl (DE_DuplicateField VF_Creator)
      else result_bind (de_u64 v) (\<lambda>x. Inr (p\<lparr>vp_creator := Some x\<rparr>)))"
| "visit_entry (VF_Edges, v) p =
     (if vp_edges p \<noteq> None then Inl (DE_DuplicateField VF_Edges)
      else result_bind (de_set v) (\<lambda>x. Inr (p\<lparr>vp_edges := Some x\<rparr>)))"
| "visit_entry (VF_Transactions, v) p =
     (if vp_transactions p \<noteq> None then Inl (DE_DuplicateField VF_Transactions)
      else result_bind (de_txs v) (\<lambda>x. Inr (p\<lparr>vp_transactions := Some x\<rparr>)))"
| "visit_entry (VF_Signature, v) p =
     (if vp_signature p \<noteq> None then Inl (DE_DuplicateField VF_Signature)
      else result_bind (de_sig v) (\<lambda>x. Inr (p\<lparr>vp_signature := Some x\<rparr>)))"
| "visit_entry (VF_Counter, v) p =
     (if vp_counter p \<noteq> None then Inl (DE_DuplicateField VF_Counter)
      else result_bind (de_u64 v) (\<lambda>x. Inr (p\<lparr>vp_counter := Some x\<rparr>)))"

fun visit_entries ::
    "(vertex_field \<times> ('tx, 'sig) field_value) list \<Rightarrow> ('tx, 'sig) vertex_parts \<Rightarrow> de_error + ('tx, 'sig) vertex_parts" where
  "visit_entries [] p = Inr p"
| "visit_entries (e # es) p = result_bind (visit_entry e p) (visit_entries es)"

definition required :: "vertex_field \<Rightarrow> 'a option \<Rightarrow> ('a \<Rightarrow> de_error + 'b) \<Rightarrow> de_error + 'b" where
  "required field x f = (case x of None \<Rightarrow> Inl (DE_MissingField field) | Some x \<Rightarrow> f x)"

definition vertex_of_parts :: "('tx, 'z) tx_scheme_scheme \<Rightarrow> ('tx, 'sig) vertex_parts \<Rightarrow> de_error + ('tx, 'sig) vertex" where
  "vertex_of_parts T p =
     required VF_Round (vp_round p) (\<lambda>r.
     required VF_Creator (vp_creator p) (\<lambda>creator.
     required VF_Edges (vp_edges p) (\<lambda>edges.
     required VF_Transactions (vp_transactions p) (\<lambda>transactions.
     required VF_Signature (vp_signature p) (\<lambda>signature.
     required VF_Counter (vp_counter p) (\<lambda>counter.
       Inr (vertex_new_with_signature T r creator edges transactions signature counter)))))))"

definition visit_map ::
    "('tx, 'z) tx_scheme_scheme \<Rightarrow> (vertex_field \<times> ('tx, 'sig) field_value) list \<Rightarrow> de_error + ('tx, 'sig) vertex" where
  "visit_map T es = result_bind (visit_entries es vertex_parts_none) (vertex_of_parts T)"

section \<open>Lemmas\<close>

subsection \<open>The signed bytes of a vertex\<close>

lemma concat_le_bytes_inject: "concat (map to_le_bytes xs) = concat (map to_le_bytes ys) \<longleftrightarrow> xs = ys"
proof (induction xs arbitrary: ys)
  case Nil
  then show ?case by (cases ys) (auto dest: arg_cong [where f = length])
next
  case (Cons x xs)
  then show ?case by (cases ys) (auto simp: append_eq_append_conv dest: arg_cong [where f = length])
qed

text \<open>
  Claim C35. Two vertices whose signed bytes are equal are equal in everything that is signed: round,
  creator, hash of the transactions and edges, provided the hashes have the length of a SHA-256 digest.
\<close>

theorem signable_vertex_bytes_injective:
  assumes "length (sv_transactions_hash v) = 32" "length (sv_transactions_hash w) = 32"
    and "signable_vertex_bytes v = signable_vertex_bytes w"
  shows "v = w"
  using assms
  by (cases "sv_address v"; cases "sv_address w")
    (auto simp: signable_vertex_bytes_def append_eq_append_conv concat_le_bytes_inject intro!: signable_vertex.equality)

theorem signable_vertex_bytes_injective_witness:
  "\<exists>v w. length (sv_transactions_hash v) = 32 \<and> signable_vertex_bytes v = signable_vertex_bytes w \<and>
     sv_edges v = {|2, 1|} \<and> sv_edges w = {|1, 2|} \<and> v = w"
proof -
  let ?v = "\<lparr>sv_address = DagAddress 2 0, sv_transactions_hash = replicate 32 0, sv_edges = {|2, 1|}\<rparr>"
  let ?w = "\<lparr>sv_address = DagAddress 2 0, sv_transactions_hash = replicate 32 0, sv_edges = {|1, 2|}\<rparr>"
  have "signable_vertex_bytes ?v = signable_vertex_bytes ?w" by (simp add: signable_vertex_bytes_def word_le_nat_alt)
  from signable_vertex_bytes_injective [OF _ _ this] this show ?thesis by (intro exI [of _ ?v] exI [of _ ?w]) simp
qed

subsection \<open>Serialization\<close>

definition vertex_hash_ok :: "('tx, 'z) tx_scheme_scheme \<Rightarrow> ('tx, 'sig) vertex \<Rightarrow> bool" where
  "vertex_hash_ok T v \<longleftrightarrow> sgv_signable (vx_signed v) = signable_vertex_new T (vx_address v) (vx_edges v) (vx_transactions v)"

fun part :: "('tx, 'sig) vertex_parts \<Rightarrow> vertex_field \<Rightarrow> ('tx, 'sig) field_value option" where
  "part p VF_Round = map_option FV_U64 (vp_round p)"
| "part p VF_Creator = map_option FV_U64 (vp_creator p)"
| "part p VF_Edges = map_option FV_Set (vp_edges p)"
| "part p VF_Transactions = map_option FV_Txs (vp_transactions p)"
| "part p VF_Signature = map_option FV_Sig (vp_signature p)"
| "part p VF_Counter = map_option FV_U64 (vp_counter p)"

lemma part_none: "part vertex_parts_none f = None"
  by (cases f) (simp_all add: vertex_parts_none_def)

lemma part_inject:
  assumes "part p = part q"
  shows "p = q"
proof -
  have "part p f = part q f" for f by (simp add: assms)
  from this [of VF_Round] this [of VF_Creator] this [of VF_Edges] this [of VF_Transactions] this [of VF_Signature] this [of VF_Counter]
  show ?thesis
    by (intro vertex_parts.equality) (auto simp: map_option_case split: option.splits)
qed

lemma part_cong:
  "part (p\<lparr>vp_round := x\<rparr>) f = ((part p)(VF_Round := map_option FV_U64 x)) f"
  "part (p\<lparr>vp_creator := y\<rparr>) f = ((part p)(VF_Creator := map_option FV_U64 y)) f"
  "part (p\<lparr>vp_edges := e\<rparr>) f = ((part p)(VF_Edges := map_option FV_Set e)) f"
  "part (p\<lparr>vp_transactions := t\<rparr>) f = ((part p)(VF_Transactions := map_option FV_Txs t)) f"
  "part (p\<lparr>vp_signature := sg\<rparr>) f = ((part p)(VF_Signature := map_option FV_Sig sg)) f"
  "part (p\<lparr>vp_counter := k\<rparr>) f = ((part p)(VF_Counter := map_option FV_U64 k)) f"
  by (cases f; simp)+

lemma visit_entry_Inr:
  "visit_entry (f, x) p = Inr p' \<Longrightarrow> part p f = None \<and> part p' = (part p)(f := Some x)"
  by (cases f; cases x) (auto simp: fun_eq_iff part_cong split: if_splits)

lemma visit_entry_total:
  assumes "part p f = None" "part q f = Some x"
  shows "\<exists>p'. visit_entry (f, x) p = Inr p'"
  using assms by (cases f) auto

lemma visit_entries_Inr:
  "visit_entries es p = Inr q \<Longrightarrow>
    distinct (map fst es) \<and> (\<forall>f \<in> fst ` set es. part p f = None) \<and> part q = part p ++ map_of es"
proof (induction es arbitrary: p)
  case (Cons e es)
  obtain f x where e: "e = (f, x)" by (cases e)
  obtain p' where p': "visit_entry (f, x) p = Inr p'" "visit_entries es p' = Inr q"
    using Cons.prems by (auto simp: e split: sum.splits)
  note step = visit_entry_Inr [OF p'(1)] and rest = Cons.IH [OF p'(2)]
  have new: "f \<notin> fst ` set es" using rest step by fastforce
  then have "map_of es f = None" by (simp add: map_of_eq_None_iff)
  then have eq: "part p ++ map_of (e # es) = part p' ++ map_of es"
    using step by (auto simp: e fun_eq_iff map_add_def split: option.split dest: map_of_SomeD)
  moreover from new have "\<forall>g \<in> fst ` set es. part p g = None" using rest step new by (auto simp: fun_eq_iff split: if_splits)
  ultimately have "\<forall>g \<in> fst ` set (e # es). part p g = None" using step by (simp add: e)
  moreover have "part q = part p ++ map_of (e # es)" using rest unfolding eq by blast
  moreover have "distinct (map fst (e # es))" using rest new by (simp add: e)
  ultimately show ?case by blast
qed simp

lemma visit_entries_total:
  assumes "distinct (map fst es)" "\<forall>(f, x) \<in> set es. part p f = None \<and> part q f = Some x"
  shows "\<exists>p'. visit_entries es p = Inr p'"
  using assms
proof (induction es arbitrary: p)
  case (Cons e es)
  obtain f x where e: "e = (f, x)" by (cases e)
  obtain p' where p': "visit_entry (f, x) p = Inr p'" using visit_entry_total [of p f q x] Cons.prems by (auto simp: e)
  have "\<forall>(g, y) \<in> set es. part p' g = None \<and> part q g = Some y"
  proof
    fix y assume y: "y \<in> set es"
    then have "fst y \<noteq> f" using Cons.prems(1) by (auto simp: e)
    then show "case y of (g, y) \<Rightarrow> part p' g = None \<and> part q g = Some y"
      using visit_entry_Inr [OF p'] Cons.prems(2) y by (cases y) (fastforce simp: e)
  qed
  with Cons.IH [of p'] Cons.prems(1) p' show ?case by (auto simp: e)
qed simp

definition parts_of :: "('tx, 'sig) vertex \<Rightarrow> ('tx, 'sig) vertex_parts" where
  "parts_of v = \<lparr>vp_round = Some (vx_round v), vp_creator = Some (vx_creator v), vp_edges = Some (vx_edges v),
     vp_transactions = Some (vx_transactions v), vp_signature = Some (vx_signature v), vp_counter = Some (vx_counter v)\<rparr>"

lemma part_of_serialize: "part (parts_of v) f = Some x \<longleftrightarrow> (f, x) \<in> set (vertex_serialize v)"
  by (cases f) (auto simp: parts_of_def vertex_serialize_def)

lemma vertex_of_parts_iff: "vertex_of_parts T p = Inr v \<longleftrightarrow> p = parts_of v \<and> vertex_hash_ok T v"
proof (intro iffI; (elim conjE)?)
  assume "vertex_of_parts T p = Inr v"
  then obtain r c es txs sg k where p: "vp_round p = Some r" "vp_creator p = Some c" "vp_edges p = Some es"
    "vp_transactions p = Some txs" "vp_signature p = Some sg" "vp_counter p = Some k"
    and v: "v = vertex_new_with_signature T r c es txs sg k"
    by (auto simp: vertex_of_parts_def required_def split: option.splits)
  show "p = parts_of v \<and> vertex_hash_ok T v"
    unfolding v by (auto simp: p parts_of_def vertex_new_with_signature_def signable_vertex_new_def vertex_hash_ok_def intro!: vertex_parts.equality)
next
  assume p: "p = parts_of v" and ok: "vertex_hash_ok T v"
  have "vertex_new_with_signature T (vx_round v) (vx_creator v) (vx_edges v) (vx_transactions v) (vx_signature v) (vx_counter v) = v"
    using ok by (auto simp: vertex_new_with_signature_def vertex_hash_ok_def intro!: vertex.equality signed_vertex.equality)
  then show "vertex_of_parts T p = Inr v" by (simp add: p vertex_of_parts_def required_def parts_of_def)
qed

lemma part_entries:
  assumes "visit_entries es vertex_parts_none = Inr p"
  shows "distinct (map fst es)" "part p = map_of es"
proof -
  note run = visit_entries_Inr [OF assms]
  show "distinct (map fst es)" using run by blast
  have none: "part vertex_parts_none = Map.empty" by (rule ext) (rule part_none)
  have "part p = part vertex_parts_none ++ map_of es" using run by blast
  then show "part p = map_of es" unfolding none by simp
qed

lemma map_of_serialize:
  assumes "distinct (map fst es)"
  shows "map_of es = part (parts_of v) \<longleftrightarrow> set es = set (vertex_serialize v)"
proof -
  have "map_of es f = Some x \<longleftrightarrow> (f, x) \<in> set es" for f x using assms by (rule map_of_eq_Some_iff)
  moreover have "map_of es = part (parts_of v) \<longleftrightarrow> (\<forall>f x. map_of es f = Some x \<longleftrightarrow> part (parts_of v) f = Some x)"
    by (metis ext not_Some_eq)
  ultimately have "map_of es = part (parts_of v) \<longleftrightarrow> (\<forall>f x. (f, x) \<in> set es \<longleftrightarrow> (f, x) \<in> set (vertex_serialize v))"
    by (simp only: part_of_serialize)
  then show ?thesis by (simp only: set_eq_iff split_paired_all split_paired_All)
qed

lemma visit_map_iff:
  "visit_map T es = Inr v \<longleftrightarrow> distinct (map fst es) \<and> set es = set (vertex_serialize v) \<and> vertex_hash_ok T v"
proof
  assume "visit_map T es = Inr v"
  then obtain p where p: "visit_entries es vertex_parts_none = Inr p" "vertex_of_parts T p = Inr v"
    by (auto simp: visit_map_def split: sum.splits)
  from part_entries [OF p(1)] map_of_serialize [of es v] p(2)
  show "distinct (map fst es) \<and> set es = set (vertex_serialize v) \<and> vertex_hash_ok T v"
    by (simp add: vertex_of_parts_iff)
next
  assume es: "distinct (map fst es) \<and> set es = set (vertex_serialize v) \<and> vertex_hash_ok T v"
  then have "\<forall>(f, x) \<in> set es. part vertex_parts_none f = None \<and> part (parts_of v) f = Some x"
    unfolding part_none part_of_serialize by blast
  then obtain p where p: "visit_entries es vertex_parts_none = Inr p" using visit_entries_total es by blast
  have "part p = part (parts_of v)" using part_entries [OF p] map_of_serialize [of es v] es by simp
  with part_inject p es show "visit_map T es = Inr v" by (auto simp: visit_map_def vertex_of_parts_iff)
qed

text \<open>
  Claim C36. Deserialising a vertex from a map accepts exactly the six fields of the serialised vertex, each
  once and in any order, and gives the vertex back with the hash computed from its transactions;
  deserialising the sequence of its serialised values gives it back too.
\<close>

theorem vertex_serialization:
  "(visit_map T es = Inr v \<longleftrightarrow> distinct (map fst es) \<and> set es = set (vertex_serialize v) \<and> vertex_hash_ok T v) \<and>
   (visit_seq T (map snd (vertex_serialize v)) = Inr v \<longleftrightarrow> vertex_hash_ok T v)"
proof -
  have "visit_seq T (map snd (vertex_serialize v)) = vertex_of_parts T (parts_of v)"
    by (simp add: visit_seq_def vertex_serialize_def next_element_def vertex_of_parts_def required_def parts_of_def)
  then show ?thesis by (simp add: visit_map_iff vertex_of_parts_iff)
qed

end
