(* ===== verification/Nxbft_Dag.thy ===== *)
theory Nxbft_Dag
  imports Nxbft_Vertex
begin

text \<open>
  The consensus DAG of NxBFT (\<^verbatim>\<open>nxbft/src/consensus_dag/\<close>): rounds of vertices with their flags, insertion,
  the depth-first delivery, the two searches for a path and pruning.

  A stack of the source is a list whose head is the top; a queue is a list whose head is the front. The
  loops of the searches end only because the graph is finite: they are defined without a bound, and
  not returning is \<open>None\<close>, like a panic; that they return is a theorem.
\<close>

section \<open>Vertices with flags\<close>

record ('tx, 'sig) vertex_with_meta =
  vm_vertex :: "('tx, 'sig) vertex"
  vm_delivered :: bool
  vm_path_explored :: bool
  vm_reaches :: id_set

definition vertex_with_meta_new :: "('tx, 'sig) vertex \<Rightarrow> id_set \<Rightarrow> ('tx, 'sig) vertex_with_meta" where
  "vertex_with_meta_new v r = \<lparr>vm_vertex = v, vm_delivered = False, vm_path_explored = False, vm_reaches = r\<rparr>"

definition vm_deliver :: "('tx, 'sig) vertex_with_meta \<Rightarrow> ('tx, 'sig) vertex_with_meta" where
  "vm_deliver m = m\<lparr>vm_delivered := True\<rparr>"

definition vm_path_explore :: "('tx, 'sig) vertex_with_meta \<Rightarrow> ('tx, 'sig) vertex_with_meta" where
  "vm_path_explore m = m\<lparr>vm_path_explored := True\<rparr>"

section \<open>Rounds\<close>

record ('tx, 'sig) dag_round =
  dr_vertices :: "('tx, 'sig) vertex_with_meta option list"
  dr_valid_vertice_count :: u64

definition dag_round_new :: "u64 \<Rightarrow> ('tx, 'sig) dag_round" where
  "dag_round_new n = \<lparr>dr_vertices = replicate (unat n) None, dr_valid_vertice_count = 0\<rparr>"

definition dr_get_mut ::
    "replica_id \<Rightarrow> (('tx, 'sig) vertex_with_meta \<Rightarrow> ('tx, 'sig) vertex_with_meta) \<Rightarrow>
     ('tx, 'sig) dag_round \<Rightarrow> ('tx, 'sig) dag_round option" where
  "dr_get_mut creator f r =
     do {
       slot \<leftarrow> index_vec (dr_vertices r) (unat creator);
       m \<leftarrow> slot;
       Some (r\<lparr>dr_vertices := (dr_vertices r)[unat creator := Some (f m)]\<rparr>)
     }"

definition dr_get :: "('tx, 'sig) dag_round \<Rightarrow> replica_id \<Rightarrow> ('tx, 'sig) vertex_with_meta option" where
  "dr_get r creator = (case index_vec (dr_vertices r) (unat creator) of Some (Some v) \<Rightarrow> Some v | _ \<Rightarrow> None)"

definition dr_all_valid_addresses :: "('tx, 'sig) dag_round \<Rightarrow> dag_address list" where
  "dr_all_valid_addresses r = List.map_filter (map_option (\<lambda>m. vx_address (vm_vertex m))) (dr_vertices r)"

definition dr_insert :: "('tx, 'sig) vertex_with_meta \<Rightarrow> ('tx, 'sig) dag_round \<Rightarrow> ('tx, 'sig) dag_round option" where
  "dr_insert v r =
     (let creator = unat (vx_creator (vm_vertex v))
      in do {
        rust_assert (creator < length (dr_vertices r));
        Some (r\<lparr>dr_vertices := (dr_vertices r)[creator := Some v],
                dr_valid_vertice_count := dr_valid_vertice_count r + 1\<rparr>)
      })"

definition dr_prune :: "('tx, 'sig) dag_round \<Rightarrow> ('tx, 'sig) vertex list" where
  "dr_prune r = map vm_vertex (filter (\<lambda>m. \<not> vm_delivered m) (List.map_filter id (dr_vertices r)))"

section \<open>The DAG\<close>

record ('tx, 'sig) dag =
  dag_n :: u64
  dag_offset :: round
  dag_max_round :: round
  dag_rounds :: "('tx, 'sig) dag_round list"
  dag_explored_from :: round

text \<open>
  \<open>Vec::push\<close> panics when the capacity exceeds \<open>isize::MAX\<close> bytes; no vector of elements of positive
  size has more elements than that.
\<close>

definition isize_max :: nat where
  "isize_max = 2 ^ 63 - 1"

definition vec_push :: "'a \<Rightarrow> 'a list \<Rightarrow> 'a list option" where
  "vec_push x xs = (if length xs < isize_max then Some (xs @ [x]) else None)"

lemma vec_push_code [code]: "vec_push x xs = (if int (length xs) < 9223372036854775807 then Some (xs @ [x]) else None)"
  by (simp add: vec_push_def isize_max_def nat_less_iff [symmetric])

definition round_to_index :: "('tx, 'sig) dag \<Rightarrow> round \<Rightarrow> nat option" where
  "round_to_index d r =
     (if r < dag_offset d \<or> dag_max_round d < r then None else Some (unat (r - dag_offset d)))"

definition new_round :: "('tx, 'sig) dag \<Rightarrow> ('tx, 'sig) dag option" where
  "new_round d =
     do {
       rounds \<leftarrow> vec_push (dag_round_new (dag_n d)) (dag_rounds d);
       Some (d\<lparr>dag_rounds := rounds, dag_max_round := dag_max_round d + 1\<rparr>)
     }"

definition dag_new :: "u64 \<Rightarrow> ('tx, 'sig) dag option" where
  "dag_new n =
     new_round \<lparr>dag_n = n, dag_offset = 1, dag_max_round = 0, dag_rounds = [], dag_explored_from = 0\<rparr>"

definition dag_get_mut ::
    "dag_address \<Rightarrow> (('tx, 'sig) vertex_with_meta \<Rightarrow> ('tx, 'sig) vertex_with_meta) \<Rightarrow>
     ('tx, 'sig) dag \<Rightarrow> ('tx, 'sig) dag option" where
  "dag_get_mut address f d =
     do {
       idx \<leftarrow> round_to_index d (addr_round address);
       r \<leftarrow> index_vec (dag_rounds d) idx;
       r \<leftarrow> dr_get_mut (addr_creator address) f r;
       Some (d\<lparr>dag_rounds := (dag_rounds d)[idx := r]\<rparr>)
     }"

definition get_with_meta :: "('tx, 'sig) dag \<Rightarrow> dag_address \<Rightarrow> ('tx, 'sig) vertex_with_meta option option" where
  "get_with_meta d address =
     do {
       rust_assert (addr_creator address < dag_n d);
       case round_to_index d (addr_round address) of
         Some index \<Rightarrow> do { r \<leftarrow> index_vec (dag_rounds d) index; Some (dr_get r (addr_creator address)) }
       | None \<Rightarrow> Some None
     }"

definition dag_get :: "('tx, 'sig) dag \<Rightarrow> dag_address \<Rightarrow> ('tx, 'sig) vertex option option" where
  "dag_get d address = map_option (map_option vm_vertex) (get_with_meta d address)"

definition dag_knows :: "('tx, 'sig) dag \<Rightarrow> dag_address \<Rightarrow> bool option" where
  "dag_knows d address = map_option (\<lambda>v. v \<noteq> None) (dag_get d address)"

text \<open>The lookups with \<open>unwrap\<close>; the second is also \<open>Index\<close>.\<close>

definition dag_meta :: "('tx, 'sig) dag \<Rightarrow> dag_address \<Rightarrow> ('tx, 'sig) vertex_with_meta option" where
  "dag_meta d address = do { m \<leftarrow> get_with_meta d address; m }"

definition dag_index :: "('tx, 'sig) dag \<Rightarrow> dag_address \<Rightarrow> ('tx, 'sig) vertex option" where
  "dag_index d address = do { v \<leftarrow> dag_get d address; v }"

definition dag_get_round :: "('tx, 'sig) dag \<Rightarrow> round \<Rightarrow> dag_address list option" where
  "dag_get_round d r =
     (case round_to_index d r of
        Some index \<Rightarrow> map_option dr_all_valid_addresses (index_vec (dag_rounds d) index)
      | None \<Rightarrow> Some [])"

definition get_round_valid_count :: "('tx, 'sig) dag \<Rightarrow> round \<Rightarrow> u64 option" where
  "get_round_valid_count d r =
     (case round_to_index d r of
        Some index \<Rightarrow> map_option dr_valid_vertice_count (index_vec (dag_rounds d) index)
      | None \<Rightarrow> Some 0)"

definition insert_reaches :: "('tx, 'sig) dag \<Rightarrow> ('tx, 'sig) vertex \<Rightarrow> id_set option" where
  "insert_reaches d v =
     (let r = vx_round v; reaches = ids_with_capacity (dag_n d)
      in if r mod 4 = 3
         then fold_opt (\<lambda>creator reaches. do {
                w \<leftarrow> dag_index d (DagAddress (r - 1) creator);
                Some (ids_merge (vx_edges w) reaches)
              }) (ids_iter (vx_edges v)) reaches
         else if r mod 4 = 0
         then fold_opt (\<lambda>creator reaches. do {
                m \<leftarrow> dag_meta d (DagAddress (r - 1) creator);
                Some (ids_merge (vm_reaches m) reaches)
              }) (ids_iter (vx_edges v)) reaches
         else Some reaches)"

definition dag_insert :: "('tx, 'sig) vertex \<Rightarrow> ('tx, 'sig) dag \<Rightarrow> ('tx, 'sig) dag option" where
  "dag_insert v d =
     do {
       known \<leftarrow> dag_knows d (vx_address v);
       rust_assert (\<not> known);
       rust_assert (round_to_index d (vx_round v) \<noteq> None);
       reaches \<leftarrow> insert_reaches d v;
       index \<leftarrow> round_to_index d (vx_round v);
       r \<leftarrow> index_vec (dag_rounds d) index;
       r \<leftarrow> dr_insert (vertex_with_meta_new v reaches) r;
       Some (d\<lparr>dag_rounds := (dag_rounds d)[index := r]\<rparr>)
     }"

section \<open>Delivery\<close>

definition push_undelivered ::
    "('tx, 'sig) dag \<Rightarrow> round \<Rightarrow> dag_address \<Rightarrow> replica_id \<Rightarrow> dag_address list \<Rightarrow> dag_address list option" where
  "push_undelivered d max_depth v_a edge stack =
     (let neighbor = DagAddress (addr_round v_a - 1) edge
      in if addr_round neighbor < max_depth then Some stack
         else do {
           m \<leftarrow> dag_meta d neighbor;
           if vm_delivered m then Some stack
           else do {
             known \<leftarrow> dag_knows d neighbor;
             Some (if \<not> known then stack else neighbor # stack)
           }
         })"

partial_function (option) deliver_loop ::
    "round \<Rightarrow> dag_address list \<Rightarrow> dag_address list \<Rightarrow> ('tx, 'sig) dag \<Rightarrow> (dag_address list \<times> ('tx, 'sig) dag) option" where
  "deliver_loop max_depth stack delivered d =
     (case stack of
        [] \<Rightarrow> Some (delivered, d)
      | v_a # stack \<Rightarrow>
          Option.bind (dag_meta d v_a) (\<lambda>m.
          if vm_delivered m then deliver_loop max_depth stack delivered d
          else
            Option.bind (dag_index d v_a) (\<lambda>v.
            Option.bind (fold_opt (push_undelivered d max_depth v_a) (ids_iter (vx_edges v)) stack) (\<lambda>stack.
            Option.bind (dag_get_mut v_a vm_deliver d) (\<lambda>d.
              deliver_loop max_depth stack (delivered @ [v_a]) d)))))"

definition deliver_from ::
    "dag_address \<Rightarrow> round \<Rightarrow> ('tx, 'sig) dag \<Rightarrow> (dag_address list \<times> ('tx, 'sig) dag) option" where
  "deliver_from address max_depth d =
     do {
       known \<leftarrow> dag_knows d address;
       rust_assert known;
       rust_assert (max_depth \<le> addr_round address);
       m \<leftarrow> dag_meta d address;
       if vm_delivered m then Some ([], d) else deliver_loop max_depth [address] [] d
     }"

section \<open>Paths\<close>

definition push_unexplored ::
    "('tx, 'sig) dag \<Rightarrow> dag_address \<Rightarrow> dag_address \<Rightarrow> replica_id \<Rightarrow> dag_address list \<Rightarrow> dag_address list option" where
  "push_unexplored d to v_a edge queue =
     (let neighbor = DagAddress (addr_round v_a - 1) edge
      in do {
        m \<leftarrow> dag_meta d neighbor;
        if vm_path_explored m then Some queue
        else do {
          known \<leftarrow> dag_knows d neighbor;
          Some (if \<not> known then queue
                else if edge = addr_creator to then neighbor # queue
                else queue @ [neighbor])
        }
      })"

partial_function (option) best_first_search_inplace ::
    "dag_address \<Rightarrow> dag_address list \<Rightarrow> ('tx, 'sig) dag \<Rightarrow> (bool \<times> ('tx, 'sig) dag) option" where
  "best_first_search_inplace to queue d =
     (case queue of
        [] \<Rightarrow> Some (False, d)
      | v_a # queue \<Rightarrow>
          if v_a = to then Some (True, d)
          else
            Option.bind (dag_meta d v_a) (\<lambda>m.
            if vm_path_explored m then best_first_search_inplace to queue d
            else
              Option.bind (dag_index d v_a) (\<lambda>v.
              Option.bind (fold_opt (push_unexplored d to v_a) (ids_iter (vx_edges v)) queue) (\<lambda>queue.
              Option.bind (dag_get_mut v_a vm_path_explore d) (\<lambda>d.
                best_first_search_inplace to queue d)))))"

definition push_unseen ::
    "('tx, 'sig) dag \<Rightarrow> dag_address \<Rightarrow> dag_address \<Rightarrow> replica_id \<Rightarrow>
     dag_address list \<times> dag_address hash_set \<Rightarrow> (dag_address list \<times> dag_address hash_set) option" where
  "push_unseen d to v_a edge st =
     (case st of (queue, seen) \<Rightarrow>
        let neighbor = DagAddress (addr_round v_a - 1) edge
        in if neighbor \<in> set seen then Some (queue, seen)
           else do {
             known \<leftarrow> dag_knows d neighbor;
             Some (if \<not> known then (queue, seen)
                   else (if edge = addr_creator to then neighbor # queue else queue @ [neighbor], hs_insert neighbor seen))
           })"

partial_function (option) best_first_search_expensive ::
    "('tx, 'sig) dag \<Rightarrow> dag_address \<Rightarrow> dag_address list \<Rightarrow> dag_address hash_set \<Rightarrow> bool option" where
  "best_first_search_expensive d to queue seen =
     (case queue of
        [] \<Rightarrow> Some False
      | v_a # queue \<Rightarrow>
          if v_a = to then Some True
          else
            Option.bind (dag_index d v_a) (\<lambda>v.
            Option.bind (fold_opt (push_unseen d to v_a) (ids_iter (vx_edges v)) (queue, seen)) (\<lambda>(queue, seen).
              best_first_search_expensive d to queue seen)))"

definition has_path ::
    "dag_address \<Rightarrow> dag_address \<Rightarrow> ('tx, 'sig) dag \<Rightarrow> (bool \<times> ('tx, 'sig) dag) option" where
  "has_path from to d =
     do {
       known \<leftarrow> dag_knows d from;
       rust_assert known;
       known \<leftarrow> dag_knows d to;
       rust_assert known;
       rust_assert (addr_round to < addr_round from);
       if dag_explored_from d < addr_round from
       then best_first_search_inplace to [from] (d\<lparr>dag_explored_from := addr_round from\<rparr>)
       else map_option (\<lambda>b. (b, d)) (best_first_search_expensive d to [from] [from])
     }"

section \<open>Pruning and reachable leaders\<close>

definition dag_prune ::
    "round \<Rightarrow> ('tx, 'sig) dag \<Rightarrow> ((round \<times> round \<times> ('tx, 'sig) vertex list) \<times> ('tx, 'sig) dag) option" where
  "dag_prune limit d =
     do {
       rust_assert (dag_offset d \<le> limit \<and> limit \<le> dag_max_round d);
       let k = unat (limit - dag_offset d);
       rust_assert (k \<le> length (dag_rounds d));
       Some ((dag_offset d, limit, concat (map dr_prune (take k (dag_rounds d)))),
             d\<lparr>dag_rounds := drop k (dag_rounds d), dag_offset := limit\<rparr>)
     }"

definition dag_reaches :: "('tx, 'sig) dag \<Rightarrow> dag_address \<Rightarrow> replica_id \<Rightarrow> bool option" where
  "dag_reaches d address replica = do { m \<leftarrow> dag_meta d address; Some (ids_contains (vm_reaches m) replica) }"

section \<open>Lemmas\<close>

subsection \<open>The shape of a DAG that has not been pruned\<close>

definition dag_shape :: "('tx, 'sig) dag \<Rightarrow> bool" where
  "dag_shape d \<longleftrightarrow> dag_offset d = 1 \<and> length (dag_rounds d) = unat (dag_max_round d) \<and> length (dag_rounds d) \<le> isize_max \<and>
     (\<forall>r \<in> set (dag_rounds d). length (dr_vertices r) = unat (dag_n d))"

lemma dr_get_eq: "dr_get r c = (if unat c < length (dr_vertices r) then dr_vertices r ! unat c else None)"
  by (auto simp: dr_get_def index_vec_def split: option.splits)

lemma unat_pos: "r \<noteq> 0 \<longleftrightarrow> 0 < unat r" for r :: u64
  by (simp add: unsigned_eq_0_iff flip: neq0_conv)

lemma round_index:
  assumes "dag_shape d"
  shows "round_to_index d r = (if r \<noteq> 0 \<and> r \<le> dag_max_round d then Some (unat r - 1) else None)"
    and "r \<noteq> 0 \<Longrightarrow> r \<le> dag_max_round d \<Longrightarrow> unat r - 1 < length (dag_rounds d)"
proof -
  have "r < 1 \<longleftrightarrow> r = 0" by (simp add: word_less_nat_alt unsigned_eq_0_iff)
  then show "round_to_index d r = (if r \<noteq> 0 \<and> r \<le> dag_max_round d then Some (unat r - 1) else None)"
    using assms by (auto simp: round_to_index_def dag_shape_def unat_minus_one)
  show "unat r - 1 < length (dag_rounds d)" if "r \<noteq> 0" "r \<le> dag_max_round d"
    using that assms unat_pos [of r] by (auto simp: dag_shape_def word_le_nat_alt)
qed

lemma dag_meta_eq:
  assumes "dag_shape d"
  shows "dag_meta d a = (if addr_creator a < dag_n d \<and> addr_round a \<noteq> 0 \<and> addr_round a \<le> dag_max_round d
    then dr_vertices (dag_rounds d ! (unat (addr_round a) - 1)) ! unat (addr_creator a) else None)"
proof (cases "addr_round a \<noteq> 0 \<and> addr_round a \<le> dag_max_round d")
  case True
  then have lt: "unat (addr_round a) - 1 < length (dag_rounds d)" using round_index(2) [OF assms] by blast
  then have "length (dr_vertices (dag_rounds d ! (unat (addr_round a) - 1))) = unat (dag_n d)"
    using assms by (auto simp: dag_shape_def)
  with True lt show ?thesis
    by (auto simp: dag_meta_def get_with_meta_def round_index(1) [OF assms] dr_get_eq index_vec_def rust_assert_def word_less_nat_alt)
next
  case False
  then show ?thesis by (auto simp: dag_meta_def get_with_meta_def round_index(1) [OF assms] rust_assert_def)
qed

lemma get_with_meta_eq:
  assumes "dag_shape d"
  shows "get_with_meta d a = (if addr_creator a < dag_n d then Some (dag_meta d a) else None)"
  using round_index [OF assms] by (auto simp: dag_meta_def get_with_meta_def rust_assert_def index_vec_def)

lemma dag_index_meta: "dag_index d a = map_option vm_vertex (dag_meta d a)"
  by (cases "get_with_meta d a") (auto simp: dag_index_def dag_get_def dag_meta_def)

lemma dag_meta_creator: "dag_meta d a = Some m \<Longrightarrow> addr_creator a < dag_n d"
  by (auto simp: dag_meta_def get_with_meta_def split: bind_splits)

lemma dag_meta_round: "dag_shape d \<Longrightarrow> dag_meta d a = Some m \<Longrightarrow> addr_round a \<noteq> 0 \<and> addr_round a \<le> dag_max_round d"
  by (auto simp: dag_meta_eq split: if_splits)

lemma dag_knows_meta:
  assumes "dag_shape d"
  shows "dag_knows d a = (if addr_creator a < dag_n d then Some (dag_meta d a \<noteq> None) else None)"
  by (simp add: dag_knows_def dag_get_def get_with_meta_eq [OF assms])

lemma dag_knows_known: "dag_shape d \<Longrightarrow> dag_meta d a = Some m \<Longrightarrow> dag_knows d a = Some True"
  by (simp add: dag_knows_meta dag_meta_creator)

lemma dag_meta_None: "\<not> addr_creator a < dag_n d \<Longrightarrow> dag_meta d a = None"
  by (metis dag_meta_creator not_Some_eq)

lemma dag_knows_True: "dag_shape d \<Longrightarrow> dag_knows d a = Some True \<longleftrightarrow> (\<exists>m. dag_meta d a = Some m)"
  by (simp add: dag_knows_meta dag_meta_None)

text \<open>Storing a vertex in the slot of an address.\<close>

definition dag_store ::
    "dag_address \<Rightarrow> ('tx, 'sig) vertex_with_meta \<Rightarrow> u64 \<Rightarrow> ('tx, 'sig) dag \<Rightarrow> ('tx, 'sig) dag" where
  "dag_store a m k d =
     (let i = unat (addr_round a) - 1; r = dag_rounds d ! i
      in d\<lparr>dag_rounds := (dag_rounds d)[i := r\<lparr>dr_vertices := (dr_vertices r)[unat (addr_creator a) := Some m],
           dr_valid_vertice_count := dr_valid_vertice_count r + k\<rparr>]\<rparr>)"

lemma dag_store_sel [simp]:
  "dag_n (dag_store a m k d) = dag_n d" "dag_offset (dag_store a m k d) = dag_offset d"
  "dag_max_round (dag_store a m k d) = dag_max_round d" "dag_explored_from (dag_store a m k d) = dag_explored_from d"
  by (simp_all add: dag_store_def Let_def)

lemma in_set_upd_cases:
  assumes "x \<in> set (xs[i := y])"
  obtains "x \<in> set xs" | "x = y" "i < length xs"
  using assms set_update_subset_insert [of xs i y] by (cases "i < length xs") (auto simp: list_update_beyond)

lemma dag_store_shape: "dag_shape d \<Longrightarrow> dag_shape (dag_store a m k d)"
  by (auto simp: dag_shape_def dag_store_def Let_def list_update_beyond elim!: in_set_upd_cases)

lemma dag_store_meta:
  assumes "dag_shape d" "addr_creator a < dag_n d" "addr_round a \<noteq> 0" "addr_round a \<le> dag_max_round d"
  shows "dag_meta (dag_store a m k d) = (dag_meta d)(a \<mapsto> m)"
proof
  fix b
  let ?i = "unat (addr_round a) - 1" and ?j = "unat (addr_round b) - 1"
  have i: "?i < length (dag_rounds d)" using round_index(2) [OF assms(1)] assms(3,4) by blast
  then have c: "unat (addr_creator a) < length (dr_vertices (dag_rounds d ! ?i))"
    using assms(1,2) by (auto simp: dag_shape_def word_less_nat_alt)
  note meta = dag_meta_eq [OF assms(1), of b] dag_meta_eq [OF dag_store_shape [OF assms(1)], of a m k b]
  have eq: "b = a" if "addr_round b \<noteq> 0" "?i = ?j" "unat (addr_creator b) = unat (addr_creator a)"
    using that assms(3) unat_pos [of "addr_round a"] unat_pos [of "addr_round b"]
    by (auto simp: dag_address.expand word_unat_eq_iff)
  show "dag_meta (dag_store a m k d) b = ((dag_meta d)(a \<mapsto> m)) b"
  proof (cases "b = a")
    case True
    then show ?thesis using assms i c meta by (simp add: dag_store_def Let_def)
  next
    case False
    then have "dr_vertices (dag_rounds (dag_store a m k d) ! ?j) ! unat (addr_creator b) = dr_vertices (dag_rounds d ! ?j) ! unat (addr_creator b)"
      if "addr_round b \<noteq> 0"
    proof (cases "?i = ?j")
      case True
      then have "unat (addr_creator a) \<noteq> unat (addr_creator b)" using eq that False by metis
      then show ?thesis using i True by (simp add: dag_store_def Let_def)
    next
      case False
      then show ?thesis by (simp add: dag_store_def Let_def)
    qed
    then show ?thesis using False meta by simp
  qed
qed

lemma dag_get_mut_store:
  assumes "dag_shape d" "dag_meta d a = Some m"
  shows "dag_get_mut a f d = Some (dag_store a (f m) 0 d)"
proof -
  note r = dag_meta_round [OF assms] and c = dag_meta_creator [OF assms(2)]
  have i: "unat (addr_round a) - 1 < length (dag_rounds d)" using round_index(2) [OF assms(1)] r by blast
  then have "length (dr_vertices (dag_rounds d ! (unat (addr_round a) - 1))) = unat (dag_n d)"
    using assms(1) by (auto simp: dag_shape_def)
  with r c i assms show ?thesis
    by (simp add: dag_get_mut_def round_index(1) index_vec_def dr_get_mut_def dag_store_def dag_meta_eq Let_def word_less_nat_alt)
qed

subsection \<open>Edges and paths\<close>

definition dag_edge :: "('tx, 'sig) dag \<Rightarrow> dag_address \<Rightarrow> dag_address \<Rightarrow> bool" where
  "dag_edge d a b \<longleftrightarrow> (\<exists>m. dag_meta d a = Some m \<and> addr_creator b |\<in>| vx_edges (vm_vertex m) \<and> addr_round b = addr_round a - 1)"

abbreviation dag_path :: "('tx, 'sig) dag \<Rightarrow> dag_address \<Rightarrow> dag_address \<Rightarrow> bool" where
  "dag_path d \<equiv> (dag_edge d)\<^sup>*\<^sup>*"

text \<open>
  A vertex is stored under its own address; a vertex of the first round has no edges, and those that
  the edges of another vertex lead to are there.
\<close>

definition vertex_ok :: "('tx, 'sig) dag \<Rightarrow> dag_address \<Rightarrow> ('tx, 'sig) vertex \<Rightarrow> bool" where
  "vertex_ok d a v \<longleftrightarrow> vx_address v = a \<and> (addr_round a = 1 \<longrightarrow> vx_edges v = {||}) \<and>
     (\<forall>c. c |\<in>| vx_edges v \<longrightarrow> dag_meta d (DagAddress (addr_round a - 1) c) \<noteq> None)"

definition dag_ok :: "('tx, 'sig) dag \<Rightarrow> bool" where
  "dag_ok d \<longleftrightarrow> dag_shape d \<and> (\<forall>a m. dag_meta d a = Some m \<longrightarrow> vertex_ok d a (vm_vertex m))"

text \<open>The counter of a round is the number of its vertices.\<close>

definition counts_ok :: "('tx, 'sig) dag \<Rightarrow> bool" where
  "counts_ok d \<longleftrightarrow> (\<forall>r \<in> set (dag_rounds d). dr_valid_vertice_count r = of_nat (length (dr_all_valid_addresses r)))"

definition same_vertices :: "('tx, 'sig) dag \<Rightarrow> ('tx, 'sig) dag \<Rightarrow> bool" where
  "same_vertices d e \<longleftrightarrow> dag_shape d = dag_shape e \<and> dag_n d = dag_n e \<and> dag_max_round d = dag_max_round e \<and>
     counts_ok d = counts_ok e \<and> (\<forall>a. map_option vm_vertex (dag_meta d a) = map_option vm_vertex (dag_meta e a))"

lemma same_vertices_refl: "same_vertices d d"
  by (simp add: same_vertices_def)

lemma same_vertices_trans: "same_vertices d e \<Longrightarrow> same_vertices e f \<Longrightarrow> same_vertices d f"
  by (simp add: same_vertices_def)

lemma same_vertices_edge:
  assumes "same_vertices d e"
  shows "dag_edge d = dag_edge e"
proof (intro ext)
  fix a b
  have "map_option vm_vertex (dag_meta d a) = map_option vm_vertex (dag_meta e a)" using assms by (simp add: same_vertices_def)
  then show "dag_edge d a b = dag_edge e a b"
    by (cases "dag_meta d a"; cases "dag_meta e a") (simp_all add: dag_edge_def)
qed

lemma same_vertices_ok:
  assumes "same_vertices d e" "dag_ok d"
  shows "dag_ok e"
proof -
  have map: "map_option vm_vertex (dag_meta d a) = map_option vm_vertex (dag_meta e a)" for a
    using assms(1) by (simp add: same_vertices_def)
  have none: "dag_meta d a = None \<longleftrightarrow> dag_meta e a = None" for a using map [of a] by (metis None_eq_map_option_iff)
  have "vertex_ok e a (vm_vertex m)" if m: "dag_meta e a = Some m" for a m
  proof -
    obtain m' where m': "dag_meta d a = Some m'" "vm_vertex m' = vm_vertex m" using map [of a] m by auto
    then have "vertex_ok d a (vm_vertex m)" using assms(2) unfolding dag_ok_def by fastforce
    then show ?thesis by (simp add: vertex_ok_def none)
  qed
  then show ?thesis using assms by (auto simp: dag_ok_def same_vertices_def)
qed

lemma map_filter_upd_same:
  assumes "map_option g (f (xs ! i)) = map_option g (f y)"
  shows "length (List.map_filter f (xs[i := y])) = length (List.map_filter f xs)"
  using assms
proof (induction xs arbitrary: i)
  case (Cons x xs)
  then show ?case by (cases i) (auto simp: map_filter_simps split: option.splits)
qed simp

lemma store_counts:
  assumes "dag_shape d" "dag_meta d a = Some m"
  shows "counts_ok (dag_store a m' 0 d) = counts_ok d"
proof -
  let ?i = "unat (addr_round a) - 1"
  let ?r = "dag_rounds d ! ?i"
  let ?r' = "?r\<lparr>dr_vertices := (dr_vertices ?r)[unat (addr_creator a) := Some m']\<rparr>"
  note r = dag_meta_round [OF assms]
  have i: "?i < length (dag_rounds d)" using round_index(2) [OF assms(1)] r by blast
  have "dr_vertices ?r ! unat (addr_creator a) = Some m" using assms r dag_meta_creator [OF assms(2)] by (simp add: dag_meta_eq)
  then have len: "length (dr_all_valid_addresses ?r') = length (dr_all_valid_addresses ?r)"
    using map_filter_upd_same [of "\<lambda>_. ()" "map_option (\<lambda>m. vx_address (vm_vertex m))" "dr_vertices ?r" "unat (addr_creator a)" "Some m'"]
    by (simp add: dr_all_valid_addresses_def)
  have eq: "dag_rounds (dag_store a m' 0 d) = (dag_rounds d)[?i := ?r']" by (simp add: dag_store_def Let_def)
  have "dr_valid_vertice_count ?r' = of_nat (length (dr_all_valid_addresses ?r')) \<longleftrightarrow>
    dr_valid_vertice_count ?r = of_nat (length (dr_all_valid_addresses ?r))" using len by simp
  then show ?thesis unfolding counts_ok_def eq all_set_conv_all_nth length_list_update
    using i by (metis nth_list_update)
qed

lemma dag_get_mut_same:
  assumes "dag_shape d" "dag_meta d a = Some m" "vm_vertex (f m) = vm_vertex m"
  shows "\<exists>d'. dag_get_mut a f d = Some d' \<and> same_vertices d d' \<and> dag_meta d' = (dag_meta d)(a \<mapsto> f m) \<and>
    dag_explored_from d' = dag_explored_from d"
proof -
  have meta: "dag_meta (dag_store a (f m) 0 d) = (dag_meta d)(a \<mapsto> f m)"
    using dag_store_meta [OF assms(1)] dag_meta_round [OF assms(1,2)] dag_meta_creator [OF assms(2)] by blast
  have "same_vertices d (dag_store a (f m) 0 d)"
    using assms dag_store_shape [OF assms(1)] by (simp add: same_vertices_def meta store_counts)
  then show ?thesis using dag_get_mut_store [OF assms(1,2)] meta by simp
qed

lemma dag_edge_known: "dag_ok d \<Longrightarrow> dag_edge d a b \<Longrightarrow> dag_meta d b \<noteq> None"
  by (cases b) (auto simp: dag_edge_def dag_ok_def vertex_ok_def)

lemma dag_edge_round:
  assumes "dag_ok d" "dag_edge d a b"
  shows "unat (addr_round a) = Suc (unat (addr_round b))"
proof -
  obtain m where m: "dag_meta d a = Some m" "addr_creator b |\<in>| vx_edges (vm_vertex m)" "addr_round b = addr_round a - 1"
    using assms(2) by (auto simp: dag_edge_def)
  have "addr_round a \<noteq> 0" using dag_meta_round [OF _ m(1)] assms(1) by (simp add: dag_ok_def)
  then show ?thesis using m(3) unat_minus_one [of "addr_round a"] unat_pos [of "addr_round a"] by simp
qed

lemma dag_path_known: "dag_path d a b \<Longrightarrow> dag_ok d \<Longrightarrow> dag_meta d a \<noteq> None \<Longrightarrow> dag_meta d b \<noteq> None"
  by (induction rule: rtranclp_induct) (auto dest: dag_edge_known)

lemma dag_path_round: "dag_path d a b \<Longrightarrow> dag_ok d \<Longrightarrow> addr_round b \<le> addr_round a"
proof (induction rule: rtranclp_induct)
  case (step b c)
  then show ?case using dag_edge_round [of d b c] by (simp add: word_le_nat_alt)
qed simp

lemma dag_known_finite: "finite {a. dag_meta d a \<noteq> None}"
proof (rule finite_subset)
  show "{a. dag_meta d a \<noteq> None} \<subseteq> (\<lambda>(r, c). DagAddress r c) ` (UNIV :: (u64 \<times> u64) set)"
    by (auto simp: image_iff) (metis dag_address.exhaust)
qed (simp add: finite_imageI)

lemma vertex_edges_iff:
  assumes "dag_meta d a = Some m"
  shows "dag_edge d a b \<longleftrightarrow> b \<in> DagAddress (addr_round a - 1) ` fset (vx_edges (vm_vertex m))"
  using assms by (cases b) (auto simp: dag_edge_def)

subsection \<open>Delivery\<close>

definition delivered_set :: "('tx, 'sig) dag \<Rightarrow> dag_address set" where
  "delivered_set d = {a. \<exists>m. dag_meta d a = Some m \<and> vm_delivered m}"

definition undelivered_set :: "('tx, 'sig) dag \<Rightarrow> dag_address set" where
  "undelivered_set d = {a. \<exists>m. dag_meta d a = Some m \<and> \<not> vm_delivered m}"

definition depth_edge :: "('tx, 'sig) dag \<Rightarrow> round \<Rightarrow> dag_address \<Rightarrow> dag_address \<Rightarrow> bool" where
  "depth_edge d max_depth a b \<longleftrightarrow> dag_edge d a b \<and> max_depth \<le> addr_round b"

definition closed_by :: "('a \<Rightarrow> 'a \<Rightarrow> bool) \<Rightarrow> 'a set \<Rightarrow> bool" where
  "closed_by E A \<longleftrightarrow> (\<forall>a \<in> A. \<forall>b. E a b \<longrightarrow> b \<in> A)"

lemma closed_by_path: "E\<^sup>*\<^sup>* a b \<Longrightarrow> closed_by E A \<Longrightarrow> a \<in> A \<Longrightarrow> b \<in> A"
  by (induction rule: rtranclp_induct) (auto simp: closed_by_def)

lemma closed_by_reach: "closed_by E A \<Longrightarrow> a \<in> A \<Longrightarrow> {b. E\<^sup>*\<^sup>* a b} \<subseteq> A"
  using closed_by_path [of E a _ A] by auto

lemma undelivered_finite: "finite (undelivered_set d)"
  by (rule finite_subset [OF _ dag_known_finite [of d]]) (auto simp: undelivered_set_def)

lemma deliver_sets:
  assumes "dag_meta d a = Some m" "dag_meta d' = (dag_meta d)(a \<mapsto> vm_deliver m)"
  shows "delivered_set d' = insert a (delivered_set d)" "undelivered_set d' = undelivered_set d - {a}"
  using assms by (auto simp: delivered_set_def undelivered_set_def vm_deliver_def)

definition new_neighbors :: "('tx, 'sig) dag \<Rightarrow> round \<Rightarrow> dag_address \<Rightarrow> replica_id list \<Rightarrow> dag_address list" where
  "new_neighbors d max_depth a es =
     rev (filter (\<lambda>b. max_depth \<le> addr_round b \<and> b \<notin> delivered_set d) (map (DagAddress (addr_round a - 1)) es))"

lemma push_undelivered_fold:
  assumes "dag_shape d" "\<forall>c \<in> set es. dag_meta d (DagAddress (addr_round a - 1) c) \<noteq> None"
  shows "fold_opt (push_undelivered d max_depth a) es stack = Some (new_neighbors d max_depth a es @ stack)"
  using assms(2)
proof (induction es arbitrary: stack)
  case (Cons c es)
  obtain m where m: "dag_meta d (DagAddress (addr_round a - 1) c) = Some m" using Cons.prems by auto
  then show ?case using Cons dag_knows_known [OF assms(1) m]
    by (auto simp: push_undelivered_def new_neighbors_def delivered_set_def Let_def not_le)
qed (simp add: new_neighbors_def)

lemma push_undelivered_edges:
  assumes "dag_ok d" "dag_meta d a = Some m"
  shows "fold_opt (push_undelivered d max_depth a) (ids_iter (vx_edges (vm_vertex m))) stack =
      Some (new_neighbors d max_depth a (ids_iter (vx_edges (vm_vertex m))) @ stack)"
    and "set (new_neighbors d max_depth a (ids_iter (vx_edges (vm_vertex m)))) = {b. depth_edge d max_depth a b} - delivered_set d"
  using assms push_undelivered_fold [of d "ids_iter (vx_edges (vm_vertex m))"]
  by (auto simp: dag_ok_def vertex_ok_def new_neighbors_def depth_edge_def vertex_edges_iff [OF assms(2)])

text \<open>
  The delivery loop returns; it delivers every vertex at most once, only vertices below the stack, and
  ends with a set of delivered vertices that is closed under the edges, if the edges of the vertices
  delivered before lead to delivered vertices or to the stack.
\<close>

definition delivery_result ::
    "round \<Rightarrow> dag_address list \<Rightarrow> ('tx, 'sig) dag \<Rightarrow> dag_address list \<Rightarrow> ('tx, 'sig) dag \<Rightarrow> bool" where
  "delivery_result max_depth stack d ds d' \<longleftrightarrow>
     same_vertices d d' \<and> dag_explored_from d' = dag_explored_from d \<and> distinct ds \<and> set ds \<inter> delivered_set d = {} \<and>
     delivered_set d' = delivered_set d \<union> set ds \<and> set stack \<subseteq> delivered_set d' \<and>
     closed_by (depth_edge d max_depth) (delivered_set d') \<and>
     set ds \<subseteq> {b. \<exists>a \<in> set stack. (depth_edge d max_depth)\<^sup>*\<^sup>* a b} \<and>
     (\<forall>a. map_option vm_path_explored (dag_meta d' a) = map_option vm_path_explored (dag_meta d a)) \<and>
     (\<forall>a. map_option vm_reaches (dag_meta d' a) = map_option vm_reaches (dag_meta d a))"

lemma depth_edge_same: "same_vertices d d' \<Longrightarrow> depth_edge d' = depth_edge d"
  by (simp add: depth_edge_def fun_eq_iff same_vertices_edge)

lemma delivery_step:
  assumes d: "dag_ok d" and a: "dag_meta d a = Some m" "\<not> vm_delivered m"
    and d1: "same_vertices d d1" "dag_meta d1 = (dag_meta d)(a \<mapsto> vm_deliver m)" "dag_explored_from d1 = dag_explored_from d"
    and new: "set new = {b. depth_edge d max_depth a b} - delivered_set d"
    and rest: "delivery_result max_depth (new @ stack) d1 ds d'"
  shows "delivery_result max_depth (a # stack) d (a # ds) d'"
proof -
  note r = rest [unfolded delivery_result_def] and sets = deliver_sets [OF a(1) d1(2)] and E = depth_edge_same [OF d1(1)]
  have "a \<notin> delivered_set d" using a by (simp add: delivered_set_def)
  have below: "set ds \<subseteq> {b. \<exists>x \<in> set (a # stack). (depth_edge d max_depth)\<^sup>*\<^sup>* x b}"
  proof
    have "set ds \<subseteq> {b. \<exists>x \<in> set new \<union> set stack. (depth_edge d max_depth)\<^sup>*\<^sup>* x b}" using r E by simp
    moreover fix b assume "b \<in> set ds"
    ultimately obtain x where x: "x \<in> set new \<union> set stack" "(depth_edge d max_depth)\<^sup>*\<^sup>* x b" by blast
    then show "b \<in> {b. \<exists>x \<in> set (a # stack). (depth_edge d max_depth)\<^sup>*\<^sup>* x b}"
      using new by (auto intro: converse_rtranclp_into_rtranclp)
  qed
  have flags: "map_option vm_path_explored (dag_meta d1 b) = map_option vm_path_explored (dag_meta d b)"
    "map_option vm_reaches (dag_meta d1 b) = map_option vm_reaches (dag_meta d b)" for b
    using a(1) by (simp_all add: d1(2) vm_deliver_def)
  show ?thesis unfolding delivery_result_def
    using r sets E \<open>a \<notin> delivered_set d\<close> below same_vertices_trans [OF d1(1)] d1(3) flags by auto
qed

lemma deliver_loop_spec:
  assumes "dag_ok d" "\<forall>a \<in> set stack. dag_meta d a \<noteq> None"
    and "\<forall>a \<in> delivered_set d. \<forall>b. depth_edge d max_depth a b \<longrightarrow> b \<in> delivered_set d \<or> b \<in> set stack"
  shows "\<exists>ds d'. deliver_loop max_depth stack acc d = Some (acc @ ds, d') \<and> delivery_result max_depth stack d ds d'"
  using assms
proof (induction "(card (undelivered_set d), length stack)" arbitrary: d stack acc rule: wf_induct_rule [OF wf_lex_prod [OF wf_less_than wf_less_than]])
  case (1 d stack acc)
  show ?case
  proof (cases stack)
    case Nil
    with 1(4) show ?thesis
      by (auto simp: deliver_loop.simps delivery_result_def same_vertices_refl closed_by_def intro!: exI [of _ "[]"] exI [of _ d])
  next
    case (Cons a st)
    obtain m where m: "dag_meta d a = Some m" using 1(3) Cons by auto
    show ?thesis
    proof (cases "vm_delivered m")
      case True
      then have a: "a \<in> delivered_set d" using m by (auto simp: delivered_set_def)
      then obtain ds d' where run: "deliver_loop max_depth st acc d = Some (acc @ ds, d')" "delivery_result max_depth st d ds d'"
        using 1(1) [of d st acc] 1(2-4) Cons by (fastforce simp: lex_prod_def)
      have "delivery_result max_depth (a # st) d ds d'" using run(2) a by (auto simp: delivery_result_def)
      with run(1) show ?thesis using True by (auto simp: deliver_loop.simps [of _ "a # st"] m Cons)
    next
      case False
      let ?new = "new_neighbors d max_depth a (ids_iter (vx_edges (vm_vertex m)))"
      note push = push_undelivered_edges [OF 1(2) m]
      obtain d1 where d1: "dag_get_mut a vm_deliver d = Some d1" "same_vertices d d1"
        "dag_meta d1 = (dag_meta d)(a \<mapsto> vm_deliver m)" "dag_explored_from d1 = dag_explored_from d"
        using dag_get_mut_same [of d a m vm_deliver] m 1(2) by (auto simp: dag_ok_def vm_deliver_def)
      have "a \<in> undelivered_set d" using m False by (simp add: undelivered_set_def)
      then have "card (undelivered_set d1) < card (undelivered_set d)"
        unfolding deliver_sets [OF m d1(3)] by (intro psubset_card_mono undelivered_finite) blast
      moreover have "\<forall>b \<in> set (?new @ st). dag_meta d1 b \<noteq> None"
        using 1(3) Cons dag_edge_known [OF 1(2)] by (auto simp: push(2) depth_edge_def d1(3))
      moreover have "\<forall>x \<in> delivered_set d1. \<forall>b. depth_edge d1 max_depth x b \<longrightarrow> b \<in> delivered_set d1 \<or> b \<in> set (?new @ st)"
        unfolding deliver_sets [OF m d1(3)] depth_edge_same [OF d1(2)] set_append push(2) using 1(4) Cons by auto
      ultimately obtain ds d' where run: "deliver_loop max_depth (?new @ st) (acc @ [a]) d1 = Some ((acc @ [a]) @ ds, d')"
        "delivery_result max_depth (?new @ st) d1 ds d'"
        using 1(1) [of d1 "?new @ st" "acc @ [a]"] same_vertices_ok [OF d1(2) 1(2)] by (auto simp: lex_prod_def)
      have "deliver_loop max_depth (a # st) acc d = Some (acc @ (a # ds), d')"
        using run(1) False by (simp add: deliver_loop.simps [of _ "a # st"] m dag_index_meta push(1) d1(1))
      with delivery_step [OF 1(2) m False d1(2-4) push(2) run(2)] show ?thesis unfolding Cons by blast
    qed
  qed
qed

lemma deliver_from_spec:
  assumes "dag_ok d" "dag_meta d a \<noteq> None" "max_depth \<le> addr_round a"
    and closed: "closed_by (depth_edge d max_depth) (delivered_set d)"
  shows "\<exists>ds d'. deliver_from a max_depth d = Some (ds, d') \<and> delivery_result max_depth [a] d ds d' \<and>
    set ds = {b. (depth_edge d max_depth)\<^sup>*\<^sup>* a b} - delivered_set d"
proof -
  obtain m where m: "dag_meta d a = Some m" using assms(2) by auto
  have shape: "dag_shape d" using assms(1) by (simp add: dag_ok_def)
  show ?thesis
  proof (cases "vm_delivered m")
    case True
    then have a: "a \<in> delivered_set d" using m by (simp add: delivered_set_def)
    then have "{b. (depth_edge d max_depth)\<^sup>*\<^sup>* a b} \<subseteq> delivered_set d" by (rule closed_by_reach [OF closed])
    moreover have "deliver_from a max_depth d = Some ([], d)"
      using True m assms(3) dag_knows_known [OF shape m] by (simp add: deliver_from_def rust_assert_def)
    moreover have "delivery_result max_depth [a] d [] d"
      using a closed same_vertices_refl [of d] by (simp add: delivery_result_def)
    ultimately show ?thesis by (intro exI [of _ "[]"] exI [of _ d]) simp
  next
    case False
    have "\<forall>b \<in> set [a]. dag_meta d b \<noteq> None" using assms(2) by simp
    moreover have "\<forall>x \<in> delivered_set d. \<forall>b. depth_edge d max_depth x b \<longrightarrow> b \<in> delivered_set d \<or> b \<in> set [a]"
      using closed unfolding closed_by_def by blast
    ultimately obtain ds d' where run: "deliver_loop max_depth [a] [] d = Some ([] @ ds, d')" "delivery_result max_depth [a] d ds d'"
      using deliver_loop_spec [OF assms(1)] by blast
    have "deliver_from a max_depth d = Some (ds, d')"
      using run(1) False m assms(3) dag_knows_known [OF shape m] by (simp add: deliver_from_def rust_assert_def)
    moreover have res: "set ds \<inter> delivered_set d = {}" "delivered_set d' = delivered_set d \<union> set ds" "a \<in> delivered_set d'"
      "closed_by (depth_edge d max_depth) (delivered_set d')" "set ds \<subseteq> {b. (depth_edge d max_depth)\<^sup>*\<^sup>* a b}"
      using run(2) unfolding delivery_result_def by auto
    moreover have "{b. (depth_edge d max_depth)\<^sup>*\<^sup>* a b} \<subseteq> delivered_set d'" by (rule closed_by_reach [OF res(4,3)])
    ultimately show ?thesis using run(2) by (intro exI [of _ ds] exI [of _ d']) blast
  qed
qed

text \<open>
  Claim C37. On a DAG in which every edge leads to a stored vertex, delivering from a known vertex returns,
  without panic, and delivers exactly the vertices reachable from it (down to the given depth) that have
  not been delivered before, each once; afterwards the delivered vertices are closed under the edges.
\<close>

theorem deliver_from_correct:
  assumes "dag_ok d" "dag_meta d a \<noteq> None" "max_depth \<le> addr_round a"
    and "closed_by (depth_edge d max_depth) (delivered_set d)"
  shows "\<exists>ds d'. deliver_from a max_depth d = Some (ds, d') \<and> distinct ds \<and>
    set ds = {b. (depth_edge d max_depth)\<^sup>*\<^sup>* a b} - delivered_set d \<and> delivered_set d' = delivered_set d \<union> set ds \<and>
    closed_by (depth_edge d max_depth) (delivered_set d') \<and> same_vertices d d'"
  using deliver_from_spec [OF assms] unfolding delivery_result_def by blast

end
