(* ===== verification/Nxbft_Dag_Paths.thy ===== *)
theory Nxbft_Dag_Paths
  imports Nxbft_Dag
begin

text \<open>
  What the DAG of \<^verbatim>\<open>consensus_dag/mod.rs\<close> computes: the path searches, insertion with the reachable leaders
  of a wave, the vertices of a round and their number, that delivery depends on the vertices below only,
  and pruning.
\<close>

subsection \<open>Paths\<close>

definition explored_set :: "('tx, 'sig) dag \<Rightarrow> dag_address set" where
  "explored_set d = {a. \<exists>m. dag_meta d a = Some m \<and> vm_path_explored m}"

definition unexplored_set :: "('tx, 'sig) dag \<Rightarrow> dag_address set" where
  "unexplored_set d = {a. \<exists>m. dag_meta d a = Some m \<and> \<not> vm_path_explored m}"

lemma unexplored_finite: "finite (unexplored_set d)"
  by (rule finite_subset [OF _ dag_known_finite [of d]]) (auto simp: unexplored_set_def)

lemma explore_sets:
  assumes "dag_meta d a = Some m" "dag_meta d' = (dag_meta d)(a \<mapsto> vm_path_explore m)"
  shows "explored_set d' = insert a (explored_set d)" "unexplored_set d' = unexplored_set d - {a}"
  using assms by (auto simp: explored_set_def unexplored_set_def vm_path_explore_def)

lemma push_unexplored_fold:
  assumes "dag_shape d" "\<forall>c \<in> set es. dag_meta d (DagAddress (addr_round a - 1) c) \<noteq> None"
  shows "\<exists>queue'. fold_opt (push_unexplored d to a) es queue = Some queue' \<and>
    set queue' = set queue \<union> (DagAddress (addr_round a - 1) ` set es - explored_set d)"
  using assms(2)
proof (induction es arbitrary: queue)
  case (Cons c es)
  obtain m where m: "dag_meta d (DagAddress (addr_round a - 1) c) = Some m" using Cons.prems by auto
  have "\<exists>q. push_unexplored d to a c queue = Some q \<and> set q = set queue \<union> ({DagAddress (addr_round a - 1) c} - explored_set d)"
    using dag_knows_known [OF assms(1) m] m by (cases "vm_path_explored m") (auto simp: push_unexplored_def explored_set_def Let_def)
  then obtain q where q: "push_unexplored d to a c queue = Some q"
    "set q = set queue \<union> ({DagAddress (addr_round a - 1) c} - explored_set d)" by blast
  obtain q' where "fold_opt (push_unexplored d to a) es q = Some q'"
    "set q' = set q \<union> (DagAddress (addr_round a - 1) ` set es - explored_set d)"
    using Cons.IH [of q] Cons.prems by auto
  with q show ?case by auto
qed simp

lemma push_unexplored_edges:
  assumes "dag_ok d" "dag_meta d a = Some m"
  shows "\<exists>queue'. fold_opt (push_unexplored d to a) (ids_iter (vx_edges (vm_vertex m))) queue = Some queue' \<and>
    set queue' = set queue \<union> ({b. dag_edge d a b} - explored_set d)"
proof -
  have "{b. dag_edge d a b} = DagAddress (addr_round a - 1) ` set (ids_iter (vx_edges (vm_vertex m)))"
    using vertex_edges_iff [OF assms(2)] by auto
  then show ?thesis using assms push_unexplored_fold [of d "ids_iter (vx_edges (vm_vertex m))"]
    by (auto simp: dag_ok_def vertex_ok_def)
qed

definition search_result ::
    "dag_address set \<Rightarrow> dag_address \<Rightarrow> dag_address list \<Rightarrow> ('tx, 'sig) dag \<Rightarrow> bool \<Rightarrow> ('tx, 'sig) dag \<Rightarrow> bool" where
  "search_result X to queue d found d' \<longleftrightarrow>
     same_vertices d d' \<and> dag_explored_from d' = dag_explored_from d \<and>
     explored_set d \<subseteq> explored_set d' \<and> explored_set d' \<subseteq> explored_set d \<union> {b. \<exists>a \<in> set queue. dag_path d a b} \<and>
     (found \<longrightarrow> (\<exists>a \<in> set queue. dag_path d a to)) \<and>
     (\<not> found \<longrightarrow> set queue \<subseteq> explored_set d' \<and> to \<notin> explored_set d' - X \<and>
        (\<forall>a \<in> explored_set d' - X. \<forall>b. dag_edge d a b \<longrightarrow> b \<in> explored_set d')) \<and>
     (\<forall>a. map_option vm_delivered (dag_meta d' a) = map_option vm_delivered (dag_meta d a)) \<and>
     (\<forall>a. map_option vm_reaches (dag_meta d' a) = map_option vm_reaches (dag_meta d a))"

lemma search_step:
  assumes a: "dag_meta d a = Some m" "a \<noteq> to"
    and d1: "same_vertices d d1" "dag_meta d1 = (dag_meta d)(a \<mapsto> vm_path_explore m)" "dag_explored_from d1 = dag_explored_from d"
    and new: "set queue' = set queue \<union> ({b. dag_edge d a b} - explored_set d)"
    and rest: "search_result X to queue' d1 found d'"
  shows "search_result X to (a # queue) d found d'"
proof -
  note sets = explore_sets [OF a(1) d1(2)] and E = same_vertices_edge [OF d1(1), symmetric]
  note r = rest [unfolded search_result_def sets E]
  have below: "\<exists>x \<in> set (a # queue). dag_path d x b" if "x \<in> set queue'" "dag_path d x b" for x b
    using that new by (auto intro: converse_rtranclp_into_rtranclp)
  have flags: "map_option vm_delivered (dag_meta d1 b) = map_option vm_delivered (dag_meta d b)"
    "map_option vm_reaches (dag_meta d1 b) = map_option vm_reaches (dag_meta d b)" for b
    using a(1) by (simp_all add: d1(2) vm_path_explore_def)
  have "explored_set d' \<subseteq> explored_set d \<union> {b. \<exists>x \<in> set (a # queue). dag_path d x b}"
  proof
    fix b assume "b \<in> explored_set d'"
    then consider "b = a" | "b \<in> explored_set d" | x where "x \<in> set queue'" "dag_path d x b"
      using r by blast
    then show "b \<in> explored_set d \<union> {b. \<exists>x \<in> set (a # queue). dag_path d x b}"
      using below by cases auto
  qed
  moreover have "\<exists>x \<in> set (a # queue). dag_path d x to" if found
    using that r below by blast
  moreover have "set (a # queue) \<subseteq> explored_set d' \<and> to \<notin> explored_set d' - X \<and>
    (\<forall>x \<in> explored_set d' - X. \<forall>b. dag_edge d x b \<longrightarrow> b \<in> explored_set d')" if "\<not> found"
    using that r new by auto
  moreover have "same_vertices d d'" "explored_set d \<subseteq> explored_set d'" using r same_vertices_trans [OF d1(1)] by blast+
  ultimately show ?thesis unfolding search_result_def using r d1(3) flags by simp
qed

lemma inplace_spec:
  assumes "dag_ok d" "\<forall>a \<in> set queue. dag_meta d a \<noteq> None" "to \<notin> explored_set d - X"
    and "\<forall>a \<in> explored_set d - X. \<forall>b. dag_edge d a b \<longrightarrow> b \<in> explored_set d \<or> b \<in> set queue"
  shows "\<exists>found d'. best_first_search_inplace to queue d = Some (found, d') \<and> search_result X to queue d found d'"
  using assms
proof (induction "(card (unexplored_set d), length queue)" arbitrary: d queue rule: wf_induct_rule [OF wf_lex_prod [OF wf_less_than wf_less_than]])
  case (1 d queue)
  show ?case
  proof (cases queue)
    case Nil
    with 1(4,5) show ?thesis
      by (auto simp: best_first_search_inplace.simps search_result_def same_vertices_refl intro!: exI [of _ False] exI [of _ d])
  next
    case (Cons a q)
    obtain m where m: "dag_meta d a = Some m" using 1(3) Cons by auto
    consider "a = to" | "a \<noteq> to" "vm_path_explored m" | "a \<noteq> to" "\<not> vm_path_explored m" by blast
    then show ?thesis
    proof cases
      case 1
      then show ?thesis
        by (auto simp: best_first_search_inplace.simps search_result_def same_vertices_refl Cons intro!: exI [of _ True] exI [of _ d])
    next
      case 2
      then have a: "a \<in> explored_set d" using m by (auto simp: explored_set_def)
      have "\<forall>x \<in> explored_set d - X. \<forall>b. dag_edge d x b \<longrightarrow> b \<in> explored_set d \<or> b \<in> set q" using 1(5) Cons a by auto
      moreover have "((card (unexplored_set d), length q), card (unexplored_set d), length queue) \<in> less_than <*lex*> less_than"
        by (simp add: Cons)
      ultimately obtain found d' where run: "best_first_search_inplace to q d = Some (found, d')" "search_result X to q d found d'"
        using 1(1) [of d q] 1(2-4) Cons by auto
      have "explored_set d \<subseteq> explored_set d'" using run(2) by (simp add: search_result_def)
      then have "search_result X to (a # q) d found d'"
        using run(2) a by (simp add: search_result_def) blast
      with run(1) show ?thesis using 2 by (auto simp: best_first_search_inplace.simps [of _ "a # q"] m Cons)
    next
      case 3
      obtain q' where q': "fold_opt (push_unexplored d to a) (ids_iter (vx_edges (vm_vertex m))) q = Some q'"
        "set q' = set q \<union> ({b. dag_edge d a b} - explored_set d)" using push_unexplored_edges [OF 1(2) m] by blast
      obtain d1 where d1: "dag_get_mut a vm_path_explore d = Some d1" "same_vertices d d1"
        "dag_meta d1 = (dag_meta d)(a \<mapsto> vm_path_explore m)" "dag_explored_from d1 = dag_explored_from d"
        using dag_get_mut_same [of d a m vm_path_explore] m 1(2) by (auto simp: dag_ok_def vm_path_explore_def)
      note sets = explore_sets [OF m d1(3)]
      have "a \<in> unexplored_set d" using m 3 by (simp add: unexplored_set_def)
      then have "card (unexplored_set d1) < card (unexplored_set d)"
        unfolding sets by (intro psubset_card_mono unexplored_finite) blast
      then have "((card (unexplored_set d1), length q'), card (unexplored_set d), length queue) \<in> less_than <*lex*> less_than" by simp
      moreover have "\<forall>b \<in> set q'. dag_meta d1 b \<noteq> None"
        using 1(3) Cons dag_edge_known [OF 1(2)] by (auto simp: q'(2) d1(3))
      moreover have "to \<notin> explored_set d1 - X" using 1(4) 3 unfolding sets by auto
      moreover have "\<forall>x \<in> explored_set d1 - X. \<forall>b. dag_edge d1 x b \<longrightarrow> b \<in> explored_set d1 \<or> b \<in> set q'"
        unfolding sets same_vertices_edge [OF d1(2), symmetric] q'(2) using 1(5) unfolding Cons by (simp, blast)
      ultimately obtain found d' where run: "best_first_search_inplace to q' d1 = Some (found, d')" "search_result X to q' d1 found d'"
        using 1(1) [of d1 q'] same_vertices_ok [OF d1(2) 1(2)] by blast
      have "best_first_search_inplace to (a # q) d = Some (found, d')"
        using run(1) 3 by (simp add: best_first_search_inplace.simps [of _ "a # q"] m dag_index_meta q'(1) d1(1))
      with search_step [OF m 3(1) d1(2-4) q'(2) run(2)] show ?thesis unfolding Cons by blast
    qed
  qed
qed

lemma push_unseen_fold:
  assumes "dag_shape d" "\<forall>c \<in> set es. dag_meta d (DagAddress (addr_round a - 1) c) \<noteq> None"
  shows "\<exists>queue' seen'. fold_opt (push_unseen d to a) es (queue, seen) = Some (queue', seen') \<and>
    set seen' = set seen \<union> DagAddress (addr_round a - 1) ` set es \<and>
    set queue' = set queue \<union> (DagAddress (addr_round a - 1) ` set es - set seen) \<and>
    (set seen' = set seen \<longrightarrow> queue' = queue)"
  using assms(2)
proof (induction es arbitrary: queue seen)
  case (Cons c es)
  let ?b = "DagAddress (addr_round a - 1) c"
  obtain m where m: "dag_meta d ?b = Some m" using Cons.prems by auto
  have "\<exists>q s. push_unseen d to a c (queue, seen) = Some (q, s) \<and> set s = insert ?b (set seen) \<and> set q = set queue \<union> ({?b} - set seen) \<and>
    (set s = set seen \<longrightarrow> q = queue)"
    using dag_knows_known [OF assms(1) m] by (auto simp: push_unseen_def Let_def)
  then obtain q s where qs: "push_unseen d to a c (queue, seen) = Some (q, s)"
    "set s = insert ?b (set seen)" "set q = set queue \<union> ({?b} - set seen)" "set s = set seen \<longrightarrow> q = queue" by blast
  obtain q' s' where "fold_opt (push_unseen d to a) es (q, s) = Some (q', s')"
    "set s' = set s \<union> DagAddress (addr_round a - 1) ` set es"
    "set q' = set q \<union> (DagAddress (addr_round a - 1) ` set es - set s)" "set s' = set s \<longrightarrow> q' = q"
    using Cons.IH [of q s] Cons.prems by (metis list.set_intros(2))
  with qs show ?case by auto
qed simp

lemma push_unseen_edges:
  assumes "dag_ok d" "dag_meta d a = Some m"
  shows "\<exists>queue' seen'. fold_opt (push_unseen d to a) (ids_iter (vx_edges (vm_vertex m))) (queue, seen) = Some (queue', seen') \<and>
    set seen' = set seen \<union> {b. dag_edge d a b} \<and> set queue' = set queue \<union> ({b. dag_edge d a b} - set seen) \<and>
    (set seen' = set seen \<longrightarrow> queue' = queue)"
proof -
  have "{b. dag_edge d a b} = DagAddress (addr_round a - 1) ` set (ids_iter (vx_edges (vm_vertex m)))"
    using vertex_edges_iff [OF assms(2)] by auto
  then show ?thesis using assms push_unseen_fold [of d "ids_iter (vx_edges (vm_vertex m))"]
    by (auto simp: dag_ok_def vertex_ok_def)
qed

lemma expensive_spec:
  assumes "dag_ok d" "set queue \<subseteq> set seen" "set seen \<subseteq> {a. dag_meta d a \<noteq> None}" "to \<notin> set seen - set queue"
    and "\<forall>a \<in> set seen - set queue. \<forall>b. dag_edge d a b \<longrightarrow> b \<in> set seen"
  shows "best_first_search_expensive d to queue seen = Some (\<exists>a \<in> set seen. dag_path d a to)"
  using assms(2-)
proof (induction "(card ({a. dag_meta d a \<noteq> None} - set seen), length queue)" arbitrary: queue seen
    rule: wf_induct_rule [OF wf_lex_prod [OF wf_less_than wf_less_than]])
  case (1 queue seen)
  show ?case
  proof (cases queue)
    case Nil
    then have "closed_by (dag_edge d) (set seen)" using 1(5) by (auto simp: closed_by_def)
    then have "\<not> (\<exists>a \<in> set seen. dag_path d a to)" using closed_by_path 1(4) Nil by fastforce
    then show ?thesis using Nil by (simp add: best_first_search_expensive.simps)
  next
    case (Cons a q)
    then have a: "a \<in> set seen" using 1(2) by auto
    then obtain m where m: "dag_meta d a = Some m" using 1(3) by auto
    show ?thesis
    proof (cases "a = to")
      case True
      then show ?thesis using a Cons by (auto simp: best_first_search_expensive.simps)
    next
      case False
      obtain q' s' where step: "fold_opt (push_unseen d to a) (ids_iter (vx_edges (vm_vertex m))) (q, seen) = Some (q', s')"
        "set s' = set seen \<union> {b. dag_edge d a b}" "set q' = set q \<union> ({b. dag_edge d a b} - set seen)"
        "set s' = set seen \<longrightarrow> q' = q"
        using push_unseen_edges [OF assms(1) m] by blast
      have known: "set s' \<subseteq> {a. dag_meta d a \<noteq> None}" using 1(3) step(2) dag_edge_known [OF assms(1)] by auto
      have less: "((card ({a. dag_meta d a \<noteq> None} - set s'), length q'), card ({a. dag_meta d a \<noteq> None} - set seen), length queue)
        \<in> less_than <*lex*> less_than"
      proof (cases "set s' = set seen")
        case True
        then show ?thesis using step(4) Cons by simp
      next
        case False
        then have "{a. dag_meta d a \<noteq> None} - set s' \<subset> {a. dag_meta d a \<noteq> None} - set seen" using step(2) known by blast
        then show ?thesis using psubset_card_mono [of "{a. dag_meta d a \<noteq> None} - set seen"] dag_known_finite [of d] by auto
      qed
      have "best_first_search_expensive d to q' s' = Some (\<exists>a \<in> set s'. dag_path d a to)"
      proof (rule 1(1) [OF less])
        show "set q' \<subseteq> set s'" using 1(2) Cons unfolding step(2,3) by auto
        show "to \<notin> set s' - set q'" using 1(4) False Cons unfolding step(2,3) by auto
        show "\<forall>x \<in> set s' - set q'. \<forall>b. dag_edge d x b \<longrightarrow> b \<in> set s'"
        proof (intro ballI allI impI)
          fix x b assume x: "x \<in> set s' - set q'" "dag_edge d x b"
          show "b \<in> set s'"
          proof (cases "x = a")
            case False
            then have "x \<in> set seen - set queue" using x(1) Cons unfolding step(2,3) by auto
            then show ?thesis using 1(5) x(2) unfolding step(2) by blast
          qed (use x(2) step(2) in simp)
        qed
      qed (rule known)
      moreover have "dag_path d a to" if "dag_edge d a b" "dag_path d b to" for b
        using that by (rule converse_rtranclp_into_rtranclp)
      then have "(\<exists>a \<in> set s'. dag_path d a to) \<longleftrightarrow> (\<exists>a \<in> set seen. dag_path d a to)"
        using a unfolding step(2) by blast
      moreover have "best_first_search_expensive d to (a # q) seen = best_first_search_expensive d to q' s'"
        using False by (subst best_first_search_expensive.simps) (simp add: dag_index_meta m step(1))
      ultimately show ?thesis unfolding Cons by (simp only:)
    qed
  qed
qed

lemma explored_from_update [simp]:
  "dag_meta (d\<lparr>dag_explored_from := r\<rparr>) a = dag_meta d a"
  by (simp add: dag_meta_def get_with_meta_def round_to_index_def)

lemma explored_from_same:
  "same_vertices d (d\<lparr>dag_explored_from := r\<rparr>)" "explored_set (d\<lparr>dag_explored_from := r\<rparr>) = explored_set d"
  by (simp_all add: same_vertices_def dag_shape_def explored_set_def counts_ok_def)

text \<open>The vertices that a search has marked lie in the rounds up to the one it started in.\<close>

definition explored_below :: "('tx, 'sig) dag \<Rightarrow> bool" where
  "explored_below d \<longleftrightarrow> (\<forall>a \<in> explored_set d. addr_round a \<le> dag_explored_from d)"

lemma path_avoids:
  assumes "dag_path d a b" "a \<in> A" "\<And>x y. x \<in> A \<Longrightarrow> dag_edge d x y \<Longrightarrow> dag_path d y b \<Longrightarrow> y \<in> A"
  shows "b \<in> A"
  using assms by (induction rule: converse_rtranclp_induct) blast+

lemma search_result_path:
  assumes "search_result X to [a] d found d'" "dag_ok d" "\<forall>x \<in> X. addr_round x < addr_round to"
  shows "found \<longleftrightarrow> dag_path d a to"
proof (rule ccontr)
  assume neg: "found \<noteq> dag_path d a to"
  then have nf: "\<not> found" "dag_path d a to" using assms(1) by (auto simp: search_result_def)
  have out: "x \<notin> X" if "dag_path d x to" for x using dag_path_round [OF that assms(2)] assms(3) by force
  have r: "a \<in> explored_set d'" "to \<notin> explored_set d' - X"
    "\<And>x y. x \<in> explored_set d' - X \<Longrightarrow> dag_edge d x y \<Longrightarrow> y \<in> explored_set d'"
    using assms(1) nf(1) by (auto simp: search_result_def)
  have "to \<in> explored_set d' - X" using nf(2) by (rule path_avoids) (use r out nf(2) in auto)
  with r(2) show False by blast
qed

lemma has_path_spec:
  assumes "dag_ok d" "explored_below d" "dag_meta d a \<noteq> None" "dag_meta d b \<noteq> None" "addr_round b < addr_round a"
    and "addr_round a \<le> dag_explored_from d \<or> dag_explored_from d < addr_round b"
  shows "\<exists>d'. has_path a b d = Some (dag_path d a b, d') \<and> same_vertices d d' \<and> explored_below d' \<and>
    dag_explored_from d' = max (dag_explored_from d) (addr_round a) \<and>
    (\<forall>x. map_option vm_delivered (dag_meta d' x) = map_option vm_delivered (dag_meta d x)) \<and>
    (\<forall>x. map_option vm_reaches (dag_meta d' x) = map_option vm_reaches (dag_meta d x))"
proof -
  have shape: "dag_shape d" using assms(1) by (simp add: dag_ok_def)
  have pre: "has_path a b d = (if dag_explored_from d < addr_round a
      then best_first_search_inplace b [a] (d\<lparr>dag_explored_from := addr_round a\<rparr>)
      else map_option (\<lambda>b. (b, d)) (best_first_search_expensive d b [a] [a]))"
    using assms(3-5) dag_knows_known [OF shape] by (auto simp: has_path_def rust_assert_def)
  show ?thesis
  proof (cases "dag_explored_from d < addr_round a")
    case True
    let ?d = "d\<lparr>dag_explored_from := addr_round a\<rparr>"
    have ok: "dag_ok ?d" using same_vertices_ok [OF explored_from_same(1) assms(1)] .
    have X: "\<forall>x \<in> explored_set d. addr_round x < addr_round b"
      using assms(2,6) True by (auto simp: explored_below_def intro: le_less_trans)
    obtain found d' where run: "best_first_search_inplace b [a] ?d = Some (found, d')" "search_result (explored_set d) b [a] ?d found d'"
      using inplace_spec [OF ok, of "[a]" b "explored_set d"] assms(3) by (auto simp: explored_from_same)
    have "found \<longleftrightarrow> dag_path d a b"
      using search_result_path [OF run(2) ok X] same_vertices_edge [OF explored_from_same(1) [of d]] by simp
    moreover note r = run(2) [unfolded search_result_def]
    moreover have "explored_below d'"
    proof (unfold explored_below_def, intro ballI)
      fix x assume "x \<in> explored_set d'"
      then consider "x \<in> explored_set d" | "dag_path ?d a x" using r by (auto simp: explored_from_same)
      then have "addr_round x \<le> addr_round a"
        using assms(2) True dag_path_round [OF _ ok] by cases (auto simp: explored_below_def)
      then show "addr_round x \<le> dag_explored_from d'" using r by simp
    qed
    moreover have "same_vertices d d'" using r same_vertices_trans [OF explored_from_same(1)] by blast
    ultimately show ?thesis using True run(1) by (auto simp: pre max_def)
  next
    case False
    have "best_first_search_expensive d b [a] [a] = Some (dag_path d a b)"
      using expensive_spec [OF assms(1), of "[a]" "[a]" b] assms(3) by auto
    then show ?thesis using False assms(2) by (auto simp: pre same_vertices_refl max_def)
  qed
qed

text \<open>
  Claim C38. Between two vertices of the DAG \<open>has_path\<close> answers without a panic whether a path leads from
  the one to the other, both by the search that marks what it explores and by the one that keeps a set of
  its own, provided that the target is above everything that an earlier search marked, or that the source
  is not. It leaves vertices, delivery and reachability as they are, and the condition on the marks holds
  again.
\<close>

theorem has_path_correct:
  assumes "dag_ok d" "explored_below d" "dag_meta d a \<noteq> None" "dag_meta d b \<noteq> None" "addr_round b < addr_round a"
    and "addr_round a \<le> dag_explored_from d \<or> dag_explored_from d < addr_round b"
  shows "\<exists>d'. has_path a b d = Some (dag_path d a b, d') \<and> same_vertices d d' \<and> explored_below d' \<and>
    dag_explored_from d' = max (dag_explored_from d) (addr_round a) \<and>
    (\<forall>x. map_option vm_delivered (dag_meta d' x) = map_option vm_delivered (dag_meta d x)) \<and>
    (\<forall>x. map_option vm_reaches (dag_meta d' x) = map_option vm_reaches (dag_meta d x))"
  by (rule has_path_spec [OF assms])

subsection \<open>Insertion\<close>

lemma dag_path_same_round:
  assumes "dag_path d a b" "dag_ok d" "addr_round a = addr_round b"
  shows "a = b"
  using assms(1)
proof (cases rule: converse_rtranclpE)
  case (step c)
  then have "addr_round b \<le> addr_round c" using dag_path_round assms(2) by blast
  with dag_edge_round [OF assms(2) step(1)] assms(3) show ?thesis by (simp add: word_le_nat_alt)
qed

lemma dag_path_edges:
  assumes "dag_ok d" "addr_round b < addr_round a"
  shows "dag_path d a b \<longleftrightarrow> (\<exists>c. dag_edge d a c \<and> dag_path d c b)"
  using assms by (auto elim: converse_rtranclpE intro: converse_rtranclp_into_rtranclp)

lemma dag_path_next:
  assumes "dag_ok d" "unat (addr_round a) = Suc (unat (addr_round b))"
  shows "dag_path d a b \<longleftrightarrow> dag_edge d a b"
proof
  assume "dag_path d a b"
  then obtain c where c: "dag_edge d a c" "dag_path d c b" using dag_path_edges [OF assms(1), of b a] assms(2) by (auto simp: word_less_nat_alt)
  then have "c = b" using dag_edge_round [OF assms(1) c(1)] assms(2) by (intro dag_path_same_round [OF c(2) assms(1)]) (simp add: word_unat_eq_iff)
  with c show "dag_edge d a b" by simp
qed blast

text \<open>The creators of the vertices of the first round of a wave that a vertex of its third or fourth round reaches.\<close>

definition reaches_ok :: "('tx, 'sig) dag \<Rightarrow> dag_address \<Rightarrow> ('tx, 'sig) vertex_with_meta \<Rightarrow> bool" where
  "reaches_ok d a m \<longleftrightarrow>
     (addr_round a mod 4 = 3 \<longrightarrow> (\<forall>c. c |\<in>| vm_reaches m \<longleftrightarrow> dag_path d a (DagAddress (addr_round a - 2) c))) \<and>
     (addr_round a mod 4 = 0 \<longrightarrow> (\<forall>c. c |\<in>| vm_reaches m \<longleftrightarrow> dag_path d a (DagAddress (addr_round a - 3) c)))"

definition dag_reaches_ok :: "('tx, 'sig) dag \<Rightarrow> bool" where
  "dag_reaches_ok d \<longleftrightarrow> (\<forall>a m. dag_meta d a = Some m \<longrightarrow> reaches_ok d a m)"

lemma merge_fold:
  assumes "\<forall>c \<in> set cs. f c \<noteq> None"
  shows "\<exists>s'. fold_opt (\<lambda>c s. do { t \<leftarrow> f c; Some (ids_merge (g t) s) }) cs s = Some s' \<and>
    (\<forall>x. x |\<in>| s' \<longleftrightarrow> x |\<in>| s \<or> (\<exists>c \<in> set cs. \<exists>t. f c = Some t \<and> x |\<in>| g t))"
  using assms
proof (induction cs arbitrary: s)
  case (Cons c cs)
  then obtain t where t: "f c = Some t" by auto
  obtain s' where "fold_opt (\<lambda>c s. do { t \<leftarrow> f c; Some (ids_merge (g t) s) }) cs (ids_merge (g t) s) = Some s'"
    "\<forall>x. x |\<in>| s' \<longleftrightarrow> x |\<in>| ids_merge (g t) s \<or> (\<exists>c \<in> set cs. \<exists>t. f c = Some t \<and> x |\<in>| g t)"
    using Cons.IH [of "ids_merge (g t) s"] Cons.prems by auto
  with t show ?case by (auto simp: ids_merge_def)
qed simp

lemma u64_mod4:
  fixes r :: u64
  shows "r mod 4 = 3 \<Longrightarrow> unat (r - 1) = unat r - 1 \<and> unat (r - 2) = unat r - 2 \<and> 3 \<le> unat r"
    and "r mod 4 = 0 \<Longrightarrow> r \<noteq> 0 \<Longrightarrow> unat (r - 1) = unat r - 1 \<and> unat (r - 3) = unat r - 3 \<and> 4 \<le> unat r \<and> (r - 1) mod 4 = 3"
proof -
  have eq: "r mod 4 = k \<longleftrightarrow> unat r mod 4 = unat k" for r k :: u64 by (simp add: word_unat_eq_iff unat_mod)
  have sub: "unat (r - k) = unat r - unat k" if "unat k \<le> unat r" for r k :: u64 using that by (simp add: unat_sub word_le_nat_alt)
  show "unat (r - 1) = unat r - 1 \<and> unat (r - 2) = unat r - 2 \<and> 3 \<le> unat r" if "r mod 4 = 3"
  proof -
    have "3 \<le> unat r" using that by (simp add: eq)
    then show ?thesis using sub [of 1 r] sub [of 2 r] by simp
  qed
  show "unat (r - 1) = unat r - 1 \<and> unat (r - 3) = unat r - 3 \<and> 4 \<le> unat r \<and> (r - 1) mod 4 = 3" if "r mod 4 = 0" "r \<noteq> 0"
  proof -
    have z: "unat r mod 4 = 0" "unat r \<noteq> 0" using that by (simp_all add: eq unsigned_eq_0_iff)
    then obtain k where k: "unat r = 4 * Suc k" by (metis mod_0_imp_dvd dvdE mult_0_right not0_implies_Suc)
    then have "4 \<le> unat r" by simp
    moreover have "unat r - 1 = 3 + 4 * k" using k by simp
    then have "(unat r - 1) mod 4 = 3" by (simp only: mod_mult_self2) simp
    ultimately show ?thesis using sub [of 1 r] sub [of 3 r] by (simp add: eq)
  qed
qed

lemma insert_reaches_spec:
  assumes "dag_ok d" "dag_reaches_ok d" "vertex_ok d (vx_address v) v" "vx_round v \<noteq> 0"
  shows "\<exists>s. insert_reaches d v = Some s \<and>
    (vx_round v mod 4 = 3 \<longrightarrow> (\<forall>c. c |\<in>| s \<longleftrightarrow>
       (\<exists>e. e |\<in>| vx_edges v \<and> dag_path d (DagAddress (vx_round v - 1) e) (DagAddress (vx_round v - 2) c)))) \<and>
    (vx_round v mod 4 = 0 \<longrightarrow> (\<forall>c. c |\<in>| s \<longleftrightarrow>
       (\<exists>e. e |\<in>| vx_edges v \<and> dag_path d (DagAddress (vx_round v - 1) e) (DagAddress (vx_round v - 3) c))))"
proof -
  let ?r = "vx_round v" and ?x = "\<lambda>e. DagAddress (vx_round v - 1) e"
  have known: "dag_meta d (?x e) \<noteq> None" if "e |\<in>| vx_edges v" for e using assms(3) that by (simp add: vertex_ok_def)
  have edge: "c |\<in>| vx_edges (vm_vertex m) \<longleftrightarrow> dag_path d (?x e) (DagAddress (?r - 2) c)"
    if "?r mod 4 = 3" "dag_meta d (?x e) = Some m" for e m c
  proof -
    have "unat (?r - 1) = Suc (unat (?r - 2))" using u64_mod4(1) [OF that(1)] by linarith
    then have "dag_path d (?x e) (DagAddress (?r - 2) c) \<longleftrightarrow> dag_edge d (?x e) (DagAddress (?r - 2) c)"
      by (intro dag_path_next assms(1)) simp
    then show ?thesis using that(2) by (simp add: dag_edge_def)
  qed
  have wave: "c |\<in>| vm_reaches m \<longleftrightarrow> dag_path d (?x e) (DagAddress (?r - 3) c)"
    if "?r mod 4 = 0" "dag_meta d (?x e) = Some m" for e m c
  proof -
    have "reaches_ok d (?x e) m" using assms(2) that(2) by (simp add: dag_reaches_ok_def)
    then show ?thesis using u64_mod4(2) [OF that(1) assms(4)] by (simp add: reaches_ok_def)
  qed
  consider "?r mod 4 = 3" | "?r mod 4 = 0" | "?r mod 4 \<noteq> 3" "?r mod 4 \<noteq> 0" by blast
  then show ?thesis
  proof cases
    case 1
    have "\<forall>c \<in> set (ids_iter (vx_edges v)). dag_index d (?x c) \<noteq> None" using known by (auto simp: dag_index_meta)
    from merge_fold [OF this, of vx_edges "{||}"] obtain s where
      "insert_reaches d v = Some s" "\<forall>c. c |\<in>| s \<longleftrightarrow> (\<exists>e \<in> set (ids_iter (vx_edges v)). \<exists>w. dag_index d (?x e) = Some w \<and> c |\<in>| vx_edges w)"
      using 1 by (auto simp: insert_reaches_def Let_def ids_with_capacity_def)
    moreover have "(\<exists>w. dag_index d (?x e) = Some w \<and> c |\<in>| vx_edges w) \<longleftrightarrow> dag_path d (?x e) (DagAddress (?r - 2) c)"
      if "e |\<in>| vx_edges v" for e c
      using known [OF that] edge [OF 1, of e] by (auto simp: dag_index_meta)
    ultimately show ?thesis using 1 by auto
  next
    case 2
    have "\<forall>c \<in> set (ids_iter (vx_edges v)). dag_meta d (?x c) \<noteq> None" using known by auto
    from merge_fold [OF this, of vm_reaches "{||}"] obtain s where
      "insert_reaches d v = Some s" "\<forall>c. c |\<in>| s \<longleftrightarrow> (\<exists>e \<in> set (ids_iter (vx_edges v)). \<exists>m. dag_meta d (?x e) = Some m \<and> c |\<in>| vm_reaches m)"
      using 2 by (auto simp: insert_reaches_def Let_def ids_with_capacity_def)
    moreover have "(\<exists>m. dag_meta d (?x e) = Some m \<and> c |\<in>| vm_reaches m) \<longleftrightarrow> dag_path d (?x e) (DagAddress (?r - 3) c)"
      if "e |\<in>| vx_edges v" for e c
      using known [OF that] wave [OF 2, of e] by auto
    ultimately show ?thesis using 2 by auto
  next
    case 3
    then show ?thesis by (simp add: insert_reaches_def Let_def)
  qed
qed

text \<open>Storing a new vertex whose edges lead to known vertices leaves the paths of the others as they are.\<close>

lemma store_edge:
  assumes "dag_meta d' = (dag_meta d)(a \<mapsto> m)" "dag_meta d a = None"
  shows "dag_edge d' x y \<longleftrightarrow> (if x = a then addr_creator y |\<in>| vx_edges (vm_vertex m) \<and> addr_round y = addr_round a - 1 else dag_edge d x y)"
  using assms by (simp add: dag_edge_def)

lemma store_path:
  assumes "dag_ok d" "dag_meta d' = (dag_meta d)(a \<mapsto> m)" "dag_meta d a = None" "dag_meta d x \<noteq> None"
  shows "dag_path d' x y \<longleftrightarrow> dag_path d x y"
proof
  assume "dag_path d' x y"
  then have "dag_path d x y \<and> dag_meta d y \<noteq> None"
  proof (induction rule: rtranclp_induct)
    case (step y z)
    then have "dag_edge d y z" using store_edge [OF assms(2,3)] assms(3) by (auto split: if_splits)
    with step show ?case using dag_edge_known [OF assms(1)] by (auto intro: rtranclp.rtrancl_into_rtrancl)
  qed (use assms(4) in simp)
  then show "dag_path d x y" by simp
next
  have E: "dag_edge d' u v" if "dag_edge d u v" for u v
    using that assms(3) store_edge [OF assms(2,3), of u v] by (cases "u = a") (auto simp: dag_edge_def)
  show "dag_path d' x y" if "dag_path d x y" using that by (induction rule: rtranclp_induct) (auto intro: E rtranclp.rtrancl_into_rtrancl)
qed

lemma store_ok:
  assumes "dag_ok d" "dag_shape d'" "dag_meta d' = (dag_meta d)(a \<mapsto> m)" "vertex_ok d a (vm_vertex m)"
  shows "dag_ok d'"
proof -
  have "vertex_ok d' b v" if "vertex_ok d b v" for b v
    using that assms(3) by (auto simp: vertex_ok_def)
  then show ?thesis using assms by (auto simp: dag_ok_def)
qed

lemma dag_insert_store:
  assumes "dag_shape d" "dag_meta d (vx_address v) = None" "vx_creator v < dag_n d" "vx_round v \<noteq> 0" "vx_round v \<le> dag_max_round d"
    and "insert_reaches d v = Some s"
  shows "dag_insert v d = Some (dag_store (vx_address v) (vertex_with_meta_new v s) 1 d)"
proof -
  have i: "unat (vx_round v) - 1 < length (dag_rounds d)" using round_index(2) [OF assms(1)] assms by blast
  then have "length (dr_vertices (dag_rounds d ! (unat (vx_round v) - 1))) = unat (dag_n d)"
    using assms(1) by (auto simp: dag_shape_def)
  then show ?thesis using i assms
    by (simp add: dag_insert_def dag_knows_meta round_index(1) [OF assms(1)] rust_assert_def index_vec_def dr_insert_def
        dag_store_def Let_def vertex_with_meta_new_def word_less_nat_alt)
qed

lemma dag_insert_spec:
  assumes "dag_ok d" "dag_reaches_ok d" "dag_meta d (vx_address v) = None" "vx_creator v < dag_n d"
    and "vx_round v \<noteq> 0" "vx_round v \<le> dag_max_round d" "vertex_ok d (vx_address v) v"
  shows "\<exists>s d'. dag_insert v d = Some d' \<and> dag_ok d' \<and> dag_reaches_ok d' \<and>
    dag_meta d' = (dag_meta d)(vx_address v \<mapsto> vertex_with_meta_new v s) \<and> d' = dag_store (vx_address v) (vertex_with_meta_new v s) 1 d"
proof -
  let ?a = "vx_address v"
  have shape: "dag_shape d" using assms(1) by (simp add: dag_ok_def)
  obtain s where s: "insert_reaches d v = Some s"
    "vx_round v mod 4 = 3 \<Longrightarrow> c |\<in>| s \<longleftrightarrow> (\<exists>e. e |\<in>| vx_edges v \<and> dag_path d (DagAddress (vx_round v - 1) e) (DagAddress (vx_round v - 2) c))"
    "vx_round v mod 4 = 0 \<Longrightarrow> c |\<in>| s \<longleftrightarrow> (\<exists>e. e |\<in>| vx_edges v \<and> dag_path d (DagAddress (vx_round v - 1) e) (DagAddress (vx_round v - 3) c))" for c
    using insert_reaches_spec [OF assms(1,2,7,5)] by blast
  let ?m = "vertex_with_meta_new v s" and ?d = "dag_store (vx_address v) (vertex_with_meta_new v s) 1 d"
  have meta: "dag_meta ?d = (dag_meta d)(?a \<mapsto> ?m)" using dag_store_meta [OF shape] assms(4-6) by blast
  have ok: "dag_ok ?d"
    using store_ok [OF assms(1) dag_store_shape [OF shape] meta] assms(7) by (simp add: vertex_with_meta_new_def)
  have path: "dag_path ?d ?a b \<longleftrightarrow> (\<exists>e. e |\<in>| vx_edges v \<and> dag_path d (DagAddress (vx_round v - 1) e) b)"
    if "addr_round b < vx_round v" for b
  proof -
    have "dag_path ?d (DagAddress (vx_round v - 1) e) b \<longleftrightarrow> dag_path d (DagAddress (vx_round v - 1) e) b" if "e |\<in>| vx_edges v" for e
      using store_path [OF assms(1) meta assms(3)] assms(7) that by (simp add: vertex_ok_def)
    moreover have "dag_edge ?d ?a c \<longleftrightarrow> (\<exists>e. e |\<in>| vx_edges v \<and> c = DagAddress (vx_round v - 1) e)" for c
      using store_edge [OF meta assms(3), of ?a c] by (cases c) (auto simp: vertex_with_meta_new_def)
    ultimately show ?thesis using dag_path_edges [OF ok that] by auto
  qed
  have lt: "vx_round v - 2 < vx_round v" if "vx_round v mod 4 = 3"
    using u64_mod4(1) [OF that] unfolding word_less_nat_alt by linarith
  have lt': "vx_round v - 3 < vx_round v" if "vx_round v mod 4 = 0"
    using u64_mod4(2) [OF that assms(5)] unfolding word_less_nat_alt by linarith
  have m: "vm_reaches ?m = s" by (simp add: vertex_with_meta_new_def)
  have "reaches_ok ?d ?a ?m" unfolding reaches_ok_def m
  proof (intro conjI impI allI)
    show "c |\<in>| s \<longleftrightarrow> dag_path ?d ?a (DagAddress (vx_round v - 2) c)" if "vx_round v mod 4 = 3" for c
      using s(2) [OF that, of c] path [of "DagAddress (vx_round v - 2) c"] lt [OF that] by simp
    show "c |\<in>| s \<longleftrightarrow> dag_path ?d ?a (DagAddress (vx_round v - 3) c)" if "vx_round v mod 4 = 0" for c
      using s(3) [OF that, of c] path [of "DagAddress (vx_round v - 3) c"] lt' [OF that] by simp
  qed
  moreover have "reaches_ok ?d b m" if "dag_meta d b = Some m" for b m
    using store_path [OF assms(1) meta assms(3)] that assms(2) by (auto simp: dag_reaches_ok_def reaches_ok_def)
  ultimately have "dag_reaches_ok ?d" using meta by (auto simp: dag_reaches_ok_def)
  with ok meta dag_insert_store [OF shape assms(3-6) s(1)] show ?thesis by blast
qed

text \<open>
  Claim C39. A new vertex that lies in a round the DAG has, whose creator is a replica and whose edges all
  lead to vertices of the DAG is inserted without a panic: it becomes known under its address, undelivered,
  everything else stays; the DAG is well formed again; and the set \<open>reaches\<close> kept with every vertex of
  the third and fourth round of a wave still holds exactly the creators of the vertices of the first round
  of that wave that the vertex has a path to.
\<close>

theorem dag_insert_correct:
  assumes "dag_ok d" "dag_reaches_ok d" "dag_meta d (vx_address v) = None" "vx_creator v < dag_n d"
    and "vx_round v \<noteq> 0" "vx_round v \<le> dag_max_round d" "vertex_ok d (vx_address v) v"
  shows "\<exists>s d'. dag_insert v d = Some d' \<and> dag_ok d' \<and> dag_reaches_ok d' \<and>
    dag_meta d' = (dag_meta d)(vx_address v \<mapsto> vertex_with_meta_new v s)"
  using dag_insert_spec [OF assms] by blast

subsection \<open>Rounds and the number of their vertices\<close>

lemma map_filter_upd:
  assumes "i < length xs" "f (xs ! i) = None" "f y \<noteq> None"
  shows "length (List.map_filter f (xs[i := y])) = Suc (length (List.map_filter f xs))"
  using assms
proof (induction xs arbitrary: i)
  case (Cons x xs)
  then show ?case by (cases i) (auto simp: map_filter_simps split: option.splits)
qed simp

lemma insert_counts:
  assumes "dag_shape d" "counts_ok d" "dag_meta d a = None" "addr_creator a < dag_n d" "addr_round a \<noteq> 0" "addr_round a \<le> dag_max_round d"
  shows "counts_ok (dag_store a m 1 d)"
proof -
  let ?i = "unat (addr_round a) - 1"
  let ?r = "dag_rounds d ! ?i"
  have i: "?i < length (dag_rounds d)" using round_index(2) [OF assms(1)] assms(5,6) by blast
  then have "unat (addr_creator a) < length (dr_vertices ?r)" using assms(1,4) by (auto simp: dag_shape_def word_less_nat_alt)
  moreover have "dr_vertices ?r ! unat (addr_creator a) = None" using assms by (simp add: dag_meta_eq [OF assms(1)])
  ultimately have "length (dr_all_valid_addresses (?r\<lparr>dr_vertices := (dr_vertices ?r)[unat (addr_creator a) := Some m]\<rparr>)) =
      Suc (length (dr_all_valid_addresses ?r))"
    using map_filter_upd [of "unat (addr_creator a)" "dr_vertices ?r" "map_option (\<lambda>m. vx_address (vm_vertex m))" "Some m"]
    by (simp add: dr_all_valid_addresses_def)
  moreover have "dr_all_valid_addresses (r\<lparr>dr_valid_vertice_count := k\<rparr>) = dr_all_valid_addresses r" for r k
    by (simp add: dr_all_valid_addresses_def)
  ultimately show ?thesis using assms(2) i
    by (auto simp: counts_ok_def dag_store_def Let_def dr_all_valid_addresses_def elim!: in_set_upd_cases)
qed

lemma map_filter_nth:
  "List.map_filter f xs = map (\<lambda>i. the (f (xs ! i))) (filter (\<lambda>i. f (xs ! i) \<noteq> None) [0..<length xs])"
proof (induction xs rule: rev_induct)
  case (snoc x xs)
  have "filter (\<lambda>i. f ((xs @ [x]) ! i) \<noteq> None) [0..<length xs] = filter (\<lambda>i. f (xs ! i) \<noteq> None) [0..<length xs]"
    by (rule filter_cong) (auto simp: nth_append)
  moreover have "map (\<lambda>i. the (f ((xs @ [x]) ! i))) (filter (\<lambda>i. f (xs ! i) \<noteq> None) [0..<length xs]) =
      map (\<lambda>i. the (f (xs ! i))) (filter (\<lambda>i. f (xs ! i) \<noteq> None) [0..<length xs])"
    by (auto simp: nth_append)
  ultimately show ?case using snoc by (auto simp: map_filter_def)
qed (simp add: map_filter_simps)

lemma unat_of_nat_below: "i < unat n \<Longrightarrow> unat (of_nat i :: u64) = i" for n :: u64
proof -
  have "unat n < 2 ^ 64" by (rule order_less_le_trans [OF unsigned_less]) simp
  then show "i < unat n \<Longrightarrow> unat (of_nat i :: u64) = i" by (intro unat_of_nat_u64) (simp add: less_u64_max)
qed

lemma dag_round_addresses:
  assumes "dag_ok d" "r \<noteq> 0" "r \<le> dag_max_round d"
  shows "dr_all_valid_addresses (dag_rounds d ! (unat r - 1)) =
    map (\<lambda>i. DagAddress r (of_nat i)) (filter (\<lambda>i. dag_meta d (DagAddress r (of_nat i)) \<noteq> None) [0..<unat (dag_n d)])"
proof -
  have shape: "dag_shape d" using assms(1) by (simp add: dag_ok_def)
  let ?vs = "dr_vertices (dag_rounds d ! (unat r - 1))"
  have len: "length ?vs = unat (dag_n d)" using round_index(2) [OF shape] assms shape by (auto simp: dag_shape_def)
  note nat = unat_of_nat_below [of _ "dag_n d"]
  have meta: "dag_meta d (DagAddress r (of_nat i)) = ?vs ! i" if "i < unat (dag_n d)" for i
    using that assms nat [OF that] by (simp add: dag_meta_eq [OF shape] word_less_nat_alt)
  have addr: "vx_address (vm_vertex m) = DagAddress r (of_nat i)" if "i < unat (dag_n d)" "?vs ! i = Some m" for i m
    using assms(1) meta [OF that(1)] that(2) by (auto simp: dag_ok_def vertex_ok_def)
  show ?thesis unfolding dr_all_valid_addresses_def map_filter_nth len
  proof (rule map_cong)
    show "filter (\<lambda>i. map_option (\<lambda>m. vx_address (vm_vertex m)) (?vs ! i) \<noteq> None) [0..<unat (dag_n d)] =
        filter (\<lambda>i. dag_meta d (DagAddress r (of_nat i)) \<noteq> None) [0..<unat (dag_n d)]"
      by (rule filter_cong) (auto simp: meta)
    show "the (map_option (\<lambda>m. vx_address (vm_vertex m)) (?vs ! i)) = DagAddress r (of_nat i)"
      if "i \<in> set (filter (\<lambda>i. dag_meta d (DagAddress r (of_nat i)) \<noteq> None) [0..<unat (dag_n d)])" for i
      using that addr by (auto simp: meta)
  qed
qed

text \<open>The vertices of a round, in the order of their creators; the counter of the round is their number.\<close>

definition round_addresses :: "('tx, 'sig) dag \<Rightarrow> round \<Rightarrow> dag_address set" where
  "round_addresses d r = {a. dag_meta d a \<noteq> None \<and> addr_round a = r}"

lemma dag_get_round_spec:
  assumes "dag_ok d"
  shows "\<exists>as. dag_get_round d r = Some as \<and> distinct as \<and> set as = round_addresses d r"
proof (cases "r \<noteq> 0 \<and> r \<le> dag_max_round d")
  case True
  have shape: "dag_shape d" using assms by (simp add: dag_ok_def)
  let ?as = "map (\<lambda>i. DagAddress r (of_nat i)) (filter (\<lambda>i. dag_meta d (DagAddress r (of_nat i)) \<noteq> None) [0..<unat (dag_n d)])"
  have run: "dag_get_round d r = Some ?as"
    using True round_index [OF shape] dag_round_addresses [OF assms, of r] by (simp add: dag_get_round_def index_vec_def)
  note nat = unat_of_nat_below [of _ "dag_n d"]
  have "inj_on (\<lambda>i. DagAddress r (of_nat i)) {0..<unat (dag_n d)}"
    by (rule inj_onI) (metis atLeastLessThan_iff dag_address.inject nat)
  then have "distinct ?as" by (auto simp: distinct_map intro: inj_on_subset)
  moreover have "set ?as = round_addresses d r"
  proof (intro set_eqI iffI)
    fix a assume a: "a \<in> round_addresses d r"
    then have "addr_creator a < dag_n d" using dag_meta_creator by (fastforce simp: round_addresses_def)
    then show "a \<in> set ?as" using a
      by (cases a) (auto simp: round_addresses_def word_less_nat_alt intro!: image_eqI [of _ _ "unat (addr_creator a)"])
  qed (auto simp: round_addresses_def)
  ultimately show ?thesis using run by blast
next
  case False
  have shape: "dag_shape d" using assms by (simp add: dag_ok_def)
  have "round_addresses d r = {}" using False dag_meta_round [OF shape] by (fastforce simp: round_addresses_def)
  then show ?thesis using False by (auto simp: dag_get_round_def round_index(1) [OF shape])
qed

lemma get_round_valid_count_spec:
  assumes "dag_ok d" "counts_ok d"
  shows "get_round_valid_count d r = Some (of_nat (card (round_addresses d r)))"
proof -
  have shape: "dag_shape d" using assms by (simp add: dag_ok_def)
  obtain as where as: "dag_get_round d r = Some as" "distinct as" "set as = round_addresses d r"
    using dag_get_round_spec [OF assms(1)] by blast
  have "get_round_valid_count d r = Some (of_nat (length as))"
    using as(1) assms(2) round_index [OF shape, of r]
    by (auto simp: get_round_valid_count_def dag_get_round_def index_vec_def counts_ok_def split: option.splits if_splits)
  then show ?thesis using as(2,3) by (metis distinct_card)
qed

lemma new_round_spec:
  assumes "dag_shape d" "length (dag_rounds d) < isize_max"
  shows "\<exists>d'. new_round d = Some d' \<and> dag_shape d' \<and> dag_meta d' = dag_meta d \<and> dag_n d' = dag_n d \<and>
    unat (dag_max_round d') = Suc (unat (dag_max_round d)) \<and> dag_explored_from d' = dag_explored_from d \<and>
    (counts_ok d \<longrightarrow> counts_ok d')"
proof -
  let ?d = "d\<lparr>dag_rounds := dag_rounds d @ [dag_round_new (dag_n d)], dag_max_round := dag_max_round d + 1\<rparr>"
  have len: "length (dag_rounds d) = unat (dag_max_round d)" using assms(1) by (simp add: dag_shape_def)
  have max: "unat (dag_max_round d + 1) = Suc (unat (dag_max_round d))"
  proof -
    have "dag_max_round d + 1 \<noteq> 0"
    proof
      assume "dag_max_round d + 1 = 0"
      then have "dag_max_round d = - 1" by (simp add: eq_neg_iff_add_eq_0)
      then show False using assms(2) len unat_max_u64 by (simp add: isize_max_def u64_max_def)
    qed
    then show ?thesis by (metis add.commute unatSuc)
  qed
  have shape: "dag_shape ?d" using assms len max by (auto simp: dag_shape_def dag_round_new_def)
  have "dag_meta ?d a = dag_meta d a" for a
  proof (cases "addr_round a \<le> dag_max_round d")
    case True
    then have "addr_round a \<le> dag_max_round d + 1" using max by (simp add: word_le_nat_alt)
    then show ?thesis using True len unat_pos [of "addr_round a"]
      by (auto simp: dag_meta_eq [OF shape] dag_meta_eq [OF assms(1)] nth_append word_le_nat_alt)
  next
    case False
    then have "unat (addr_round a) - 1 = length (dag_rounds d)" if "addr_round a \<le> dag_max_round d + 1"
      using that max len by (simp add: word_le_nat_alt)
    then have "dag_meta ?d a = None"
      unfolding dag_meta_eq [OF shape] by (auto simp: nth_append dag_round_new_def word_less_nat_alt)
    then show ?thesis using False by (simp add: dag_meta_eq [OF assms(1)])
  qed
  moreover have "counts_ok ?d" if "counts_ok d"
    using that by (auto simp: counts_ok_def dag_round_new_def dr_all_valid_addresses_def map_filter_def)
  ultimately show ?thesis using shape max assms(2) by (intro exI [of _ ?d]) (auto simp: new_round_def vec_push_def)
qed

text \<open>What all reachable DAGs satisfy.\<close>

definition dag_inv :: "('tx, 'sig) dag \<Rightarrow> bool" where
  "dag_inv d \<longleftrightarrow> dag_ok d \<and> dag_reaches_ok d \<and> counts_ok d \<and> explored_below d"

lemma meta_determines:
  assumes "dag_meta d' = dag_meta d"
  shows "dag_edge d' = dag_edge d" "vertex_ok d' = vertex_ok d" "explored_set d' = explored_set d" "reaches_ok d' = reaches_ok d"
proof -
  show e: "dag_edge d' = dag_edge d" "vertex_ok d' = vertex_ok d" "explored_set d' = explored_set d"
    using assms by (auto simp: fun_eq_iff dag_edge_def vertex_ok_def explored_set_def)
  then show "reaches_ok d' = reaches_ok d" by (intro ext) (simp add: reaches_ok_def)
qed

lemma new_round_inv:
  assumes "dag_inv d" "length (dag_rounds d) < isize_max"
  shows "\<exists>d'. new_round d = Some d' \<and> dag_inv d' \<and> dag_meta d' = dag_meta d \<and> dag_n d' = dag_n d \<and>
    unat (dag_max_round d') = Suc (unat (dag_max_round d)) \<and> dag_explored_from d' = dag_explored_from d"
proof -
  have shape: "dag_shape d" using assms(1) by (simp add: dag_inv_def dag_ok_def)
  obtain d' where d': "new_round d = Some d'" "dag_shape d'" "dag_meta d' = dag_meta d" "dag_n d' = dag_n d"
    "unat (dag_max_round d') = Suc (unat (dag_max_round d))" "dag_explored_from d' = dag_explored_from d" "counts_ok d \<longrightarrow> counts_ok d'"
    using new_round_spec [OF shape assms(2)] by blast
  then have "dag_inv d'"
    using assms(1) meta_determines [OF d'(3)] by (simp add: dag_inv_def dag_ok_def dag_reaches_ok_def explored_below_def)
  with d' show ?thesis by blast
qed

lemma dag_new_inv: "\<exists>d :: ('tx, 'sig) dag. dag_new n = Some d \<and> dag_inv d \<and> (\<forall>a. dag_meta d a = None) \<and> dag_n d = n \<and> dag_max_round d = 1 \<and> dag_explored_from d = 0"
proof -
  let ?d = "\<lparr>dag_n = n, dag_offset = 1, dag_max_round = 0, dag_rounds = [], dag_explored_from = 0\<rparr> :: ('tx, 'sig) dag"
  have shape: "dag_shape ?d" by (simp add: dag_shape_def)
  have none: "dag_meta ?d a = None" for a
    using round_index(1) [OF shape, of "addr_round a"] by (auto simp: dag_meta_def get_with_meta_def rust_assert_def split: option.splits)
  then have "dag_inv ?d"
    using shape by (simp add: dag_inv_def dag_ok_def dag_reaches_ok_def counts_ok_def explored_below_def explored_set_def)
  from new_round_inv [OF this] obtain d where d: "dag_new n = Some d" "dag_inv d" "dag_meta d = dag_meta ?d" "dag_n d = n"
    "unat (dag_max_round d) = 1" "dag_explored_from d = 0" by (auto simp: dag_new_def isize_max_def)
  moreover have "dag_max_round d = 1" using d(5) by (simp add: word_unat_eq_iff)
  ultimately show ?thesis using none by auto
qed

lemma insert_delivered:
  assumes "dag_meta d' = (dag_meta d)(a \<mapsto> vertex_with_meta_new v s)" "dag_meta d a = None"
  shows "delivered_set d' = delivered_set d"
  using assms by (auto simp: delivered_set_def vertex_with_meta_new_def)

lemma same_flags_inv:
  assumes "dag_inv d" "same_vertices d d'" "explored_below d'"
    and "\<forall>a. map_option vm_reaches (dag_meta d' a) = map_option vm_reaches (dag_meta d a)"
  shows "dag_inv d'"
proof -
  have "reaches_ok d' a m" if m: "dag_meta d' a = Some m" for a m
  proof -
    obtain m' where m': "dag_meta d a = Some m'" "vm_reaches m' = vm_reaches m"
      using assms(4) m by (metis (no_types, lifting) map_option_eq_Some option.simps(9))
    then have "reaches_ok d a m'" using assms(1) by (simp add: dag_inv_def dag_reaches_ok_def)
    then show ?thesis unfolding reaches_ok_def m'(2) same_vertices_edge [OF assms(2)] .
  qed
  then show ?thesis using assms same_vertices_ok [OF assms(2)] by (auto simp: dag_inv_def dag_reaches_ok_def same_vertices_def)
qed

lemma delivery_inv:
  assumes "dag_inv d" "delivery_result max_depth stack d ds d'"
  shows "dag_inv d'"
proof (rule same_flags_inv [OF assms(1)])
  have "explored_set d' = explored_set d"
  proof (intro set_eqI)
    fix a
    have "map_option vm_path_explored (dag_meta d' a) = map_option vm_path_explored (dag_meta d a)"
      using assms(2) by (simp add: delivery_result_def)
    then show "a \<in> explored_set d' \<longleftrightarrow> a \<in> explored_set d"
      by (cases "dag_meta d' a"; cases "dag_meta d a") (auto simp: explored_set_def)
  qed
  then show "explored_below d'" using assms by (simp add: dag_inv_def explored_below_def delivery_result_def)
qed (use assms(2) in \<open>simp_all add: delivery_result_def\<close>)

lemma dag_insert_inv:
  assumes "dag_inv d" "dag_meta d (vx_address v) = None" "vx_creator v < dag_n d"
    and "vx_round v \<noteq> 0" "vx_round v \<le> dag_max_round d" "vertex_ok d (vx_address v) v"
  shows "\<exists>s d'. dag_insert v d = Some d' \<and> dag_inv d' \<and> dag_meta d' = (dag_meta d)(vx_address v \<mapsto> vertex_with_meta_new v s) \<and>
    dag_n d' = dag_n d \<and> dag_max_round d' = dag_max_round d \<and> dag_explored_from d' = dag_explored_from d"
proof -
  have ok: "dag_ok d" "dag_reaches_ok d" "dag_shape d" "counts_ok d" "explored_below d" using assms(1) by (simp_all add: dag_inv_def dag_ok_def)
  obtain s d' where d': "dag_insert v d = Some d'" "dag_ok d'" "dag_reaches_ok d'"
    "dag_meta d' = (dag_meta d)(vx_address v \<mapsto> vertex_with_meta_new v s)" "d' = dag_store (vx_address v) (vertex_with_meta_new v s) 1 d"
    using dag_insert_spec [OF ok(1,2) assms(2-6)] by blast
  have "counts_ok d'" using insert_counts [OF ok(3,4) assms(2-5)] d'(5) by simp
  moreover have "explored_set d' = explored_set d" using assms(2) by (auto simp: explored_set_def d'(4) vertex_with_meta_new_def)
  then have "explored_below d'" using ok(5) d'(5) by (simp add: explored_below_def)
  ultimately show ?thesis using d' by (auto simp: dag_inv_def)
qed

lemma has_path_inv:
  assumes "dag_inv d" "dag_meta d a \<noteq> None" "dag_meta d b \<noteq> None" "addr_round b < addr_round a"
    and "addr_round a \<le> dag_explored_from d \<or> dag_explored_from d < addr_round b"
  shows "\<exists>d'. has_path a b d = Some (dag_path d a b, d') \<and> dag_inv d' \<and> same_vertices d d' \<and>
    dag_explored_from d' = max (dag_explored_from d) (addr_round a) \<and> delivered_set d' = delivered_set d"
proof -
  have ok: "dag_ok d" "explored_below d" using assms(1) by (simp_all add: dag_inv_def)
  obtain d' where d': "has_path a b d = Some (dag_path d a b, d')" "same_vertices d d'" "explored_below d'"
    "dag_explored_from d' = max (dag_explored_from d) (addr_round a)"
    "\<forall>x. map_option vm_delivered (dag_meta d' x) = map_option vm_delivered (dag_meta d x)"
    "\<forall>x. map_option vm_reaches (dag_meta d' x) = map_option vm_reaches (dag_meta d x)"
    using has_path_spec [OF ok assms(2-5)] by blast
  have "x \<in> delivered_set d' \<longleftrightarrow> x \<in> delivered_set d" for x
    using d'(5) [rule_format, of x] by (cases "dag_meta d' x"; cases "dag_meta d x") (auto simp: delivered_set_def)
  then show ?thesis using d' same_flags_inv [OF assms(1) d'(2,3,6)] by blast
qed

subsection \<open>Delivery depends on the vertices below only\<close>

text \<open>Two DAGs agree on a set of addresses when their vertices there have the same edges and they have delivered the same.\<close>

definition agree_on :: "dag_address set \<Rightarrow> ('tx, 'sig) dag \<Rightarrow> ('tx, 'sig) dag \<Rightarrow> bool" where
  "agree_on A d e \<longleftrightarrow> (\<forall>x \<in> A. map_option (\<lambda>m. (vx_edges (vm_vertex m), vm_delivered m)) (dag_meta d x) =
     map_option (\<lambda>m. (vx_edges (vm_vertex m), vm_delivered m)) (dag_meta e x))"

lemma agree_onD:
  assumes "agree_on A d e" "x \<in> A" "dag_meta d x = Some m"
  shows "\<exists>m'. dag_meta e x = Some m' \<and> vx_edges (vm_vertex m') = vx_edges (vm_vertex m) \<and> vm_delivered m' = vm_delivered m"
proof -
  have "map_option (\<lambda>m. (vx_edges (vm_vertex m), vm_delivered m)) (dag_meta e x) = Some (vx_edges (vm_vertex m), vm_delivered m)"
    using assms(1) [unfolded agree_on_def, rule_format, OF assms(2)] assms(3) by simp
  then show ?thesis by auto
qed

lemma agree_delivered:
  assumes "agree_on A d e" "x \<in> A"
  shows "x \<in> delivered_set d \<longleftrightarrow> x \<in> delivered_set e"
proof -
  have "map_option (\<lambda>m. (vx_edges (vm_vertex m), vm_delivered m)) (dag_meta d x) = map_option (\<lambda>m. (vx_edges (vm_vertex m), vm_delivered m)) (dag_meta e x)"
    using assms by (simp add: agree_on_def)
  then show ?thesis by (cases "dag_meta d x"; cases "dag_meta e x") (auto simp: delivered_set_def)
qed

lemma agree_neighbors:
  assumes "agree_on A d e" "closed_by (depth_edge d max_depth) A" "a \<in> A" "dag_meta d a = Some m"
  shows "new_neighbors d max_depth a (ids_iter (vx_edges (vm_vertex m))) = new_neighbors e max_depth a (ids_iter (vx_edges (vm_vertex m)))"
proof -
  have "b \<in> delivered_set d \<longleftrightarrow> b \<in> delivered_set e"
    if "b \<in> set (map (DagAddress (addr_round a - 1)) (ids_iter (vx_edges (vm_vertex m))))" "max_depth \<le> addr_round b" for b
  proof (rule agree_delivered [OF assms(1)])
    have "depth_edge d max_depth a b" using that vertex_edges_iff [OF assms(4)] by (auto simp: depth_edge_def)
    then show "b \<in> A" using assms(2,3) by (auto simp: closed_by_def)
  qed
  then show ?thesis unfolding new_neighbors_def by (intro arg_cong [where f = rev] filter_cong) auto
qed

lemma deliver_loop_local:
  assumes "deliver_loop max_depth stack acc d = Some y" "dag_ok d" "dag_ok e" "set stack \<subseteq> A"
    and "closed_by (depth_edge d max_depth) A" "agree_on A d e"
  shows "\<exists>e'. deliver_loop max_depth stack acc e = Some (fst y, e')"
  using assms
proof (induction max_depth stack acc d y arbitrary: e rule: deliver_loop.raw_induct [rotated, consumes 1, case_names 1])
  case (1 loop max_depth stack acc d y)
  show ?case
  proof (cases stack)
    case Nil
    then show ?thesis using 1(2) by (auto simp: deliver_loop.simps)
  next
    case (Cons a st)
    then obtain m where m: "dag_meta d a = Some m" using 1(2) by (cases "dag_meta d a") auto
    have a: "a \<in> A" "set st \<subseteq> A" using 1(5) Cons by auto
    obtain m' where m': "dag_meta e a = Some m'" "vx_edges (vm_vertex m') = vx_edges (vm_vertex m)" "vm_delivered m' = vm_delivered m"
      using agree_onD [OF 1(7) a(1) m] by blast
    show ?thesis
    proof (cases "vm_delivered m")
      case True
      then have "loop max_depth st acc d = Some y" using 1(2) Cons m by simp
      then obtain e' where "deliver_loop max_depth st acc e = Some (fst y, e')" using 1(1) [of max_depth st acc d y e] 1(3,4,6,7) a(2) by blast
      then show ?thesis using True m' Cons by (simp add: deliver_loop.simps [of _ "a # st"])
    next
      case False
      let ?new = "new_neighbors d max_depth a (ids_iter (vx_edges (vm_vertex m)))"
      note push = push_undelivered_edges [OF 1(3) m] push_undelivered_edges [OF 1(4) m'(1)]
      obtain d1 where d1: "dag_get_mut a vm_deliver d = Some d1" "same_vertices d d1" "dag_meta d1 = (dag_meta d)(a \<mapsto> vm_deliver m)"
        using dag_get_mut_same [of d a m vm_deliver] m 1(3) by (auto simp: dag_ok_def vm_deliver_def)
      obtain e1 where e1: "dag_get_mut a vm_deliver e = Some e1" "same_vertices e e1" "dag_meta e1 = (dag_meta e)(a \<mapsto> vm_deliver m')"
        using dag_get_mut_same [of e a m' vm_deliver] m'(1) 1(4) by (auto simp: dag_ok_def vm_deliver_def)
      have run: "loop max_depth (?new @ st) (acc @ [a]) d1 = Some y"
        using 1(2) Cons m False d1(1) push(1) by (simp add: dag_index_meta)
      have "set (?new @ st) \<subseteq> A" using push(2) a 1(6) by (auto simp: closed_by_def)
      moreover have "agree_on A d1 e1" using 1(7) m'(2,3) by (simp add: agree_on_def d1(3) e1(3) vm_deliver_def)
      moreover have "closed_by (depth_edge d1 max_depth) A" using 1(6) depth_edge_same [OF d1(2)] by simp
      ultimately obtain e' where "deliver_loop max_depth (?new @ st) (acc @ [a]) e1 = Some (fst y, e')"
        using 1(1) [OF run same_vertices_ok [OF d1(2) 1(3)] same_vertices_ok [OF e1(2) 1(4)]] by blast
      then show ?thesis
        using False m' e1(1) push(3) agree_neighbors [OF 1(7,6) a(1) m] Cons
        by (simp add: deliver_loop.simps [of _ "a # st"] dag_index_meta)
    qed
  qed
qed

subsection \<open>Pruning\<close>

lemma u64_bound: "unat (w :: u64) \<le> u64_max"
  using unsigned_less [of w] by (simp add: less_u64_max)

lemma set_dr_prune: "set (dr_prune r) = {vm_vertex m |m. Some m \<in> set (dr_vertices r) \<and> \<not> vm_delivered m}"
  by (force simp: dr_prune_def List.map_filter_def)

text \<open>
  The layout of the rounds of a DAG that may have been pruned any number of times: one entry for every
  round from the offset to the greatest one. It is set up by \<open>dag_new\<close> and kept by \<open>new_round\<close> and by every insertion.
\<close>

definition dag_layout :: "('tx, 'sig) dag \<Rightarrow> bool" where
  "dag_layout d \<longleftrightarrow> 1 \<le> dag_offset d \<and> dag_offset d \<le> dag_max_round d \<and>
     length (dag_rounds d) = Suc (unat (dag_max_round d) - unat (dag_offset d)) \<and>
     (\<forall>r \<in> set (dag_rounds d). length (dr_vertices r) = unat (dag_n d))"

lemma layout_unpruned: "dag_shape d \<Longrightarrow> dag_max_round d \<noteq> 0 \<Longrightarrow> dag_layout d"
  using unat_pos [of "dag_max_round d"] by (simp add: dag_shape_def dag_layout_def word_le_nat_alt)

lemma layout_new_round:
  assumes "dag_layout d" "new_round d = Some d'" "dag_max_round d \<noteq> - 1"
  shows "dag_layout d'"
proof -
  have "unat (dag_max_round d + 1) = Suc (unat (dag_max_round d))" using assms(3) by (rule unat_add_one)
  with assms show ?thesis
    by (auto simp: dag_layout_def new_round_def vec_push_def dag_round_new_def word_le_nat_alt split: if_splits bind_splits)
qed

lemma layout_insert:
  assumes "dag_layout d" "dag_insert v d = Some d'"
  shows "dag_layout d'"
  using assms by (auto simp: dag_layout_def dag_insert_def dr_insert_def index_vec_def Let_def rust_assert_def
    split: if_splits bind_splits elim!: in_set_upd_cases)

lemma layout_meta:
  assumes "dag_layout d"
  shows "dag_meta d a = (if addr_creator a < dag_n d \<and> dag_offset d \<le> addr_round a \<and> addr_round a \<le> dag_max_round d
    then dr_vertices (dag_rounds d ! (unat (addr_round a) - unat (dag_offset d))) ! unat (addr_creator a) else None)"
proof (cases "dag_offset d \<le> addr_round a \<and> addr_round a \<le> dag_max_round d")
  case True
  then have i: "unat (addr_round a - dag_offset d) = unat (addr_round a) - unat (dag_offset d)" by (simp add: unat_sub)
  have lt: "unat (addr_round a) - unat (dag_offset d) < length (dag_rounds d)"
    using True assms by (auto simp: dag_layout_def word_le_nat_alt)
  then have "length (dr_vertices (dag_rounds d ! (unat (addr_round a) - unat (dag_offset d)))) = unat (dag_n d)"
    using assms by (auto simp: dag_layout_def)
  with True lt i show ?thesis
    by (auto simp: dag_meta_def get_with_meta_def round_to_index_def dr_get_eq index_vec_def rust_assert_def word_less_nat_alt word_le_nat_alt)
next
  case False
  then show ?thesis by (auto simp: dag_meta_def get_with_meta_def round_to_index_def rust_assert_def not_less not_le)
qed

lemma layout_round_vertices:
  assumes "dag_layout d" "i < length (dag_rounds d)"
  shows "Some m \<in> set (dr_vertices (dag_rounds d ! i)) \<longleftrightarrow>
    (\<exists>a. dag_meta d a = Some m \<and> unat (addr_round a) = unat (dag_offset d) + i)"
proof -
  define r where "r = dag_offset d + of_nat i"
  have len: "length (dr_vertices (dag_rounds d ! i)) = unat (dag_n d)" using assms by (simp add: dag_layout_def)
  have bound: "unat (dag_offset d) + i \<le> unat (dag_max_round d)" using assms by (auto simp: dag_layout_def word_le_nat_alt)
  then have small: "unat (dag_offset d) + i \<le> u64_max" using u64_bound [of "dag_max_round d"] by simp
  have "r = of_nat (unat (dag_offset d) + i)" by (simp add: r_def)
  then have r: "unat r = unat (dag_offset d) + i" using unat_of_nat_u64 [OF small] by simp
  have inside: "dag_offset d \<le> r" "r \<le> dag_max_round d" using r bound by (simp_all add: word_le_nat_alt)
  show ?thesis
  proof
    assume "Some m \<in> set (dr_vertices (dag_rounds d ! i))"
    then obtain j where j: "j < unat (dag_n d)" "dr_vertices (dag_rounds d ! i) ! j = Some m" using len by (auto simp: in_set_conv_nth)
    have "j \<le> u64_max" using j(1) u64_bound [of "dag_n d"] by simp
    then have "unat (of_nat j :: u64) = j" by (rule unat_of_nat_u64)
    then have "dag_meta d (DagAddress r (of_nat j)) = Some m"
      using j inside by (simp add: layout_meta [OF assms(1)] r word_less_nat_alt)
    then show "\<exists>a. dag_meta d a = Some m \<and> unat (addr_round a) = unat (dag_offset d) + i" using r by (metis dag_address.sel(1))
  next
    assume "\<exists>a. dag_meta d a = Some m \<and> unat (addr_round a) = unat (dag_offset d) + i"
    then show "Some m \<in> set (dr_vertices (dag_rounds d ! i))"
      using len by (auto simp: layout_meta [OF assms(1)] in_set_conv_nth word_less_nat_alt split: if_splits)
  qed
qed

text \<open>
  Claim C40. Pruning a DAG, however often it has been pruned before, up to a round from its offset to its
  greatest one drops exactly the rounds before the limit: their vertices are unknown afterwards, all
  others are as before, the old and the new offset are returned, and the vertices of the dropped rounds that have
  not been delivered are handed to the caller. The DAG has the layout that pruning requires again.
\<close>

theorem dag_prune_correct:
  assumes layout: "dag_layout d" and limit: "dag_offset d \<le> limit" "limit \<le> dag_max_round d"
  shows "\<exists>vs d'. dag_prune limit d = Some ((dag_offset d, limit, vs), d') \<and>
    dag_layout d' \<and> dag_offset d' = limit \<and> dag_max_round d' = dag_max_round d \<and>
    (\<forall>a. dag_meta d' a = (if addr_round a < limit then None else dag_meta d a)) \<and>
    set vs = {vm_vertex m |a m. dag_meta d a = Some m \<and> addr_round a < limit \<and> \<not> vm_delivered m}"
proof -
  let ?k = "unat limit - unat (dag_offset d)"
  let ?d = "d\<lparr>dag_rounds := drop ?k (dag_rounds d), dag_offset := limit\<rparr>"
  let ?vs = "concat (map dr_prune (take ?k (dag_rounds d)))"
  have le: "unat (dag_offset d) \<le> unat limit" "unat limit \<le> unat (dag_max_round d)" using limit by (simp_all add: word_le_nat_alt)
  have k: "?k < length (dag_rounds d)" using le layout by (simp add: dag_layout_def)
  have run: "dag_prune limit d = Some ((dag_offset d, limit, ?vs), ?d)"
    using limit k by (simp add: dag_prune_def rust_assert_def unat_sub Let_def)
  have "\<forall>r \<in> set (drop ?k (dag_rounds d)). length (dr_vertices r) = unat (dag_n d)"
    using layout in_set_dropD unfolding dag_layout_def by fast
  moreover have "1 \<le> limit" using layout limit(1) by (auto simp: dag_layout_def intro: order_trans)
  ultimately have layout': "dag_layout ?d" using layout limit le by (simp add: dag_layout_def Suc_diff_le)
  have "dag_meta ?d a = (if addr_round a < limit then None else dag_meta d a)" for a
  proof (cases "limit \<le> addr_round a")
    case True
    then have "unat limit \<le> unat (addr_round a)" "dag_offset d \<le> addr_round a" using limit(1) by (simp_all add: word_le_nat_alt)
    moreover have "\<not> addr_round a < limit" using True by simp
    ultimately show ?thesis using True le k unfolding layout_meta [OF layout'] layout_meta [OF layout] by simp
  next
    case False
    then show ?thesis unfolding layout_meta [OF layout'] by (auto simp: not_le)
  qed
  moreover have "set ?vs = {vm_vertex m |a m. dag_meta d a = Some m \<and> addr_round a < limit \<and> \<not> vm_delivered m}"
  proof (intro set_eqI iffI)
    fix v assume "v \<in> set ?vs"
    then obtain r m where r: "r \<in> set (take ?k (dag_rounds d))" "Some m \<in> set (dr_vertices r)" "v = vm_vertex m" "\<not> vm_delivered m"
      by (auto simp: set_dr_prune)
    then obtain i where i: "i < ?k" "r = dag_rounds d ! i" by (auto simp: in_set_conv_nth)
    then obtain a where a: "dag_meta d a = Some m" "unat (addr_round a) = unat (dag_offset d) + i"
      using layout_round_vertices [OF layout, of i m] r(2) k by auto
    then have "addr_round a < limit" using i(1) by (simp add: word_less_nat_alt)
    with a r show "v \<in> {vm_vertex m |a m. dag_meta d a = Some m \<and> addr_round a < limit \<and> \<not> vm_delivered m}" by blast
  next
    fix v assume "v \<in> {vm_vertex m |a m. dag_meta d a = Some m \<and> addr_round a < limit \<and> \<not> vm_delivered m}"
    then obtain a m where a: "v = vm_vertex m" "dag_meta d a = Some m" "addr_round a < limit" "\<not> vm_delivered m" by blast
    then have "unat (dag_offset d) \<le> unat (addr_round a)" by (simp add: layout_meta [OF layout] word_le_nat_alt split: if_splits)
    then obtain i where i: "unat (addr_round a) = unat (dag_offset d) + i" using le_Suc_ex by blast
    then have "i < ?k" using a(3) by (simp add: word_less_nat_alt)
    then have "Some m \<in> set (dr_vertices (dag_rounds d ! i))" "dag_rounds d ! i \<in> set (take ?k (dag_rounds d))"
      using layout_round_vertices [OF layout, of i m] a(2) i k by (auto simp: in_set_conv_nth)
    with a show "v \<in> set ?vs" by (auto simp: set_dr_prune)
  qed
  ultimately show ?thesis using run layout' by (intro exI [of _ ?vs] exI [of _ ?d]) simp
qed

subsection \<open>A DAG of two rounds\<close>

definition sample_vertex :: "round \<Rightarrow> id_set \<Rightarrow> (unit, unit) vertex" where
  "sample_vertex r es = \<lparr>vx_transactions = [()], vx_signed = \<lparr>sgv_signable = \<lparr>sv_address = DagAddress r 0,
     sv_transactions_hash = [], sv_edges = es\<rparr>, sgv_signature = (), sgv_counter = r - 1\<rparr>\<rparr>"

definition sample_dag_1 :: "(unit, unit) dag" where
  "sample_dag_1 = the (do { d \<leftarrow> dag_new 1; d \<leftarrow> dag_insert (sample_vertex 1 {||}) d; new_round d })"

definition sample_dag :: "(unit, unit) dag" where
  "sample_dag = the (dag_insert (sample_vertex 2 {|0|}) sample_dag_1)"

lemma sample_dag_1_inv: "dag_inv sample_dag_1" "delivered_set sample_dag_1 = {}"
proof -
  obtain d :: "(unit, unit) dag" where d: "dag_new 1 = Some d" "dag_inv d" "\<forall>a. dag_meta d a = None" "dag_n d = 1" "dag_max_round d = 1"
    using dag_new_inv [of 1] by blast
  have "vertex_ok d (vx_address (sample_vertex 1 {||})) (sample_vertex 1 {||})" by (simp add: vertex_ok_def sample_vertex_def)
  then obtain s d1 where d1: "dag_insert (sample_vertex 1 {||}) d = Some d1" "dag_inv d1" "dag_max_round d1 = 1"
    "dag_meta d1 = (dag_meta d)(vx_address (sample_vertex 1 {||}) \<mapsto> vertex_with_meta_new (sample_vertex 1 {||}) s)"
    using dag_insert_inv [OF d(2), of "sample_vertex 1 {||}"] d(3-5) by (auto simp: sample_vertex_def)
  then have "length (dag_rounds d1) < isize_max" by (simp add: dag_inv_def dag_ok_def dag_shape_def isize_max_def)
  then obtain d2 where d2: "new_round d1 = Some d2" "dag_inv d2" "dag_meta d2 = dag_meta d1" using new_round_inv [OF d1(2)] by blast
  then have eq: "sample_dag_1 = d2" using d(1) d1(1) by (simp add: sample_dag_1_def)
  show "dag_inv sample_dag_1" using d2(2) eq by simp
  show "delivered_set sample_dag_1 = {}"
    using insert_delivered [OF d1(4)] d(3) eq d2(3) by (simp add: delivered_set_def)
qed

lemma sample_dag_1_lookup:
  "dag_meta sample_dag_1 (DagAddress 2 0) = None" "dag_meta sample_dag_1 (DagAddress 1 0) \<noteq> None" "dag_n sample_dag_1 = 1" "dag_max_round sample_dag_1 = 2"
  "vertex_ok sample_dag_1 (DagAddress 2 0) (sample_vertex 2 {|0|})"
proof -
  show l: "dag_meta sample_dag_1 (DagAddress 2 0) = None" "dag_meta sample_dag_1 (DagAddress 1 0) \<noteq> None" "dag_n sample_dag_1 = 1" "dag_max_round sample_dag_1 = 2"
    by code_simp+
  show "vertex_ok sample_dag_1 (DagAddress 2 0) (sample_vertex 2 {|0|})" using l(2) by (simp add: vertex_ok_def sample_vertex_def)
qed

lemma sample_dag_inv: "dag_inv sample_dag" "dag_meta sample_dag (DagAddress 1 0) \<noteq> None" "dag_meta sample_dag (DagAddress 2 0) \<noteq> None"
  "delivered_set sample_dag = {}"
proof -
  have a: "vx_address (sample_vertex 2 {|0|}) = DagAddress 2 0" by (simp add: sample_vertex_def)
  obtain s d where d: "dag_insert (sample_vertex 2 {|0|}) sample_dag_1 = Some d" "dag_inv d"
    "dag_meta d = (dag_meta sample_dag_1)(DagAddress 2 0 \<mapsto> vertex_with_meta_new (sample_vertex 2 {|0|}) s)"
    using dag_insert_inv [OF sample_dag_1_inv(1), of "sample_vertex 2 {|0|}"] sample_dag_1_lookup unfolding a by auto
  then show "dag_inv sample_dag" "dag_meta sample_dag (DagAddress 1 0) \<noteq> None" "dag_meta sample_dag (DagAddress 2 0) \<noteq> None"
    using sample_dag_1_lookup by (simp_all add: sample_dag_def)
  show "delivered_set sample_dag = {}"
    using insert_delivered [OF d(3)] sample_dag_1_lookup(1) sample_dag_1_inv(2) d(1) by (simp add: sample_dag_def)
qed

lemma sample_dag_facts: "dag_ok sample_dag" "explored_below sample_dag" "dag_reaches_ok sample_dag_1" "dag_ok sample_dag_1"
  using sample_dag_inv(1) sample_dag_1_inv(1) by (simp_all add: dag_inv_def)

theorem deliver_from_correct_witness:
  "\<exists>ds d'. deliver_from (DagAddress 2 0) 0 sample_dag = Some (ds, d') \<and> delivered_set d' = set ds"
  using deliver_from_correct [OF sample_dag_facts(1) sample_dag_inv(3), of 0] sample_dag_inv(4)
  by (auto simp: closed_by_def)

theorem has_path_correct_witness:
  "\<exists>d'. has_path (DagAddress 2 0) (DagAddress 1 0) sample_dag = Some (dag_path sample_dag (DagAddress 2 0) (DagAddress 1 0), d')"
proof -
  have "dag_explored_from sample_dag < addr_round (DagAddress 1 0)" "addr_round (DagAddress 1 0) < addr_round (DagAddress 2 0)" by code_simp+
  then show ?thesis using has_path_correct [OF sample_dag_facts(1,2) sample_dag_inv(3,2)] by blast
qed

theorem dag_insert_correct_witness:
  "\<exists>s d'. dag_insert (sample_vertex 2 {|0|}) sample_dag_1 = Some d' \<and> dag_ok d' \<and>
    dag_meta d' = (dag_meta sample_dag_1)(DagAddress 2 0 \<mapsto> vertex_with_meta_new (sample_vertex 2 {|0|}) s)"
  using dag_insert_correct [OF sample_dag_facts(4,3), of "sample_vertex 2 {|0|}"] sample_dag_1_lookup
  by (auto simp: sample_vertex_def)

theorem dag_prune_correct_witness:
  "\<exists>d vs d' vs' d''. new_round sample_dag = Some d \<and> dag_prune 2 d = Some ((1, 2, vs), d') \<and>
     dag_prune 3 d' = Some ((2, 3, vs'), d'') \<and> dag_meta d'' (DagAddress 2 0) = None"
proof -
  define d where "d = the (new_round sample_dag)"
  have new: "new_round sample_dag = Some d" "dag_max_round d = 3" "dag_offset d = 1" "dag_max_round sample_dag \<noteq> 0" "dag_max_round sample_dag \<noteq> - 1"
    unfolding d_def by code_simp+
  have "dag_shape sample_dag" using sample_dag_facts(1) by (simp add: dag_ok_def)
  then have layout: "dag_layout d" using layout_new_round [OF layout_unpruned new(1,5)] new(4) by simp
  obtain vs d' where d': "dag_prune 2 d = Some ((1, 2, vs), d')" "dag_layout d'" "dag_offset d' = 2" "dag_max_round d' = 3"
    using dag_prune_correct [OF layout, of 2] new(2,3) by auto
  obtain vs' d'' where "dag_prune 3 d' = Some ((2, 3, vs'), d'')" "dag_meta d'' (DagAddress 2 0) = None"
    using dag_prune_correct [OF d'(2), of 3] d'(3,4) by fastforce
  with new(1) d'(1) show ?thesis by blast
qed

end
