(* ===== verification/Nxbft_Enclave.thy ===== *)
theory Nxbft_Enclave
  imports Nxbft_Vertex
begin

text \<open>
  The trusted part of NxBFT: \<^verbatim>\<open>nxbft-base/src/enclave/mod.rs\<close> (the trait \<open>Enclave\<close>, the automaton \<open>EnclaveAutomata\<close>
  behind every implementation) and \<^verbatim>\<open>nxbft-base/src/enclave/simple.rs\<close>.

  The trait \<open>Enclave\<close> is the record \<open>enclave_ops\<close>; \<open>&mut self\<close> is state passing and a panic is \<open>None\<close>. The
  record \<open>automata_env\<close> holds what the automaton calls: the trait \<open>EnclaveTrusted\<close>, the generator \<open>ChaCha12Rng\<close>
  with the distribution \<open>Uniform\<close>, and the interval map \<open>RangeInclusiveMap\<close>.
\<close>

section \<open>The trait Enclave\<close>

datatype ('hs, 'err) init_handshake_result =
  IH_Ok 'hs
| IH_DuplicateHello
| IH_InvalidAttestation
| IH_EnclaveError 'err

datatype 'err handshake_result =
  HR_MissingAttestation
| HR_DuplicateReply
| HR_InvalidHandshakeEncryption
| HR_Ok
| HR_EnclaveError 'err

record ('enc, 'att, 'hs, 'sig, 'exp, 'err) enclave_ops =
  enc_new :: "u64 \<Rightarrow> 'enc option"
  enc_get_n :: "'enc \<Rightarrow> u64"
  enc_init :: "'enc \<Rightarrow> (('err + unit) \<times> 'enc) option"
  enc_get_attestation_certificate :: "'enc \<Rightarrow> (('err + 'att) \<times> 'enc) option"
  enc_verify_attestation :: "'enc \<Rightarrow> 'att \<Rightarrow> ('err + bool) option"
  enc_init_peer_handshake :: "replica_id \<Rightarrow> 'att \<Rightarrow> 'enc \<Rightarrow> (('hs, 'err) init_handshake_result \<times> 'enc) option"
  enc_complete_peer_handshake :: "replica_id \<Rightarrow> 'hs \<Rightarrow> 'enc \<Rightarrow> ('err handshake_result \<times> 'enc) option"
  enc_export :: "'enc \<Rightarrow> ('err + 'exp) option"
  enc_recover :: "'exp \<Rightarrow> 'enc \<Rightarrow> (('err + unit) \<times> 'enc) option"
  enc_replace_peer :: "replica_id \<Rightarrow> 'att \<Rightarrow> round \<Rightarrow> 'enc \<Rightarrow> (('err + bool) \<times> 'enc) option"
  enc_sign :: "signable_vertex \<Rightarrow> 'enc \<Rightarrow> (('err + 'sig \<times> u64) \<times> 'enc) option"
  enc_toss :: "'sig signed_vertex list \<Rightarrow> 'enc \<Rightarrow> (('err + replica_id) \<times> 'enc) option"
  enc_verify :: "'enc \<Rightarrow> replica_id \<Rightarrow> u64 \<Rightarrow> signable_vertex \<Rightarrow> 'sig \<Rightarrow> ('err + bool) option"
  enc_is_ready :: "'enc \<Rightarrow> bool"

section \<open>The automaton\<close>

datatype ('att, 'rm) peer =
  Peer_None
| Peer_Attested 'att
| Peer_HandshakeComplete 'att 'rm

fun peer_unwrap_complete :: "('att, 'rm) peer \<Rightarrow> ('att \<times> 'rm) option" where
  "peer_unwrap_complete (Peer_HandshakeComplete att rm) = Some (att, rm)"
| "peer_unwrap_complete _ = None"

datatype 'e automata_error =
  AE_InvalidPeerId
| AE_NotReady
| AE_NotEnoughValidVertices
| AE_InvalidVertexRound
| AE_EnclaveTrusted 'e

record ('att, 'rng, 'rm) enclave_lib =
  rng_from_seed :: "bytes \<Rightarrow> 'rng"
  uniform_sample :: "u64 \<Rightarrow> 'rng \<Rightarrow> u64 \<times> 'rng"
  rm_new :: 'rm
  rm_insert :: "u64 \<Rightarrow> u64 \<Rightarrow> 'att \<Rightarrow> 'rm \<Rightarrow> 'rm option"
  rm_get :: "'rm \<Rightarrow> u64 \<Rightarrow> 'att option"
  rm_last_range_value :: "'rm \<Rightarrow> ((u64 \<times> u64) \<times> 'att) option"

record ('t, 'att, 'e, 'hs, 'sig, 'rng, 'rm) automata_env = "('att, 'rng, 'rm) enclave_lib" +
  tr_gen_seed_share :: "'t \<Rightarrow> 'e + bytes"
  tr_seal_seed_share :: "'t \<Rightarrow> 'att \<Rightarrow> bytes \<Rightarrow> 'e + 'hs"
  tr_unseal_seed_share :: "'t \<Rightarrow> 'hs \<Rightarrow> 'att \<Rightarrow> 'e + bytes"
  tr_sign :: "bytes \<Rightarrow> u64 \<Rightarrow> 't \<Rightarrow> ('e + 'sig) \<times> 't"
  tr_verify :: "'att \<Rightarrow> u64 \<Rightarrow> bytes \<Rightarrow> 'sig \<Rightarrow> 'e + bool"
  tr_get_attestation_certificate :: "'t \<Rightarrow> ('e + 'att) \<times> 't"

record ('t, 'att, 'rng, 'rm) enclave_automata =
  ea_n :: u64
  ea_quorum :: u64
  ea_peers_added :: u64
  ea_c :: u64
  ea_peers :: "('att, 'rm) peer list"
  ea_seed :: bytes
  ea_seed_share :: "bytes option"
  ea_rng :: "'rng option"
  ea_uniform :: u64
  ea_next_toss :: round
  ea_enclave :: 't

record ('att, 'rm) automata_export =
  ax_seed :: bytes
  ax_next_toss :: round
  ax_n :: u64
  ax_peers :: "('att, 'rm) peer list"

definition ea_new :: "u64 \<Rightarrow> 't \<Rightarrow> ('t, 'att, 'rng, 'rm) enclave_automata option" where
  "ea_new n enclave =
     do {
       rust_assert (3 \<le> n);
       Some \<lparr>ea_n = n, ea_quorum = n div 2 + 1, ea_peers_added = 0, ea_c = 0, ea_peers = replicate (unat n) Peer_None,
         ea_seed = replicate 32 0, ea_seed_share = None, ea_rng = None, ea_uniform = n, ea_next_toss = 4, ea_enclave = enclave\<rparr>
     }"

definition ea_init ::
    "('t, 'att, 'e, 'hs, 'sig, 'rng, 'rm) automata_env \<Rightarrow> ('t, 'att, 'rng, 'rm) enclave_automata \<Rightarrow>
     (('e automata_error + unit) \<times> ('t, 'att, 'rng, 'rm) enclave_automata) option" where
  "ea_init V e =
     do {
       rust_assert (ea_seed_share e = None);
       Some (case tr_gen_seed_share V (ea_enclave e) of
           Inl err \<Rightarrow> (Inl (AE_EnclaveTrusted err), e)
         | Inr share \<Rightarrow> (Inr (), e\<lparr>ea_seed_share := Some share\<rparr>))
     }"

definition ea_is_ready :: "('t, 'att, 'rng, 'rm) enclave_automata \<Rightarrow> bool" where
  "ea_is_ready e \<longleftrightarrow> ea_rng e \<noteq> None"

definition ea_init_peer_handshake ::
    "('t, 'att, 'e, 'hs, 'sig, 'rng, 'rm) automata_env \<Rightarrow> replica_id \<Rightarrow> 'att \<Rightarrow> ('t, 'att, 'rng, 'rm) enclave_automata \<Rightarrow>
     (('hs, 'e automata_error) init_handshake_result \<times> ('t, 'att, 'rng, 'rm) enclave_automata) option" where
  "ea_init_peer_handshake V peer_id attestation e =
     do {
       seed_share \<leftarrow> ea_seed_share e;
       if ea_n e \<le> peer_id then Some (IH_EnclaveError AE_InvalidPeerId, e)
       else do {
         p \<leftarrow> index_vec (ea_peers e) (unat peer_id);
         Some (case p of
             Peer_None \<Rightarrow>
               (case tr_seal_seed_share V (ea_enclave e) attestation seed_share of
                  Inr share \<Rightarrow> (IH_Ok share, e\<lparr>ea_peers := (ea_peers e)[unat peer_id := Peer_Attested attestation]\<rparr>)
                | Inl err \<Rightarrow> (IH_EnclaveError (AE_EnclaveTrusted err), e))
           | _ \<Rightarrow> (IH_DuplicateHello, e))
       }
     }"

definition ea_export ::
    "('t, 'att, 'rng, 'rm) enclave_automata \<Rightarrow> 'e automata_error + ('att, 'rm) automata_export" where
  "ea_export e =
     (if \<not> ea_is_ready e then Inl AE_NotReady
      else Inr \<lparr>ax_seed = ea_seed e, ax_next_toss = ea_next_toss e, ax_n = ea_n e, ax_peers = ea_peers e\<rparr>)"

definition check_ready ::
    "('t, 'att, 'e, 'hs, 'sig, 'rng, 'rm) automata_env \<Rightarrow> ('t, 'att, 'rng, 'rm) enclave_automata \<Rightarrow>
     ('t, 'att, 'rng, 'rm) enclave_automata option" where
  "check_ready V e =
     do {
       rust_assert (ea_rng e = None);
       Some (if ea_peers_added e < ea_n e then e else e\<lparr>ea_rng := Some (rng_from_seed V (ea_seed e))\<rparr>)
     }"

definition ea_rand ::
    "('t, 'att, 'e, 'hs, 'sig, 'rng, 'rm) automata_env \<Rightarrow> ('t, 'att, 'rng, 'rm) enclave_automata \<Rightarrow>
     (u64 \<times> ('t, 'att, 'rng, 'rm) enclave_automata) option" where
  "ea_rand V e =
     do {
       rng \<leftarrow> ea_rng e;
       let (x, rng) = uniform_sample V (ea_uniform e) rng;
       Some (x, e\<lparr>ea_next_toss := ea_next_toss e + 4, ea_rng := Some rng\<rparr>)
     }"

text \<open>The loop of \<open>recover\<close> does not end if the exported round is beyond the last multiple of four.\<close>

partial_function (option) recover_loop ::
    "('t, 'att, 'e, 'hs, 'sig, 'rng, 'rm) automata_env \<Rightarrow> round \<Rightarrow> ('t, 'att, 'rng, 'rm) enclave_automata \<Rightarrow>
     ('t, 'att, 'rng, 'rm) enclave_automata option" where
  "recover_loop V next_toss e =
     (if ea_next_toss e < next_toss
      then Option.bind (ea_rand V e) (\<lambda>(_, e). recover_loop V next_toss e)
      else Some e)"

definition ea_recover ::
    "('t, 'att, 'e, 'hs, 'sig, 'rng, 'rm) automata_env \<Rightarrow> ('att, 'rm) automata_export \<Rightarrow>
     ('t, 'att, 'rng, 'rm) enclave_automata \<Rightarrow> (('e automata_error + unit) \<times> ('t, 'att, 'rng, 'rm) enclave_automata) option" where
  "ea_recover V export e =
     do {
       rust_assert (ea_n e = ax_n export);
       e \<leftarrow> check_ready V (e\<lparr>ea_peers := ax_peers export, ea_peers_added := ea_n e, ea_seed := ax_seed export\<rparr>);
       e \<leftarrow> recover_loop V (ax_next_toss export) e;
       rust_assert (ea_next_toss e = ax_next_toss export);
       Some (Inr (), e)
     }"

definition ea_replace_peer ::
    "('t, 'att, 'e, 'hs, 'sig, 'rng, 'rm) automata_env \<Rightarrow> replica_id \<Rightarrow> 'att \<Rightarrow> round \<Rightarrow>
     ('t, 'att, 'rng, 'rm) enclave_automata \<Rightarrow> (('e automata_error + bool) \<times> ('t, 'att, 'rng, 'rm) enclave_automata) option" where
  "ea_replace_peer V peer_id attestation max_round e =
     (if \<not> ea_is_ready e then Some (Inr False, e)
      else do {
        p \<leftarrow> index_vec (ea_peers e) (unat peer_id);
        (old, rm) \<leftarrow> peer_unwrap_complete p;
        let start = (case rm_last_range_value V rm of Some ((_, range_end), _) \<Rightarrow> range_end | None \<Rightarrow> 0);
        rm \<leftarrow> rm_insert V start max_round old rm;
        Some (Inr True, e\<lparr>ea_peers := (ea_peers e)[unat peer_id := Peer_HandshakeComplete attestation rm]\<rparr>)
      })"

definition xor_seed :: "bytes \<Rightarrow> bytes \<Rightarrow> bytes" where
  "xor_seed seed share = map2 xor seed share @ drop (length share) seed"

definition ea_complete_peer_handshake ::
    "('t, 'att, 'e, 'hs, 'sig, 'rng, 'rm) automata_env \<Rightarrow> replica_id \<Rightarrow> 'hs \<Rightarrow> ('t, 'att, 'rng, 'rm) enclave_automata \<Rightarrow>
     ('e automata_error handshake_result \<times> ('t, 'att, 'rng, 'rm) enclave_automata) option" where
  "ea_complete_peer_handshake V peer_id handshake e =
     (if ea_n e \<le> peer_id then Some (HR_EnclaveError AE_InvalidPeerId, e)
      else do {
        p \<leftarrow> index_vec (ea_peers e) (unat peer_id);
        case p of
          Peer_None \<Rightarrow> Some (HR_MissingAttestation, e)
        | Peer_HandshakeComplete _ _ \<Rightarrow> Some (HR_DuplicateReply, e)
        | Peer_Attested att \<Rightarrow>
            (case tr_unseal_seed_share V (ea_enclave e) handshake att of
               Inl err \<Rightarrow> Some (HR_EnclaveError (AE_EnclaveTrusted err), e)
             | Inr share \<Rightarrow> do {
                 e \<leftarrow> check_ready V (e\<lparr>ea_seed := xor_seed (ea_seed e) share, ea_peers_added := ea_peers_added e + 1,
                   ea_peers := (ea_peers e)[unat peer_id := Peer_HandshakeComplete att (rm_new V)]\<rparr>);
                 Some (HR_Ok, e)
               })
      })"

definition ea_sign ::
    "('t, 'att, 'e, 'hs, 'sig, 'rng, 'rm) automata_env \<Rightarrow> bytes \<Rightarrow> ('t, 'att, 'rng, 'rm) enclave_automata \<Rightarrow>
     ('e automata_error + 'sig \<times> u64) \<times> ('t, 'att, 'rng, 'rm) enclave_automata" where
  "ea_sign V message_hash e =
     (if \<not> ea_is_ready e then (Inl AE_NotReady, e)
      else let e = e\<lparr>ea_c := ea_c e + 1\<rparr>; (res, enclave) = tr_sign V message_hash (ea_c e - 1) (ea_enclave e); e = e\<lparr>ea_enclave := enclave\<rparr>
        in case res of
             Inl err \<Rightarrow> (Inl (AE_EnclaveTrusted err), e)
           | Inr sig \<Rightarrow> (Inr (sig, ea_c e - 1), e))"

definition ea_verify ::
    "('t, 'att, 'e, 'hs, 'sig, 'rng, 'rm) automata_env \<Rightarrow> ('tx, 'z) tx_scheme_scheme \<Rightarrow> ('t, 'att, 'rng, 'rm) enclave_automata \<Rightarrow>
     replica_id \<Rightarrow> u64 \<Rightarrow> signable_vertex \<Rightarrow> 'sig \<Rightarrow> ('e automata_error + bool) option" where
  "ea_verify V T e peer_id counter message signature =
     (if ea_n e \<le> peer_id then Some (Inl AE_InvalidPeerId)
      else if \<not> ea_is_ready e then Some (Inl AE_NotReady)
      else do {
        p \<leftarrow> index_vec (ea_peers e) (unat peer_id);
        (current_attestation, old_attestations) \<leftarrow> peer_unwrap_complete p;
        let attestation = (case rm_get V old_attestations (addr_round (sv_address message)) of
            Some attestation \<Rightarrow> attestation
          | None \<Rightarrow> current_attestation);
        Some (case tr_verify V attestation counter (signable_vertex_to_hash T message) signature of
            Inl err \<Rightarrow> Inl (AE_EnclaveTrusted err)
          | Inr b \<Rightarrow> Inr b)
      })"

fun toss_valid ::
    "('t, 'att, 'e, 'hs, 'sig, 'rng, 'rm) automata_env \<Rightarrow> ('tx, 'z) tx_scheme_scheme \<Rightarrow> ('t, 'att, 'rng, 'rm) enclave_automata \<Rightarrow>
     'sig signed_vertex list \<Rightarrow> u64 \<Rightarrow> replica_id hash_set \<Rightarrow> ('e automata_error + u64) option" where
  "toss_valid V T e [] valid seen = Some (Inr valid)"
| "toss_valid V T e (v # proof) valid seen =
     (let creator = addr_creator (sv_address (sgv_signable v)); r = addr_round (sv_address (sgv_signable v))
      in if creator \<in> set seen \<or> r \<noteq> ea_next_toss e then toss_valid V T e proof valid seen
         else do {
           res \<leftarrow> ea_verify V T e creator (sgv_counter v) (sgv_signable v) (sgv_signature v);
           case res of
             Inl err \<Rightarrow> Some (Inl err)
           | Inr b \<Rightarrow> if b then toss_valid V T e proof (valid + 1) (hs_insert creator seen) else toss_valid V T e proof valid seen
         })"

definition ea_toss ::
    "('t, 'att, 'e, 'hs, 'sig, 'rng, 'rm) automata_env \<Rightarrow> ('tx, 'z) tx_scheme_scheme \<Rightarrow> 'sig signed_vertex list \<Rightarrow>
     ('t, 'att, 'rng, 'rm) enclave_automata \<Rightarrow> (('e automata_error + replica_id) \<times> ('t, 'att, 'rng, 'rm) enclave_automata) option" where
  "ea_toss V T proof e =
     do {
       res \<leftarrow> toss_valid V T e proof 0 [];
       case res of
         Inl err \<Rightarrow> Some (Inl err, e)
       | Inr valid \<Rightarrow>
           if valid < ea_quorum e then Some (Inl AE_NotEnoughValidVertices, e)
           else do { (x, e) \<leftarrow> ea_rand V e; Some (Inr x, e) }
     }"

definition ea_get_attestation_certificate ::
    "('t, 'att, 'e, 'hs, 'sig, 'rng, 'rm) automata_env \<Rightarrow> ('t, 'att, 'rng, 'rm) enclave_automata \<Rightarrow>
     ('e automata_error + 'att) \<times> ('t, 'att, 'rng, 'rm) enclave_automata" where
  "ea_get_attestation_certificate V e =
     (case tr_get_attestation_certificate V (ea_enclave e) of
        (Inl err, t) \<Rightarrow> (Inl (AE_EnclaveTrusted err), e\<lparr>ea_enclave := t\<rparr>)
      | (Inr cert, t) \<Rightarrow> (Inr cert, e\<lparr>ea_enclave := t\<rparr>))"

section \<open>The simple enclave\<close>

record 'id simple_enclave_trusted =
  st_enclave_id :: 'id

datatype 'id enclave_signature = EnclaveSignature 'id u64

datatype 'ge simple_enclave_error = SE_Random 'ge

text \<open>\<open>random\<close> is what \<open>getrandom\<close> answers.\<close>

definition simple_env ::
    "'ge + bytes \<Rightarrow> ('id, 'rng, 'rm) enclave_lib \<Rightarrow>
     ('id simple_enclave_trusted, 'id, 'ge simple_enclave_error, bytes, 'id enclave_signature, 'rng, 'rm) automata_env" where
  "simple_env random L =
     \<lparr>rng_from_seed = rng_from_seed L, uniform_sample = uniform_sample L, rm_new = rm_new L, rm_insert = rm_insert L,
      rm_get = rm_get L, rm_last_range_value = rm_last_range_value L,
      tr_gen_seed_share = (\<lambda>_. case random of Inl err \<Rightarrow> Inl (SE_Random err) | Inr share \<Rightarrow> Inr share),
      tr_seal_seed_share = (\<lambda>_ _ share. Inr share),
      tr_unseal_seed_share = (\<lambda>_ handshake _. Inr handshake),
      tr_sign = (\<lambda>_ counter t. (Inr (EnclaveSignature (st_enclave_id t) counter), t)),
      tr_verify = (\<lambda>attestation counter _ signature.
        (case signature of EnclaveSignature enclave_id c \<Rightarrow> Inr (counter = c \<and> attestation = enclave_id))),
      tr_get_attestation_certificate = (\<lambda>t. (Inr (st_enclave_id t), t))\<rparr>"

text \<open>
  \<open>SimpleEnclave\<close> hands every operation to its automaton. \<open>enclave_id\<close> is what \<open>Uuid::new_v4\<close> answers.
\<close>

definition simple_enclave ::
    "'id \<Rightarrow> 'ge + bytes \<Rightarrow> ('id, 'rng, 'rm) enclave_lib \<Rightarrow> ('tx, 'z) tx_scheme_scheme \<Rightarrow>
     (('id simple_enclave_trusted, 'id, 'rng, 'rm) enclave_automata, 'id, bytes, 'id enclave_signature,
      ('id, 'rm) automata_export, 'ge simple_enclave_error automata_error) enclave_ops" where
  "simple_enclave enclave_id random L T =
     (let V = simple_env random L
      in \<lparr>enc_new = (\<lambda>n. ea_new n \<lparr>st_enclave_id = enclave_id\<rparr>),
          enc_get_n = ea_n,
          enc_init = ea_init V,
          enc_get_attestation_certificate = (\<lambda>e. Some (ea_get_attestation_certificate V e)),
          enc_verify_attestation = (\<lambda>_ _. Some (Inr True)),
          enc_init_peer_handshake = ea_init_peer_handshake V,
          enc_complete_peer_handshake = ea_complete_peer_handshake V,
          enc_export = (\<lambda>e. Some (ea_export e)),
          enc_recover = ea_recover V,
          enc_replace_peer = ea_replace_peer V,
          enc_sign = (\<lambda>v e. Some (ea_sign V (signable_vertex_to_hash T v) e)),
          enc_toss = ea_toss V T,
          enc_verify = ea_verify V T,
          enc_is_ready = ea_is_ready\<rparr>)"

end
