(* ===== verification/Nxbft_Output.thy ===== *)
theory Nxbft_Output
  imports Nxbft_Enclave
begin

text \<open>
  Messages and output of an NxBFT replica (\<^verbatim>\<open>nxbft/src/message.rs\<close>, \<^verbatim>\<open>nxbft/src/output.rs\<close>). The texts that
  \<open>Display\<close> prints into verbose messages are built as in the source. The n-th call of \<open>Instant::now\<close> gives the
  n-th reading of a clock, in nanoseconds.
\<close>

section \<open>Time and printing\<close>

record clock =
  clk_reading :: "nat \<Rightarrow> nat"
  clk_pos :: nat

definition clock_now :: "clock \<Rightarrow> nat \<times> clock" where
  "clock_now c = (clk_reading c (clk_pos c), c\<lparr>clk_pos := clk_pos c + 1\<rparr>)"

definition clock_elapsed :: "nat \<Rightarrow> clock \<Rightarrow> nat \<times> clock" where
  "clock_elapsed since c = (case clock_now c of (now, c) \<Rightarrow> (now - since, c))"

fun show_digits :: "nat \<Rightarrow> nat \<Rightarrow> string" where
  "show_digits 0 n = []"
| "show_digits (Suc fuel) n = (if n < 10 then [] else show_digits fuel (n div 10)) @ [char_of (48 + n mod 10)]"

definition show_u64 :: "u64 \<Rightarrow> string" where
  "show_u64 w = show_digits 20 (unat w)"

definition show_id :: "string \<Rightarrow> u64 \<Rightarrow> string" where
  "show_id name w = name @ ''('' @ show_u64 w @ '')''"

section \<open>Messages\<close>

record ('tx, 'sig) signed_message =
  sm_payload :: "('tx, 'sig) vertex"

abbreviation sm_creator :: "('tx, 'sig) signed_message \<Rightarrow> replica_id" where
  "sm_creator m \<equiv> vx_creator (sm_payload m)"

abbreviation sm_counter :: "('tx, 'sig) signed_message \<Rightarrow> u64" where
  "sm_counter m \<equiv> vx_counter (sm_payload m)"

abbreviation sm_signature :: "('tx, 'sig) signed_message \<Rightarrow> 'sig" where
  "sm_signature m \<equiv> vx_signature (sm_payload m)"

abbreviation sm_signable :: "('tx, 'sig) signed_message \<Rightarrow> signable_vertex" where
  "sm_signable m \<equiv> sgv_signable (vx_signed (sm_payload m))"

record ('tx, 'att, 'sig) recovery_proposal =
  rpr_for_id :: replica_id
  rpr_for_attestation :: 'att
  rpr_messages :: "('tx, 'sig) signed_message list"

record ('tx, 'att, 'sig) recovery_commit =
  rcm_for_id :: replica_id
  rcm_for_attestation :: 'att
  rcm_messages :: "('tx, 'sig) signed_message list"

datatype ('tx, 'att, 'hs, 'sig) nx_message =
  M_Hello 'att
| M_HelloEcho replica_id 'att
| M_HelloReply 'hs
| M_Ready
| M_Signed "('tx, 'sig) signed_message"
| M_VertexRequest dag_address
| M_RecoveryRequest 'att
| M_RecoveryProposal "('tx, 'att, 'sig) recovery_proposal"
| M_RecoveryCommit "('tx, 'att, 'sig) recovery_commit"

record ('tx, 'att, 'hs, 'sig) nx_peer_message =
  npm_from :: replica_id
  npm_message :: "('tx, 'att, 'hs, 'sig) nx_message"

definition payload_to_string :: "('tx, 'sig) vertex \<Rightarrow> string" where
  "payload_to_string v = ''Vertex(r: '' @ show_id ''Round'' (vx_round v) @ '', p: '' @ show_u64 (vx_creator v) @ '')''"

definition signed_message_to_string :: "('tx, 'sig) signed_message \<Rightarrow> string" where
  "signed_message_to_string m =
     ''NonEquivocationMessage('' @ show_id ''ReplicaId'' (sm_creator m) @ ''): '' @ payload_to_string (sm_payload m)"

section \<open>State messages\<close>

datatype vertex_timeout =
  VT_Set nat
| VT_Cancel
| VT_None

datatype 'err nx_error =
  NE_EnclaveError 'err
| NE_NotReady

datatype peer_error_type =
  PE_InvalidSignature
| PE_InvalidVertexEdgesRound1
| PE_InvalidVertexEdges
| PE_UnknownVertexRequest
| PE_InvalidAttestation
| PE_DuplicateHelloReply
| PE_InvalidHandshakeEncryption
| PE_DuplicateReady
| PE_DuplicateHello
| PE_AttestationEquivocation replica_id
| PE_DuplicateHelloEcho
| PE_InvalidFrom
| PE_InvalidRelayCreator replica_id
| PE_DuplicateRecoveryProposal
| PE_DuplicateRecoveryCommit

datatype nx_consensus =
  Consensus_UnknownWaveLeader
| Consensus_DirectCommitRuleViolated
| Consensus_Decided "wave list" "dag_address list" "dag_address list"
| Consensus_RoundTransition round
| Consensus_CatchUp u64

datatype nx_broadcast = Broadcast_VertexRequest round replica_id

datatype nx_verbose =
  V_ReceivedHello replica_id
| V_ReceivedHelloReply replica_id
| V_HelloReplyBeforeHello replica_id
| V_CachedHelloReply replica_id
| V_ReceivedHelloEcho replica_id replica_id
| V_BufferedVertex dag_address
| V_NonEquivocationBroadcastReceive replica_id string
| V_NonEquivocationBroadcastDeliver replica_id string
| V_ReceivedDuplicate replica_id dag_address
| V_VertexAdded dag_address
| V_OwnRecoveryIgnore string
| V_PeerRecoveryIgnore replica_id string
| V_IgnoreOutdatedRecoveryProposal replica_id

datatype 'err state_message =
  SM_Error "'err nx_error"
| SM_PeerError replica_id peer_error_type
| SM_Consensus nx_consensus
| SM_Broadcast nx_broadcast
| SM_Ready
| SM_Verbose nx_verbose

section \<open>Output\<close>

record ('tx, 'att, 'hs, 'sig, 'err) nx_output =
  no_broadcasts :: "('tx, 'att, 'hs, 'sig) nx_peer_message list"
  no_unicasts :: "(replica_id \<times> ('tx, 'att, 'hs, 'sig) nx_peer_message) list"
  no_state_messages :: "'err state_message list"
  no_vertex_timeout :: vertex_timeout
  no_delivery :: "'tx list"
  no_backup_enclave :: bool
  no_decision_times :: "nat list"

definition no_is_empty :: "('tx, 'att, 'hs, 'sig, 'err) nx_output \<Rightarrow> bool" where
  "no_is_empty out \<longleftrightarrow> no_broadcasts out = [] \<and> no_unicasts out = [] \<and> no_state_messages out = [] \<and>
     no_vertex_timeout out = VT_None \<and> no_delivery out = [] \<and> \<not> no_backup_enclave out"

record ('tx, 'att, 'hs, 'sig, 'err) unreflected_output = "('tx, 'att, 'hs, 'sig, 'err) nx_output" +
  uo_reflection_messages :: "('tx, 'att, 'hs, 'sig) nx_peer_message list"
  uo_me :: replica_id

definition uo_new :: "replica_id \<Rightarrow> ('tx, 'att, 'hs, 'sig, 'err) unreflected_output" where
  "uo_new me = \<lparr>no_broadcasts = [], no_unicasts = [], no_state_messages = [], no_vertex_timeout = VT_None, no_delivery = [],
     no_backup_enclave = False, no_decision_times = [], uo_reflection_messages = [], uo_me = me\<rparr>"

definition uo_broadcast ::
    "('tx, 'att, 'hs, 'sig) nx_peer_message \<Rightarrow> ('tx, 'att, 'hs, 'sig, 'err) unreflected_output \<Rightarrow>
     ('tx, 'att, 'hs, 'sig, 'err) unreflected_output" where
  "uo_broadcast pm out =
     out\<lparr>no_broadcasts := no_broadcasts out @ [pm], uo_reflection_messages := uo_reflection_messages out @ [pm]\<rparr>"

definition uo_unicast ::
    "replica_id \<Rightarrow> ('tx, 'att, 'hs, 'sig) nx_peer_message \<Rightarrow> ('tx, 'att, 'hs, 'sig, 'err) unreflected_output \<Rightarrow>
     ('tx, 'att, 'hs, 'sig, 'err) unreflected_output" where
  "uo_unicast to pm out =
     (if to = uo_me out then out\<lparr>uo_reflection_messages := uo_reflection_messages out @ [pm]\<rparr>
      else out\<lparr>no_unicasts := no_unicasts out @ [(to, pm)]\<rparr>)"

definition uo_state_message ::
    "'err state_message \<Rightarrow> ('tx, 'att, 'hs, 'sig, 'err) unreflected_output \<Rightarrow> ('tx, 'att, 'hs, 'sig, 'err) unreflected_output" where
  "uo_state_message sm out = out\<lparr>no_state_messages := no_state_messages out @ [sm]\<rparr>"

definition uo_append_delivery ::
    "'tx \<Rightarrow> ('tx, 'att, 'hs, 'sig, 'err) unreflected_output \<Rightarrow> ('tx, 'att, 'hs, 'sig, 'err) unreflected_output" where
  "uo_append_delivery tx out = out\<lparr>no_delivery := no_delivery out @ [tx]\<rparr>"

definition uo_set_timeout ::
    "nat \<Rightarrow> ('tx, 'att, 'hs, 'sig, 'err) unreflected_output \<Rightarrow> ('tx, 'att, 'hs, 'sig, 'err) unreflected_output" where
  "uo_set_timeout t out = out\<lparr>no_vertex_timeout := VT_Set t\<rparr>"

definition uo_cancel_timeout ::
    "('tx, 'att, 'hs, 'sig, 'err) unreflected_output \<Rightarrow> ('tx, 'att, 'hs, 'sig, 'err) unreflected_output" where
  "uo_cancel_timeout out = out\<lparr>no_vertex_timeout := VT_None\<rparr>"

definition uo_set_backup_enclave ::
    "('tx, 'att, 'hs, 'sig, 'err) unreflected_output \<Rightarrow> ('tx, 'att, 'hs, 'sig, 'err) unreflected_output" where
  "uo_set_backup_enclave out = out\<lparr>no_backup_enclave := True\<rparr>"

definition uo_log_decision_time ::
    "nat \<Rightarrow> ('tx, 'att, 'hs, 'sig, 'err) unreflected_output \<Rightarrow> ('tx, 'att, 'hs, 'sig, 'err) unreflected_output" where
  "uo_log_decision_time now out = out\<lparr>no_decision_times := no_decision_times out @ [now]\<rparr>"

end
