(* ===== verification/Nxbft_Replica.thy ===== *)
theory Nxbft_Replica
  imports Nxbft_Dag_Paths Nxbft_Output Heaps_Model
begin

text \<open>
  A replica of NxBFT (\<^verbatim>\<open>nxbft/src/lib.rs\<close>): its state, the handshake, the non-equivocating broadcast of vertices, the
  vertex buffer, the creation of vertices, the decision of waves, recovery, and the reflection of own messages.

  Every handler takes the state and returns the state, or \<open>None\<close> for a panic; an early return is the state so far.
  \<open>E\<close> is the enclave and \<open>T\<close> the hash functions and the transactions. Log output is left out, and with it the file of
  recovery times.
\<close>

section \<open>State\<close>

record ('tx, 'att, 'hs, 'sig, 'enc, 'err) nxbft =
  nx_n :: u64
  nx_quorum :: u64
  nx_me :: replica_id
  nx_round :: round
  nx_decided_wave :: wave
  nx_dag :: "('tx, 'sig) dag"
  nx_hello_reply_count :: u64
  nx_ready :: bool
  nx_call_create_vertex :: bool
  nx_in_recovery :: bool
  nx_hello_set :: id_set
  nx_ready_set :: id_set
  nx_hello_map :: "(replica_id, 'att \<times> id_set) hash_map"
  nx_pending_client_requests :: "'tx pending_client_requests"
  nx_client_last_request :: "(client_id, request_id) hash_map"
  nx_expected_counters :: "u64 id_map"
  nx_highest_rounds :: "round id_map"
  nx_message_buffers :: "(('tx, 'sig) signed_message, u64) heap_buffer id_map"
  nx_vertex_buffer :: "(('tx, 'sig) vertex, dag_address) cursored_heap"
  nx_enclave :: 'enc
  nx_pending_wave_coins :: "(wave, replica_id) hash_map"
  nx_cached_hello_replies :: "(replica_id, 'hs) hash_map"
  nx_pending_vertices :: "dag_address hash_set"
  nx_vertex_requests :: "(dag_address, id_set) hash_map"
  nx_vertex_timeout :: nat
  nx_allow_timeout :: bool
  nx_min_vertex_size :: nat
  nx_max_vertex_size :: nat
  nx_restart_round :: round
  nx_recovery_proposal_senders :: "('att, id_set) hash_map"
  nx_longest_recovery_proposal :: "('att, ('tx, 'sig) signed_message list) hash_map"
  nx_currently_recovering :: id_set
  nx_recovery_commits :: "('att, ('tx, 'att, 'sig) recovery_commit option id_map) hash_map"
  nx_seen_recovery_requests :: "'att hash_set"
  nx_successful_recoveries :: "'att hash_set"
  nx_output :: "('tx, 'att, 'hs, 'sig, 'err) unreflected_output"
  nx_max_rounds :: "round id_map"
  nx_recovery_start :: "nat option"
  nx_last_vertex_created_at :: nat
  nx_clock :: clock

record ('tx, 'att, 'sig, 'exp) nx_backup =
  bk_n :: u64
  bk_quorum :: u64
  bk_me :: replica_id
  bk_round :: round
  bk_decided_wave :: wave
  bk_dag :: "('tx, 'sig) dag"
  bk_client_last_request :: "(client_id, request_id) hash_map"
  bk_expected_counters :: "u64 id_map"
  bk_highest_rounds :: "round id_map"
  bk_vertex_buffer :: "(('tx, 'sig) vertex, dag_address) cursored_heap"
  bk_pending_wave_coins :: "(wave, replica_id) hash_map"
  bk_vertex_timeout :: nat
  bk_min_vertex_size :: nat
  bk_max_vertex_size :: nat
  bk_enclave :: 'exp
  bk_seen_recovery_requests :: "'att hash_set"
  bk_successful_recoveries :: "'att hash_set"
  bk_recovery_proposal_senders :: "('att, id_set) hash_map"
  bk_max_rounds :: "round id_map"

abbreviation vertex_key :: "('tx, 'sig) vertex \<Rightarrow> dag_address" where
  "vertex_key v \<equiv> vx_address v"

abbreviation message_key :: "('tx, 'sig) signed_message \<Rightarrow> u64" where
  "message_key m \<equiv> sm_counter m"

definition nx_out ::
    "(('tx, 'att, 'hs, 'sig, 'err) unreflected_output \<Rightarrow> ('tx, 'att, 'hs, 'sig, 'err) unreflected_output) \<Rightarrow>
     ('tx, 'att, 'hs, 'sig, 'enc, 'err) nxbft \<Rightarrow> ('tx, 'att, 'hs, 'sig, 'enc, 'err) nxbft" where
  "nx_out f s = s\<lparr>nx_output := f (nx_output s)\<rparr>"

abbreviation nx_say ::
    "'err state_message \<Rightarrow> ('tx, 'att, 'hs, 'sig, 'enc, 'err) nxbft \<Rightarrow> ('tx, 'att, 'hs, 'sig, 'enc, 'err) nxbft" where
  "nx_say sm s \<equiv> nx_out (uo_state_message sm) s"

abbreviation nx_broadcast_message ::
    "('tx, 'att, 'hs, 'sig) nx_message \<Rightarrow> ('tx, 'att, 'hs, 'sig, 'enc, 'err) nxbft \<Rightarrow> ('tx, 'att, 'hs, 'sig, 'enc, 'err) nxbft" where
  "nx_broadcast_message m s \<equiv> nx_out (uo_broadcast \<lparr>npm_from = nx_me s, npm_message = m\<rparr>) s"

abbreviation nx_unicast_message ::
    "replica_id \<Rightarrow> ('tx, 'att, 'hs, 'sig) nx_message \<Rightarrow> ('tx, 'att, 'hs, 'sig, 'enc, 'err) nxbft \<Rightarrow>
     ('tx, 'att, 'hs, 'sig, 'enc, 'err) nxbft" where
  "nx_unicast_message to m s \<equiv> nx_out (uo_unicast to \<lparr>npm_from = nx_me s, npm_message = m\<rparr>) s"

definition nx_new ::
    "('enc, 'att, 'hs, 'sig, 'exp, 'err) enclave_ops \<Rightarrow> clock \<Rightarrow> replica_id \<Rightarrow> u64 \<Rightarrow> nat \<Rightarrow> u64 \<Rightarrow> u64 \<Rightarrow>
     ('tx, 'att, 'hs, 'sig, 'enc, 'err) nxbft option" where
  "nx_new E clock me n vertex_timeout min_vertex_size max_vertex_size =
     do {
       rust_assert (3 \<le> n);
       rust_assert (me < n);
       rust_assert (max_vertex_size \<noteq> 0);
       rust_assert (min_vertex_size \<le> max_vertex_size);
       enclave \<leftarrow> enc_new E n;
       dag \<leftarrow> dag_new n;
       let (now, clock) = clock_now clock;
       Some \<lparr>nx_n = n, nx_quorum = n div 2 + 1, nx_me = me, nx_round = 1, nx_decided_wave = 0, nx_dag = dag,
         nx_hello_reply_count = 0, nx_ready = False, nx_call_create_vertex = False, nx_in_recovery = False,
         nx_hello_set = ids_with_capacity n, nx_ready_set = ids_with_capacity n, nx_hello_map = [],
         nx_pending_client_requests = pcr_new (unat max_vertex_size), nx_client_last_request = [],
         nx_expected_counters = id_map_new 0 n, nx_highest_rounds = id_map_new 0 n, nx_message_buffers = id_map_new hb_default n,
         nx_vertex_buffer = ch_default, nx_enclave = enclave, nx_pending_wave_coins = [], nx_cached_hello_replies = [],
         nx_pending_vertices = [], nx_vertex_requests = [], nx_vertex_timeout = vertex_timeout, nx_allow_timeout = False,
         nx_min_vertex_size = unat min_vertex_size, nx_max_vertex_size = unat max_vertex_size, nx_restart_round = 0,
         nx_recovery_proposal_senders = [], nx_longest_recovery_proposal = [], nx_currently_recovering = ids_with_capacity n,
         nx_recovery_commits = [], nx_seen_recovery_requests = [], nx_successful_recoveries = [], nx_output = uo_new me,
         nx_max_rounds = id_map_new 0 n, nx_recovery_start = None, nx_last_vertex_created_at = now, nx_clock = clock\<rparr>
     }"

section \<open>Handshake\<close>

definition process_hello ::
    "replica_id \<Rightarrow> 'att \<Rightarrow> ('tx, 'att, 'hs, 'sig, 'enc, 'err) nxbft \<Rightarrow> ('tx, 'att, 'hs, 'sig, 'enc, 'err) nxbft" where
  "process_hello from attestation s =
     (if ids_contains (nx_hello_set s) from then nx_say (SM_PeerError from PE_DuplicateHello) s
      else
        let s = nx_broadcast_message (M_HelloEcho from attestation) s;
            s = s\<lparr>nx_hello_set := snd (ids_insert from (nx_hello_set s)),
              nx_hello_map := (case hm_get (nx_hello_map s) from of
                  Some _ \<Rightarrow> nx_hello_map s
                | None \<Rightarrow> hm_insert from (attestation, ids_with_capacity (nx_n s)) (nx_hello_map s))\<rparr>
        in nx_say (SM_Verbose (V_ReceivedHello from)) s)"

definition process_hello_reply ::
    "('enc, 'att, 'hs, 'sig, 'exp, 'err) enclave_ops \<Rightarrow> replica_id \<Rightarrow> 'hs \<Rightarrow> ('tx, 'att, 'hs, 'sig, 'enc, 'err) nxbft \<Rightarrow>
     ('tx, 'att, 'hs, 'sig, 'enc, 'err) nxbft option" where
  "process_hello_reply E from handshake s =
     do {
       (res, enclave) \<leftarrow> enc_complete_peer_handshake E from handshake (nx_enclave s);
       let s = s\<lparr>nx_enclave := enclave\<rparr>;
       Some (case res of
           HR_DuplicateReply \<Rightarrow> nx_say (SM_PeerError from PE_DuplicateHelloReply) s
         | HR_InvalidHandshakeEncryption \<Rightarrow> nx_say (SM_PeerError from PE_InvalidHandshakeEncryption) s
         | HR_MissingAttestation \<Rightarrow>
             nx_say (SM_Verbose (V_HelloReplyBeforeHello from))
               (s\<lparr>nx_cached_hello_replies := hm_insert from handshake (nx_cached_hello_replies s)\<rparr>)
         | HR_Ok \<Rightarrow>
             (let s = nx_say (SM_Verbose (V_ReceivedHelloReply from)) s;
                  s = s\<lparr>nx_hello_reply_count := nx_hello_reply_count s + 1\<rparr>
              in if nx_hello_reply_count s = nx_n s then nx_broadcast_message M_Ready s else s)
         | HR_EnclaveError e \<Rightarrow> nx_say (SM_Error (NE_EnclaveError e)) s)
     }"

definition process_hello_echo ::
    "('enc, 'att, 'hs, 'sig, 'exp, 'err) enclave_ops \<Rightarrow> replica_id \<Rightarrow> replica_id \<Rightarrow> 'att \<Rightarrow>
     ('tx, 'att, 'hs, 'sig, 'enc, 'err) nxbft \<Rightarrow> ('tx, 'att, 'hs, 'sig, 'enc, 'err) nxbft option" where
  "process_hello_echo E from creator attestation s =
     (if nx_n s \<le> creator then Some (nx_say (SM_PeerError from (PE_InvalidRelayCreator creator)) s)
      else
        let (stored_attestation, echos) = (case hm_get (nx_hello_map s) creator of
                Some entry \<Rightarrow> entry
              | None \<Rightarrow> (attestation, ids_with_capacity (nx_n s)));
            s = s\<lparr>nx_hello_map := hm_insert creator (stored_attestation, echos) (nx_hello_map s)\<rparr>
        in if stored_attestation \<noteq> attestation then Some (nx_say (SM_PeerError from (PE_AttestationEquivocation creator)) s)
           else if ids_contains echos from then Some (nx_say (SM_PeerError from PE_DuplicateHelloEcho) s)
           else
             let echos = snd (ids_insert from echos);
                 s = s\<lparr>nx_hello_map := hm_insert creator (stored_attestation, echos) (nx_hello_map s)\<rparr>
             in if ids_len echos < nx_n s then Some s
                else do {
                  (res, enclave) \<leftarrow> enc_init_peer_handshake E creator attestation (nx_enclave s);
                  let s = s\<lparr>nx_enclave := enclave\<rparr>;
                  case res of
                    IH_DuplicateHello \<Rightarrow> Some (nx_say (SM_PeerError from PE_DuplicateHello) s)
                  | IH_InvalidAttestation \<Rightarrow> Some (nx_say (SM_PeerError from PE_InvalidAttestation) s)
                  | IH_EnclaveError e \<Rightarrow> Some (nx_say (SM_Error (NE_EnclaveError e)) s)
                  | IH_Ok handshake \<Rightarrow>
                      (let s = nx_say (SM_Verbose (V_ReceivedHelloEcho from creator)) s;
                           s = nx_unicast_message creator (M_HelloReply handshake) s
                       in case hm_get (nx_cached_hello_replies s) creator of
                            None \<Rightarrow> Some s
                          | Some handshake \<Rightarrow>
                              (let s = s\<lparr>nx_cached_hello_replies := hm_remove creator (nx_cached_hello_replies s)\<rparr>;
                                   s = nx_say (SM_Verbose (V_CachedHelloReply creator)) s
                               in process_hello_reply E creator handshake s))
                })"

definition process_ready ::
    "replica_id \<Rightarrow> ('tx, 'att, 'hs, 'sig, 'enc, 'err) nxbft \<Rightarrow> ('tx, 'att, 'hs, 'sig, 'enc, 'err) nxbft" where
  "process_ready from s =
     (if ids_contains (nx_ready_set s) from then nx_say (SM_PeerError from PE_DuplicateReady) s
      else
        let s = s\<lparr>nx_ready_set := snd (ids_insert from (nx_ready_set s))\<rparr>
        in if ids_len (nx_ready_set s) < nx_n s then s
           else
             let s = s\<lparr>nx_ready := True, nx_call_create_vertex := True, nx_allow_timeout := True\<rparr>;
                 s = nx_out (uo_set_timeout (nx_vertex_timeout s)) s;
                 s = nx_out uo_set_backup_enclave s
             in nx_say SM_Ready s)"

section \<open>Creation of vertices\<close>

definition create_vertex ::
    "('enc, 'att, 'hs, 'sig, 'exp, 'err) enclave_ops \<Rightarrow> ('tx, 'z) tx_scheme_scheme \<Rightarrow> bool \<Rightarrow>
     ('tx, 'att, 'hs, 'sig, 'enc, 'err) nxbft \<Rightarrow> (('tx, 'sig) vertex option \<times> ('tx, 'att, 'hs, 'sig, 'enc, 'err) nxbft) option" where
  "create_vertex E T allowed_to_be_empty_or_ahead_of_time s =
     (if nx_round s < nx_restart_round s then
        Some (None,
          if \<not> nx_call_create_vertex s
          then (nx_out (uo_set_timeout (nx_vertex_timeout s)) s)\<lparr>nx_call_create_vertex := True, nx_allow_timeout := True\<rparr>
          else s)
      else do {
        full \<leftarrow> pcr_full_block_or_at_least (nx_min_vertex_size s) (nx_pending_client_requests s);
        let would_break = \<not> full;
        let (elapsed, clock) = clock_elapsed (nx_last_vertex_created_at s) (nx_clock s);
        let s = s\<lparr>nx_clock := clock\<rparr>;
        let timeout_already_passed = nx_vertex_timeout s < elapsed;
        if \<not> would_break \<or> timeout_already_passed \<or> allowed_to_be_empty_or_ahead_of_time then do {
          let (txs, pcr) = pcr_pop_front (nx_pending_client_requests s);
          let s = s\<lparr>nx_pending_client_requests := pcr\<rparr>;
          edges \<leftarrow> (if 1 < nx_round s
                  then map_option (\<lambda>as. fold (\<lambda>edge edges. snd (ids_insert (addr_creator edge) edges)) as (ids_with_capacity (nx_n s)))
                         (dag_get_round (nx_dag s) (nx_round s - 1))
                  else Some (ids_with_capacity (nx_n s)));
          (res, enclave) \<leftarrow> vertex_new T (nx_round s) (nx_me s) edges txs (enc_sign E) (nx_enclave s);
          let s = s\<lparr>nx_enclave := enclave\<rparr>;
          case res of
            Inl e \<Rightarrow> Some (None, nx_say (SM_Error (NE_EnclaveError e)) s)
          | Inr vertex \<Rightarrow>
              (let s = nx_broadcast_message (M_Signed \<lparr>sm_payload = vertex\<rparr>) s;
                   (now, clock) = clock_now (nx_clock s);
                   s = s\<lparr>nx_clock := clock, nx_last_vertex_created_at := now, nx_call_create_vertex := False\<rparr>;
                   s = nx_out uo_cancel_timeout s
               in Some (Some vertex, s\<lparr>nx_allow_timeout := False\<rparr>))
        }
        else
          let s = s\<lparr>nx_call_create_vertex := True\<rparr>;
              (elapsed, clock) = clock_elapsed (nx_last_vertex_created_at s) (nx_clock s);
              s = nx_out (uo_set_timeout (nx_vertex_timeout s - elapsed)) (s\<lparr>nx_clock := clock\<rparr>)
          in Some (None, s\<lparr>nx_allow_timeout := True\<rparr>)
      })"

section \<open>Decision of a wave\<close>

definition count_reaching :: "('tx, 'sig) dag \<Rightarrow> replica_id \<Rightarrow> dag_address list \<Rightarrow> u64 option" where
  "count_reaching d leader as =
     fold_opt (\<lambda>va n. do { b \<leftarrow> dag_reaches d va leader; Some (if b then n + 1 else n) }) as 0"

partial_function (option) collect_leaders ::
    "(wave, replica_id) hash_map \<Rightarrow> wave \<Rightarrow> wave \<Rightarrow> dag_address \<Rightarrow> dag_address list \<Rightarrow> wave list \<Rightarrow> ('tx, 'sig) dag \<Rightarrow>
     (dag_address list \<times> wave list \<times> ('tx, 'sig) dag) option" where
  "collect_leaders coins decided wave_prime v leaders_stack decided_waves d =
     (if decided < wave_prime then
        Option.bind (round_of_wave wave_prime 1) (\<lambda>r.
        Option.bind (hm_get coins wave_prime) (\<lambda>coin.
          let v_prime = DagAddress r coin in
          Option.bind (dag_knows d v_prime) (\<lambda>known.
          Option.bind (if known then has_path v v_prime d else Some (False, d)) (\<lambda>(path, d).
            if path then collect_leaders coins decided (wave_prime - 1) v_prime (leaders_stack @ [v_prime]) (decided_waves @ [wave_prime]) d
            else collect_leaders coins decided (wave_prime - 1) v leaders_stack decided_waves d))))
      else Some (leaders_stack, decided_waves, d))"

definition deliver_tx ::
    "('tx, 'z) tx_scheme_scheme \<Rightarrow> 'tx \<Rightarrow> ('tx, 'att, 'hs, 'sig, 'enc, 'err) nxbft \<Rightarrow> ('tx, 'att, 'hs, 'sig, 'enc, 'err) nxbft" where
  "deliver_tx T tx s =
     (case hm_get (nx_client_last_request s) (tx_client_id T tx) of
        Some last_request \<Rightarrow>
          if tx_request_id T tx \<le> last_request then s
          else nx_out (uo_append_delivery tx)
            (s\<lparr>nx_client_last_request := hm_insert (tx_client_id T tx) (tx_request_id T tx) (nx_client_last_request s)\<rparr>)
      | None \<Rightarrow> nx_out (uo_append_delivery tx)
            (s\<lparr>nx_client_last_request := hm_insert (tx_client_id T tx) (tx_request_id T tx) (nx_client_last_request s)\<rparr>))"

definition deliver_vertex ::
    "('tx, 'z) tx_scheme_scheme \<Rightarrow> dag_address \<Rightarrow> dag_address list \<times> ('tx, 'att, 'hs, 'sig, 'enc, 'err) nxbft \<Rightarrow>
     (dag_address list \<times> ('tx, 'att, 'hs, 'sig, 'enc, 'err) nxbft) option" where
  "deliver_vertex T va st =
     (case st of (order, s) \<Rightarrow> do {
        v \<leftarrow> dag_index (nx_dag s) va;
        Some (order @ [va], fold (deliver_tx T) (vx_transactions v) s)
      })"

definition deliver_leader ::
    "('tx, 'z) tx_scheme_scheme \<Rightarrow> dag_address \<Rightarrow> dag_address list \<times> ('tx, 'att, 'hs, 'sig, 'enc, 'err) nxbft \<Rightarrow>
     (dag_address list \<times> ('tx, 'att, 'hs, 'sig, 'enc, 'err) nxbft) option" where
  "deliver_leader T leader st =
     (case st of (order, s) \<Rightarrow> do {
        (delivered, d) \<leftarrow> deliver_from leader 0 (nx_dag s);
        fold_opt (deliver_vertex T) delivered (order, s\<lparr>nx_dag := d\<rparr>)
      })"

text \<open>\<open>decide\<close> is the part of \<open>wave_ready\<close> after the toss of the coin.\<close>

definition decide ::
    "('tx, 'z) tx_scheme_scheme \<Rightarrow> wave \<Rightarrow> replica_id \<Rightarrow> ('tx, 'att, 'hs, 'sig, 'enc, 'err) nxbft \<Rightarrow>
     ('tx, 'att, 'hs, 'sig, 'enc, 'err) nxbft option" where
  "decide T wave wave_leader s =
     do {
       first \<leftarrow> round_of_wave wave 1;
       known \<leftarrow> dag_knows (nx_dag s) (DagAddress first wave_leader);
       if \<not> known then Some (nx_say (SM_Consensus Consensus_UnknownWaveLeader) s)
       else do {
         last_round \<leftarrow> round_of_wave wave 4;
         as \<leftarrow> dag_get_round (nx_dag s) last_round;
         reaching_leader \<leftarrow> count_reaching (nx_dag s) wave_leader as;
         if reaching_leader < nx_quorum s then Some (nx_say (SM_Consensus Consensus_DirectCommitRuleViolated) s)
         else do {
           let (now, clock) = clock_now (nx_clock s);
           let s = nx_out (uo_log_decision_time now) (s\<lparr>nx_clock := clock\<rparr>);
           let v = DagAddress first wave_leader;
           (leaders_stack, decided_waves, d) \<leftarrow>
             collect_leaders (nx_pending_wave_coins s) (nx_decided_wave s) (wave - 1) v [v] [wave] (nx_dag s);
           let leaders = rev leaders_stack;
           (order, s) \<leftarrow> fold_opt (deliver_leader T) leaders ([], s\<lparr>nx_dag := d\<rparr>);
           let s = nx_say (SM_Consensus (Consensus_Decided (rev decided_waves) leaders order)) s;
           Some (s\<lparr>nx_decided_wave := wave, nx_pending_wave_coins := []\<rparr>)
         }
       }
     }"

definition wave_ready ::
    "('enc, 'att, 'hs, 'sig, 'exp, 'err) enclave_ops \<Rightarrow> ('tx, 'z) tx_scheme_scheme \<Rightarrow> ('tx, 'att, 'hs, 'sig, 'enc, 'err) nxbft \<Rightarrow>
     ('tx, 'att, 'hs, 'sig, 'enc, 'err) nxbft option" where
  "wave_ready E T s =
     do {
       rust_assert (4 \<le> nx_round s);
       wave \<leftarrow> wave_from_round (nx_round s);
       as \<leftarrow> dag_get_round (nx_dag s) (nx_round s);
       proof \<leftarrow> fold_opt (\<lambda>va proof. do { v \<leftarrow> dag_index (nx_dag s) va; Some (proof @ [vx_signed v]) }) as [];
       (res, enclave) \<leftarrow> enc_toss E proof (nx_enclave s);
       let s = s\<lparr>nx_enclave := enclave\<rparr>;
       case res of
         Inl e \<Rightarrow> Some (nx_say (SM_Error (NE_EnclaveError e)) s)
       | Inr wave_leader \<Rightarrow>
           decide T wave wave_leader (s\<lparr>nx_pending_wave_coins := hm_insert wave wave_leader (nx_pending_wave_coins s)\<rparr>)
     }"

section \<open>The vertex buffer\<close>

definition request_edge ::
    "round \<Rightarrow> replica_id \<Rightarrow> bool \<times> ('tx, 'att, 'hs, 'sig, 'enc, 'err) nxbft \<Rightarrow>
     (bool \<times> ('tx, 'att, 'hs, 'sig, 'enc, 'err) nxbft) option" where
  "request_edge r creator st =
     (case st of (add, s) \<Rightarrow>
        let edge = DagAddress (r - 1) creator
        in do {
          known \<leftarrow> dag_knows (nx_dag s) edge;
          Some (if known then (add, s)
                else if edge \<in> set (nx_pending_vertices s) then (False, s)
                else
                  let s = nx_broadcast_message (M_VertexRequest edge) s;
                      s = nx_say (SM_Broadcast (Broadcast_VertexRequest (addr_round edge) (addr_creator edge))) s
                  in (False, s\<lparr>nx_pending_vertices := hs_insert edge (nx_pending_vertices s)\<rparr>))
        })"

partial_function (option) traverse_loop ::
    "(('tx, 'sig) vertex, dag_address) cursor \<Rightarrow> dag_address list \<Rightarrow> ('tx, 'att, 'hs, 'sig, 'enc, 'err) nxbft \<Rightarrow>
     ((('tx, 'sig) vertex, dag_address) cursor \<times> dag_address list \<times> ('tx, 'att, 'hs, 'sig, 'enc, 'err) nxbft) option" where
  "traverse_loop cursor inserts s =
     Option.bind (cursor_advance vertex_key cursor) (\<lambda>(cur, cursor).
       case cur of
         None \<Rightarrow> Some (cursor, inserts, s)
       | Some v \<Rightarrow>
           if nx_round s < vx_round v then Some (cursor, inserts, s)
           else
             Option.bind (fold_opt (request_edge (vx_round v)) (ids_iter (vx_edges v)) (True, s)) (\<lambda>(add, s).
               if \<not> add then traverse_loop cursor inserts s
               else
                 let s = nx_say (SM_Verbose (V_VertexAdded (vx_address v))) s in
                 Option.bind (cursor_remove cursor) (\<lambda>(v, cursor).
                 Option.bind (dag_insert v (nx_dag s)) (\<lambda>d.
                   traverse_loop cursor (inserts @ [vx_address v]) (s\<lparr>nx_dag := d\<rparr>)))))"

definition answer_requests ::
    "dag_address \<Rightarrow> ('tx, 'att, 'hs, 'sig, 'enc, 'err) nxbft \<Rightarrow> ('tx, 'att, 'hs, 'sig, 'enc, 'err) nxbft option" where
  "answer_requests address s =
     (let requesters = (case hm_get (nx_vertex_requests s) address of Some rs \<Rightarrow> rs | None \<Rightarrow> ids_with_capacity (nx_n s));
          s = s\<lparr>nx_vertex_requests := hm_remove address (nx_vertex_requests s)\<rparr>
      in fold_opt (\<lambda>to s. do {
           v \<leftarrow> dag_index (nx_dag s) address;
           Some (nx_unicast_message to (M_Signed \<lparr>sm_payload = v\<rparr>) s)
         }) (ids_iter requesters) s)"

definition round_complete :: "('tx, 'att, 'hs, 'sig, 'enc, 'err) nxbft \<Rightarrow> bool option" where
  "round_complete s =
     do {
       known \<leftarrow> dag_knows (nx_dag s) (DagAddress (nx_round s) (nx_me s));
       if known then do { count \<leftarrow> get_round_valid_count (nx_dag s) (nx_round s); Some (nx_quorum s \<le> count) }
       else Some False
     }"

definition traverse_vertex_buffer ::
    "('enc, 'att, 'hs, 'sig, 'exp, 'err) enclave_ops \<Rightarrow> ('tx, 'z) tx_scheme_scheme \<Rightarrow> ('tx, 'att, 'hs, 'sig, 'enc, 'err) nxbft \<Rightarrow>
     ('tx, 'att, 'hs, 'sig, 'enc, 'err) nxbft option" where
  "traverse_vertex_buffer E T s =
     do {
       (cursor, inserts, s) \<leftarrow> traverse_loop (ch_cursor (nx_vertex_buffer s)) [] s;
       buffer \<leftarrow> cursor_finalize vertex_key cursor;
       let s = s\<lparr>nx_vertex_buffer := buffer\<rparr>;
       s \<leftarrow> fold_opt answer_requests inserts s;
       complete \<leftarrow> round_complete s;
       if \<not> complete then Some s
       else do {
         s \<leftarrow> (if nx_round s mod 4 = 0 then wave_ready E T s else Some s);
         d \<leftarrow> new_round (nx_dag s);
         let s = s\<lparr>nx_round := nx_round s + 1, nx_dag := d\<rparr>;
         let s = nx_say (SM_Consensus (Consensus_RoundTransition (nx_round s))) s;
         map_option snd (create_vertex E T False s)
       }
     }"

definition process_vertex ::
    "('enc, 'att, 'hs, 'sig, 'exp, 'err) enclave_ops \<Rightarrow> ('tx, 'z) tx_scheme_scheme \<Rightarrow> ('tx, 'sig) vertex \<Rightarrow>
     ('tx, 'att, 'hs, 'sig, 'enc, 'err) nxbft \<Rightarrow> ('tx, 'att, 'hs, 'sig, 'enc, 'err) nxbft option" where
  "process_vertex E T vertex s =
     (if ch_knows vertex_key (nx_vertex_buffer s) vertex then Some s
      else do {
        known \<leftarrow> dag_knows (nx_dag s) (vx_address vertex);
        if known then Some s
        else if vx_round vertex = 1 \<and> 0 < num_edges vertex
        then Some (nx_say (SM_PeerError (vx_creator vertex) PE_InvalidVertexEdgesRound1) s)
        else if 1 < vx_round vertex \<and> \<not> edges_valid (nx_quorum s) vertex
        then Some (nx_say (SM_PeerError (vx_creator vertex) PE_InvalidVertexEdges) s)
        else do {
          max_round \<leftarrow> id_map_index (nx_max_rounds s) (vx_creator vertex);
          max_rounds \<leftarrow> (if max_round < vx_round vertex
                       then id_map_index_mut (nx_max_rounds s) (vx_creator vertex) (vx_round vertex) else Some (nx_max_rounds s));
          let s = s\<lparr>nx_max_rounds := max_rounds, nx_pending_vertices := removeAll (vx_address vertex) (nx_pending_vertices s)\<rparr>;
          let s = nx_say (SM_Verbose (V_BufferedVertex (vx_address vertex))) s;
          traverse_vertex_buffer E T (s\<lparr>nx_vertex_buffer := ch_insert vertex_key vertex (nx_vertex_buffer s)\<rparr>)
        }
      })"

section \<open>The non-equivocating broadcast\<close>

partial_function (option) deliver_messages ::
    "('enc, 'att, 'hs, 'sig, 'exp, 'err) enclave_ops \<Rightarrow> ('tx, 'z) tx_scheme_scheme \<Rightarrow> replica_id \<Rightarrow>
     ('tx, 'att, 'hs, 'sig, 'enc, 'err) nxbft \<Rightarrow> ('tx, 'att, 'hs, 'sig, 'enc, 'err) nxbft option" where
  "deliver_messages E T creator s =
     Option.bind (id_map_index (nx_message_buffers s) creator) (\<lambda>buffer.
       case hb_peek buffer of
         None \<Rightarrow> Some s
       | Some m \<Rightarrow>
           Option.bind (id_map_index (nx_expected_counters s) creator) (\<lambda>expected.
             if sm_counter m \<noteq> expected then
               let address = DagAddress (vx_round (sm_payload m) - 1) (sm_creator m)
               in if address \<in> set (nx_pending_vertices s) then Some s
                  else
                    let s = nx_broadcast_message (M_VertexRequest address) s;
                        s = nx_say (SM_Broadcast (Broadcast_VertexRequest (addr_round address) (addr_creator address))) s
                    in Some (s\<lparr>nx_pending_vertices := hs_insert address (nx_pending_vertices s)\<rparr>)
             else
               Option.bind (hb_pop message_key buffer) (\<lambda>(msg, buffer).
               Option.bind (id_map_index_mut (nx_message_buffers s) creator buffer) (\<lambda>buffers.
                 let s = nx_say (SM_Verbose (V_NonEquivocationBroadcastDeliver (sm_creator msg) (payload_to_string (sm_payload msg))))
                           (s\<lparr>nx_message_buffers := buffers\<rparr>) in
                 Option.bind (process_vertex E T (sm_payload msg) s) (\<lambda>s.
                 Option.bind (id_map_index (nx_expected_counters s) creator) (\<lambda>expected.
                 Option.bind (id_map_index_mut (nx_expected_counters s) creator (expected + 1)) (\<lambda>counters.
                   deliver_messages E T creator (s\<lparr>nx_expected_counters := counters\<rparr>))))))))"

definition buffer_message ::
    "('tx, 'sig) signed_message \<Rightarrow> ('tx, 'att, 'hs, 'sig, 'enc, 'err) nxbft \<Rightarrow> ('tx, 'att, 'hs, 'sig, 'enc, 'err) nxbft option" where
  "buffer_message msg s =
     do {
       let s = nx_say (SM_Verbose (V_NonEquivocationBroadcastReceive (sm_creator msg) (payload_to_string (sm_payload msg)))) s;
       highest \<leftarrow> id_map_index (nx_highest_rounds s) (sm_creator msg);
       highest_rounds \<leftarrow> (if highest < vx_round (sm_payload msg)
         then id_map_index_mut (nx_highest_rounds s) (sm_creator msg) (vx_round (sm_payload msg)) else Some (nx_highest_rounds s));
       let s = s\<lparr>nx_highest_rounds := highest_rounds\<rparr>;
       buffer \<leftarrow> id_map_index (nx_message_buffers s) (sm_creator msg);
       buffers \<leftarrow> id_map_index_mut (nx_message_buffers s) (sm_creator msg) (hb_insert message_key msg buffer);
       Some (s\<lparr>nx_message_buffers := buffers\<rparr>)
     }"

definition process_signed_message ::
    "('enc, 'att, 'hs, 'sig, 'exp, 'err) enclave_ops \<Rightarrow> ('tx, 'z) tx_scheme_scheme \<Rightarrow> replica_id \<Rightarrow> ('tx, 'sig) signed_message \<Rightarrow>
     ('tx, 'att, 'hs, 'sig, 'enc, 'err) nxbft \<Rightarrow> ('tx, 'att, 'hs, 'sig, 'enc, 'err) nxbft option" where
  "process_signed_message E T from msg s =
     (let creator = sm_creator msg in
      if \<not> nx_ready s then Some (nx_say (SM_Error NE_NotReady) s)
      else if ids_contains (nx_currently_recovering s) creator
      then Some (nx_say (SM_Verbose (V_PeerRecoveryIgnore creator (signed_message_to_string msg))) s)
      else if nx_n s \<le> creator then Some (nx_say (SM_PeerError from (PE_InvalidRelayCreator creator)) s)
      else do {
        expected \<leftarrow> id_map_index (nx_expected_counters s) creator;
        if sm_counter msg < expected then Some s
        else do {
          buffer \<leftarrow> id_map_index (nx_message_buffers s) creator;
          if hb_knows message_key buffer msg then Some s
          else do {
            res \<leftarrow> enc_verify E (nx_enclave s) creator (sm_counter msg) (sm_signable msg) (sm_signature msg);
            case res of
              Inl e \<Rightarrow> Some (nx_say (SM_Error (NE_EnclaveError e)) s)
            | Inr b \<Rightarrow>
                if \<not> b then Some s
                else do {
                  s \<leftarrow> buffer_message msg s;
                  if nx_in_recovery s then Some s else deliver_messages E T creator s
                }
          }
        }
      })"

definition process_vertex_request ::
    "replica_id \<Rightarrow> dag_address \<Rightarrow> ('tx, 'att, 'hs, 'sig, 'enc, 'err) nxbft \<Rightarrow> ('tx, 'att, 'hs, 'sig, 'enc, 'err) nxbft option" where
  "process_vertex_request from address s =
     (if from = nx_me s then Some s
      else do {
        known \<leftarrow> dag_knows (nx_dag s) address;
        if known then do {
          v \<leftarrow> dag_index (nx_dag s) address;
          Some (nx_unicast_message from (M_Signed \<lparr>sm_payload = v\<rparr>) s)
        }
        else
          let requesters = (case hm_get (nx_vertex_requests s) address of Some rs \<Rightarrow> rs | None \<Rightarrow> ids_with_capacity (nx_n s))
          in Some (s\<lparr>nx_vertex_requests := hm_insert address (snd (ids_insert from requesters)) (nx_vertex_requests s)\<rparr>)
      })"

section \<open>Recovery of a replica\<close>

definition drop_vertices_of ::
    "replica_id \<Rightarrow> ('tx, 'att, 'hs, 'sig, 'enc, 'err) nxbft \<Rightarrow> ('tx, 'att, 'hs, 'sig, 'enc, 'err) nxbft option" where
  "drop_vertices_of creator s =
     do {
       (_, vertex_buffer) \<leftarrow> ch_extract vertex_key (\<lambda>v. vx_creator v = creator) (nx_vertex_buffer s);
       buffer \<leftarrow> id_map_index (nx_message_buffers s) creator;
       buffers \<leftarrow> id_map_index_mut (nx_message_buffers s) creator (hb_clear buffer);
       Some (s\<lparr>nx_vertex_buffer := vertex_buffer, nx_message_buffers := buffers\<rparr>)
     }"

text \<open>The search for the rows of a proposal; \<open>Inl\<close> is the early return with an error of the enclave.\<close>

partial_function (option) proposal_rows ::
    "('enc, 'att, 'hs, 'sig, 'exp, 'err) enclave_ops \<Rightarrow> 'enc \<Rightarrow> ('tx, 'sig) dag \<Rightarrow> replica_id \<Rightarrow> round \<Rightarrow> u64 \<Rightarrow> u64 \<Rightarrow>
     ('err + u64 \<times> u64) option" where
  "proposal_rows E e d from round_prime top_round bot_round =
     (if \<not> 0 < round_prime then Some (Inr (top_round, bot_round))
      else
        Option.bind (dag_get d (DagAddress round_prime from)) (\<lambda>found.
          case found of
            None \<Rightarrow>
              if top_round = 0 then proposal_rows E e d from (round_prime - 1) top_round bot_round
              else Some (Inr (top_round, bot_round))
          | Some v \<Rightarrow>
              Option.bind
                (if top_round = 0 then
                   Option.bind (enc_verify E e (vx_creator v) (vx_counter v) (sgv_signable (vx_signed v)) (vx_signature v)) (\<lambda>res.
                     Some (case res of Inl err \<Rightarrow> Inl err | Inr b \<Rightarrow> Inr (if b then Some round_prime else None)))
                 else Some (Inr (Some top_round)))
                (\<lambda>res.
                  case res of
                    Inl err \<Rightarrow> Some (Inl err)
                  | Inr None \<Rightarrow> Some (Inr (top_round, bot_round))
                  | Inr (Some top_round) \<Rightarrow>
                      Option.bind
                        (if vx_counter v = 0 then Some True
                         else if round_prime < top_round
                         then Option.bind (dag_index d (DagAddress (round_prime + 1) from)) (\<lambda>w. Some (vx_counter w < vx_counter v))
                         else Some False)
                        (\<lambda>stop. if stop then Some (Inr (top_round, round_prime))
                               else proposal_rows E e d from (round_prime - 1) top_round round_prime))))"

definition proposal_messages :: "('tx, 'sig) dag \<Rightarrow> replica_id \<Rightarrow> u64 \<Rightarrow> u64 \<Rightarrow> ('tx, 'sig) signed_message list option" where
  "proposal_messages d from top_round bot_round =
     (if top_round = 0 then Some []
      else fold_opt (\<lambda>r messages. do { v \<leftarrow> dag_index d (DagAddress (of_nat r) from); Some (messages @ [\<lparr>sm_payload = v\<rparr>]) })
             [unat bot_round..<Suc (unat top_round)] [])"

definition nx_process_recovery_request ::
    "('enc, 'att, 'hs, 'sig, 'exp, 'err) enclave_ops \<Rightarrow> replica_id \<Rightarrow> 'att \<Rightarrow> ('tx, 'att, 'hs, 'sig, 'enc, 'err) nxbft \<Rightarrow>
     ('tx, 'att, 'hs, 'sig, 'enc, 'err) nxbft option" where
  "nx_process_recovery_request E from attestation s =
     (if attestation \<in> set (nx_successful_recoveries s) then Some s
      else if attestation \<in> set (nx_seen_recovery_requests s)
      then Some (nx_say (SM_Verbose (V_PeerRecoveryIgnore from ''RecoveryRequest'')) s)
      else do {
        let s = s\<lparr>nx_seen_recovery_requests := hs_insert attestation (nx_seen_recovery_requests s)\<rparr>;
        res \<leftarrow> enc_verify_attestation E (nx_enclave s) attestation;
        case res of
          Inl e \<Rightarrow> Some (nx_say (SM_Error (NE_EnclaveError e)) s)
        | Inr b \<Rightarrow>
            if \<not> b then Some (nx_say (SM_PeerError from PE_InvalidAttestation) s)
            else do {
              s \<leftarrow> (if nx_in_recovery s then do {
                      (cert, enclave) \<leftarrow> enc_get_attestation_certificate E (nx_enclave s);
                      let s = s\<lparr>nx_enclave := enclave\<rparr>;
                      case cert of Inl _ \<Rightarrow> None | Inr cert \<Rightarrow> Some (nx_broadcast_message (M_RecoveryRequest cert) s)
                    } else Some s);
              rust_assert (hm_get (nx_recovery_commits s) attestation = None);
              let s = s\<lparr>nx_recovery_commits := hm_insert attestation (id_map_new None (nx_n s)) (nx_recovery_commits s)\<rparr>;
              rust_assert (hm_get (nx_longest_recovery_proposal s) attestation = None);
              let s = s\<lparr>nx_longest_recovery_proposal := hm_insert attestation [] (nx_longest_recovery_proposal s),
                nx_currently_recovering := snd (ids_insert from (nx_currently_recovering s))\<rparr>;
              rust_assert (hm_get (nx_recovery_proposal_senders s) attestation = None);
              let s = s\<lparr>nx_recovery_proposal_senders :=
                hm_insert attestation (ids_with_capacity (nx_n s)) (nx_recovery_proposal_senders s)\<rparr>;
              s \<leftarrow> drop_vertices_of from s;
              rows \<leftarrow> proposal_rows E (nx_enclave s) (nx_dag s) from (nx_round s) 0 0;
              case rows of
                Inl e \<Rightarrow> Some (nx_say (SM_Error (NE_EnclaveError e)) s)
              | Inr (top_round, bot_round) \<Rightarrow> do {
                  messages \<leftarrow> proposal_messages (nx_dag s) from top_round bot_round;
                  Some (nx_broadcast_message (M_RecoveryProposal
                    \<lparr>rpr_for_id = from, rpr_for_attestation = attestation, rpr_messages = messages\<rparr>) s)
                }
            }
      })"

text \<open>The messages of a proposal: \<open>Inl\<close> is an error of the enclave, \<open>Inr None\<close> an invalid signature.\<close>

fun verify_proposal ::
    "('enc, 'att, 'hs, 'sig, 'exp, 'err) enclave_ops \<Rightarrow> 'enc \<Rightarrow> ('tx, 'sig) signed_message list \<Rightarrow> ('tx, 'sig) vertex list \<Rightarrow>
     ('err + ('tx, 'sig) vertex list option) option" where
  "verify_proposal E e [] vs = Some (Inr (Some vs))"
| "verify_proposal E e (m # ms) vs =
     do {
       res \<leftarrow> enc_verify E e (sm_creator m) (sm_counter m) (sm_signable m) (sm_signature m);
       case res of
         Inl err \<Rightarrow> Some (Inl err)
       | Inr b \<Rightarrow> if \<not> b then Some (Inr None) else verify_proposal E e ms (vs @ [sm_payload m])
     }"

definition proposal_row_invalid :: "u64 \<Rightarrow> ('tx, 'sig) vertex list \<Rightarrow> nat \<Rightarrow> bool" where
  "proposal_row_invalid quorum vs k \<longleftrightarrow>
     (0 < k \<and> vx_round (vs ! k) \<noteq> vx_round (vs ! (k - 1)) + 1) \<or>
     (vx_round (vs ! k) = 1 \<and> 0 < num_edges (vs ! k)) \<or>
     (1 < vx_round (vs ! k) \<and> num_edges (vs ! k) < quorum)"

definition keep_longest_proposal ::
    "'att \<Rightarrow> ('tx, 'sig) signed_message list \<Rightarrow> ('tx, 'att, 'hs, 'sig, 'enc, 'err) nxbft \<Rightarrow> ('tx, 'att, 'hs, 'sig, 'enc, 'err) nxbft" where
  "keep_longest_proposal attestation messages s =
     (case hm_get (nx_longest_recovery_proposal s) attestation of
        None \<Rightarrow> s
      | Some msg \<Rightarrow>
          if length msg < length messages
          then s\<lparr>nx_longest_recovery_proposal := hm_insert attestation messages (nx_longest_recovery_proposal s)\<rparr>
          else s)"

definition process_recovery_proposal ::
    "('enc, 'att, 'hs, 'sig, 'exp, 'err) enclave_ops \<Rightarrow> replica_id \<Rightarrow> ('tx, 'att, 'sig) recovery_proposal \<Rightarrow>
     ('tx, 'att, 'hs, 'sig, 'enc, 'err) nxbft \<Rightarrow> ('tx, 'att, 'hs, 'sig, 'enc, 'err) nxbft option" where
  "process_recovery_proposal E from proposal s =
     do {
       let attestation = rpr_for_attestation proposal;
       s \<leftarrow> nx_process_recovery_request E (rpr_for_id proposal) attestation s;
       if attestation \<in> set (nx_successful_recoveries s) then Some s
       else do {
         res \<leftarrow> enc_verify_attestation E (nx_enclave s) attestation;
         case res of
           Inl e \<Rightarrow> Some (nx_say (SM_Error (NE_EnclaveError e)) s)
         | Inr b \<Rightarrow>
             if \<not> b then Some s
             else do {
               senders \<leftarrow> hm_get (nx_recovery_proposal_senders s) attestation;
               if ids_contains senders from then Some s
               else do {
                 let senders = snd (ids_insert from senders);
                 let s = s\<lparr>nx_recovery_proposal_senders := hm_insert attestation senders (nx_recovery_proposal_senders s)\<rparr>;
                 checked \<leftarrow> verify_proposal E (nx_enclave s) (rpr_messages proposal) [];
                 case checked of
                   Inl e \<Rightarrow> Some (nx_say (SM_Error (NE_EnclaveError e)) s)
                 | Inr None \<Rightarrow> Some s
                 | Inr (Some vs) \<Rightarrow>
                     if list_ex (proposal_row_invalid (nx_quorum s) vs) [0..<length vs] then Some s
                     else
                       let s = keep_longest_proposal attestation (rpr_messages proposal) s
                       in if ids_len senders \<noteq> nx_n s then do { rust_assert (ids_len senders < nx_n s); Some s }
                          else do {
                            messages \<leftarrow> hm_get (nx_longest_recovery_proposal s) attestation;
                            let s = s\<lparr>nx_longest_recovery_proposal := hm_remove attestation (nx_longest_recovery_proposal s)\<rparr>;
                            Some (nx_broadcast_message (M_RecoveryCommit \<lparr>rcm_for_id = rpr_for_id proposal,
                              rcm_for_attestation = attestation, rcm_messages = messages\<rparr>) s)
                          }
               }
             }
       }
     }"

definition count_commits ::
    "('tx, 'att, 'sig) recovery_commit list \<Rightarrow> (('tx, 'att, 'sig) recovery_commit, u64) hash_map" where
  "count_commits commits =
     fold (\<lambda>c counts. hm_insert c ((case hm_get counts c of Some n \<Rightarrow> n | None \<Rightarrow> 0) + 1) counts) commits []"

definition recover_vertex ::
    "replica_id \<Rightarrow> ('tx, 'sig) signed_message \<Rightarrow> round \<times> ('tx, 'att, 'hs, 'sig, 'enc, 'err) nxbft \<Rightarrow>
     (round \<times> ('tx, 'att, 'hs, 'sig, 'enc, 'err) nxbft) option" where
  "recover_vertex for_id m st =
     (case st of (_, s) \<Rightarrow>
        let v = sm_payload m
        in do {
          rust_assert (vx_creator v = for_id);
          known \<leftarrow> dag_knows (nx_dag s) (vx_address v);
          let s = (if \<not> known
                   then nx_say (SM_Verbose (V_BufferedVertex (vx_address v)))
                          (s\<lparr>nx_vertex_buffer := ch_insert vertex_key v (nx_vertex_buffer s)\<rparr>)
                   else s);
          max_round \<leftarrow> id_map_index (nx_max_rounds s) (vx_creator v);
          max_rounds \<leftarrow> (if max_round < vx_round v then id_map_index_mut (nx_max_rounds s) (vx_creator v) (vx_round v)
                       else Some (nx_max_rounds s));
          Some (vx_round v + 1, s\<lparr>nx_max_rounds := max_rounds\<rparr>)
        })"

definition restart_self ::
    "round \<Rightarrow> ('tx, 'att, 'hs, 'sig, 'enc, 'err) nxbft \<Rightarrow> ('tx, 'att, 'hs, 'sig, 'enc, 'err) nxbft option" where
  "restart_self r s =
     do {
       let s = s\<lparr>nx_restart_round := r\<rparr>;
       rust_assert (nx_round s \<le> nx_restart_round s);
       let s = nx_out (uo_set_timeout (nx_vertex_timeout s)) (s\<lparr>nx_in_recovery := False, nx_call_create_vertex := True\<rparr>);
       start \<leftarrow> nx_recovery_start s;
       let (elapsed, clock) = clock_elapsed start (nx_clock s);
       Some (s\<lparr>nx_clock := clock\<rparr>)
     }"

definition nx_commit_recovery ::
    "('enc, 'att, 'hs, 'sig, 'exp, 'err) enclave_ops \<Rightarrow> ('tx, 'z) tx_scheme_scheme \<Rightarrow> ('tx, 'att, 'sig) recovery_commit \<Rightarrow>
     ('tx, 'att, 'hs, 'sig, 'enc, 'err) nxbft \<Rightarrow> ('tx, 'att, 'hs, 'sig, 'enc, 'err) nxbft option" where
  "nx_commit_recovery E T commit s =
     do {
       let for_id = rcm_for_id commit;
       let attestation = rcm_for_attestation commit;
       s \<leftarrow> drop_vertices_of for_id s;
       (r, s) \<leftarrow> fold_opt (recover_vertex for_id) (rcm_messages commit) (0, s);
       counters \<leftarrow> id_map_index_mut (nx_expected_counters s) for_id 0;
       let s = s\<lparr>nx_expected_counters := counters\<rparr>;
       max_round \<leftarrow> id_map_index (nx_max_rounds s) for_id;
       (res, enclave) \<leftarrow> enc_replace_peer E for_id attestation max_round (nx_enclave s);
       let s = s\<lparr>nx_enclave := enclave\<rparr>;
       case res of
         Inl e \<Rightarrow> Some (nx_say (SM_Error (NE_EnclaveError e)) s)
       | Inr _ \<Rightarrow> do {
           s \<leftarrow> (if for_id = nx_me s then restart_self r s else Some s);
           let s = nx_out uo_set_backup_enclave s;
           let s = s\<lparr>nx_seen_recovery_requests := removeAll attestation (nx_seen_recovery_requests s),
             nx_longest_recovery_proposal := hm_remove attestation (nx_longest_recovery_proposal s),
             nx_successful_recoveries := hs_insert attestation (nx_successful_recoveries s),
             nx_currently_recovering := snd (ids_remove for_id (nx_currently_recovering s))\<rparr>;
           traverse_vertex_buffer E T s
         }
     }"

definition process_recovery_commit ::
    "('enc, 'att, 'hs, 'sig, 'exp, 'err) enclave_ops \<Rightarrow> ('tx, 'z) tx_scheme_scheme \<Rightarrow> replica_id \<Rightarrow> ('tx, 'att, 'sig) recovery_commit \<Rightarrow>
     ('tx, 'att, 'hs, 'sig, 'enc, 'err) nxbft \<Rightarrow> ('tx, 'att, 'hs, 'sig, 'enc, 'err) nxbft option" where
  "process_recovery_commit E T from recovery_commit s =
     do {
       let attestation = rcm_for_attestation recovery_commit;
       s \<leftarrow> nx_process_recovery_request E (rcm_for_id recovery_commit) attestation s;
       if attestation \<in> set (nx_successful_recoveries s) then Some s
       else do {
         res \<leftarrow> enc_verify_attestation E (nx_enclave s) attestation;
         case res of
           Inl e \<Rightarrow> Some (nx_say (SM_Error (NE_EnclaveError e)) s)
         | Inr b \<Rightarrow>
             if \<not> b then Some s
             else do {
               commits \<leftarrow> hm_get (nx_recovery_commits s) attestation;
               slot \<leftarrow> id_map_index commits from;
               if slot \<noteq> None then Some s
               else do {
                 commits \<leftarrow> id_map_index_mut commits from (Some recovery_commit);
                 let s = s\<lparr>nx_recovery_commits := hm_insert attestation commits (nx_recovery_commits s)\<rparr>;
                 if of_nat (length (id_map_iter_some commits)) < nx_quorum s then Some s
                 else
                   let (drained, commits) = id_map_drain_lazy_some commits;
                       s = s\<lparr>nx_recovery_commits := hm_insert attestation commits (nx_recovery_commits s)\<rparr>
                   in case find (\<lambda>(commit, n). nx_quorum s \<le> n) (count_commits (map snd drained)) of
                        None \<Rightarrow> Some s
                      | Some (commit, _) \<Rightarrow> do {
                          rust_assert (rcm_for_id commit = rcm_for_id recovery_commit);
                          rust_assert (rcm_for_attestation commit = rcm_for_attestation recovery_commit);
                          nx_commit_recovery E T commit s
                        }
               }
             }
       }
     }"

section \<open>Dispatch and reflection\<close>

definition nx_handle ::
    "('enc, 'att, 'hs, 'sig, 'exp, 'err) enclave_ops \<Rightarrow> ('tx, 'z) tx_scheme_scheme \<Rightarrow> ('tx, 'att, 'hs, 'sig) nx_peer_message \<Rightarrow>
     ('tx, 'att, 'hs, 'sig, 'enc, 'err) nxbft \<Rightarrow> ('tx, 'att, 'hs, 'sig, 'enc, 'err) nxbft option" where
  "nx_handle E T pm s =
     (let from = npm_from pm in
      if nx_n s \<le> from then Some (nx_say (SM_PeerError from PE_InvalidFrom) s)
      else
        case npm_message pm of
          M_Hello attestation \<Rightarrow> Some (process_hello from attestation s)
        | M_HelloEcho creator attestation \<Rightarrow> process_hello_echo E from creator attestation s
        | M_HelloReply handshake \<Rightarrow> process_hello_reply E from handshake s
        | M_Ready \<Rightarrow> Some (process_ready from s)
        | M_Signed msg \<Rightarrow> process_signed_message E T from msg s
        | M_VertexRequest address \<Rightarrow> process_vertex_request from address s
        | M_RecoveryRequest attestation \<Rightarrow> nx_process_recovery_request E from attestation s
        | M_RecoveryCommit commit \<Rightarrow> process_recovery_commit E T from commit s
        | M_RecoveryProposal proposal \<Rightarrow> process_recovery_proposal E from proposal s)"

definition output_append ::
    "('tx, 'att, 'hs, 'sig, 'err) nx_output \<Rightarrow> ('tx, 'att, 'hs, 'sig, 'err) nx_output \<Rightarrow> ('tx, 'att, 'hs, 'sig, 'err) nx_output" where
  "output_append out reflection =
     \<lparr>no_broadcasts = no_broadcasts out @ no_broadcasts reflection, no_unicasts = no_unicasts out @ no_unicasts reflection,
      no_state_messages = no_state_messages out @ no_state_messages reflection, no_vertex_timeout = no_vertex_timeout reflection,
      no_delivery = no_delivery out @ no_delivery reflection,
      no_backup_enclave = (no_backup_enclave out \<or> no_backup_enclave reflection),
      no_decision_times = no_decision_times out @ no_decision_times reflection\<rparr>"

definition reflect_with ::
    "(('tx, 'att, 'hs, 'sig) nx_peer_message \<Rightarrow> ('tx, 'att, 'hs, 'sig, 'enc, 'err) nxbft \<Rightarrow>
       (('tx, 'att, 'hs, 'sig, 'err) nx_output \<times> ('tx, 'att, 'hs, 'sig, 'enc, 'err) nxbft) option) \<Rightarrow>
     ('tx, 'att, 'hs, 'sig, 'enc, 'err) nxbft \<Rightarrow>
     (('tx, 'att, 'hs, 'sig, 'err) nx_output \<times> ('tx, 'att, 'hs, 'sig, 'enc, 'err) nxbft) option" where
  "reflect_with process s =
     (let out = nx_output s
      in fold_opt (\<lambda>to_reflect (out, s). Option.bind (process to_reflect s) (\<lambda>(reflection, s). Some (output_append out reflection, s)))
           (uo_reflection_messages out) (nx_output.truncate out, s\<lparr>nx_output := uo_new (nx_me s)\<rparr>))"

lemma fold_opt_mono [partial_function_mono]:
  assumes "\<And>x s. mono_option (\<lambda>f. F f x s)"
  shows "mono_option (\<lambda>f. fold_opt (F f) xs s)"
proof (induction xs arbitrary: s)
  case (Cons x xs)
  then show ?case using assms by (auto intro!: bind_mono)
qed (simp add: monotone_def flat_ord_def)

lemma reflect_with_mono [partial_function_mono]:
  assumes "\<And>pm s. mono_option (\<lambda>f. F f pm s)"
  shows "mono_option (\<lambda>f. reflect_with (F f) s)"
proof -
  have "mono_option (\<lambda>f. case st of (out, s) \<Rightarrow> Option.bind (F f pm s) (\<lambda>(reflection, s). Some (output_append out reflection, s)))" for pm st
    by (cases st) (simp only: prod.case, intro bind_mono assms option.const_mono)
  then show ?thesis unfolding reflect_with_def Let_def by (intro fold_opt_mono)
qed

partial_function (option) nx_process_peer_message ::
    "('enc, 'att, 'hs, 'sig, 'exp, 'err) enclave_ops \<Rightarrow> ('tx, 'z) tx_scheme_scheme \<Rightarrow> ('tx, 'att, 'hs, 'sig) nx_peer_message \<Rightarrow>
     ('tx, 'att, 'hs, 'sig, 'enc, 'err) nxbft \<Rightarrow>
     (('tx, 'att, 'hs, 'sig, 'err) nx_output \<times> ('tx, 'att, 'hs, 'sig, 'enc, 'err) nxbft) option" where
  "nx_process_peer_message E T pm s =
     Option.bind (nx_handle E T pm s) (\<lambda>s. reflect_with (\<lambda>pm s. nx_process_peer_message E T pm s) s)"

definition nx_reflect ::
    "('enc, 'att, 'hs, 'sig, 'exp, 'err) enclave_ops \<Rightarrow> ('tx, 'z) tx_scheme_scheme \<Rightarrow> ('tx, 'att, 'hs, 'sig, 'enc, 'err) nxbft \<Rightarrow>
     (('tx, 'att, 'hs, 'sig, 'err) nx_output \<times> ('tx, 'att, 'hs, 'sig, 'enc, 'err) nxbft) option" where
  "nx_reflect E T s = reflect_with (nx_process_peer_message E T) s"

section \<open>Operations of a replica\<close>

definition init_handshake ::
    "('enc, 'att, 'hs, 'sig, 'exp, 'err) enclave_ops \<Rightarrow> ('tx, 'z) tx_scheme_scheme \<Rightarrow> ('tx, 'att, 'hs, 'sig, 'enc, 'err) nxbft \<Rightarrow>
     (('tx, 'att, 'hs, 'sig, 'err) nx_output \<times> ('tx, 'att, 'hs, 'sig, 'enc, 'err) nxbft) option" where
  "init_handshake E T s =
     do {
       rust_assert (\<not> nx_ready s);
       (res, enclave) \<leftarrow> enc_init E (nx_enclave s);
       let s = s\<lparr>nx_enclave := enclave\<rparr>;
       case res of
         Inl e \<Rightarrow> nx_reflect E T (nx_say (SM_Error (NE_EnclaveError e)) s)
       | Inr _ \<Rightarrow> do {
           (res, enclave) \<leftarrow> enc_get_attestation_certificate E (nx_enclave s);
           let s = s\<lparr>nx_enclave := enclave\<rparr>;
           case res of
             Inl e \<Rightarrow> nx_reflect E T (nx_say (SM_Error (NE_EnclaveError e)) s)
           | Inr attestation \<Rightarrow> nx_reflect E T (nx_broadcast_message (M_Hello attestation) s)
         }
     }"

definition receive_client_request ::
    "('enc, 'att, 'hs, 'sig, 'exp, 'err) enclave_ops \<Rightarrow> ('tx, 'z) tx_scheme_scheme \<Rightarrow> 'tx \<Rightarrow> ('tx, 'att, 'hs, 'sig, 'enc, 'err) nxbft \<Rightarrow>
     (('tx, 'att, 'hs, 'sig, 'err) nx_output \<times> ('tx, 'att, 'hs, 'sig, 'enc, 'err) nxbft) option" where
  "receive_client_request E T transaction s =
     do {
       pcr \<leftarrow> pcr_insert transaction (nx_pending_client_requests s);
       let s = s\<lparr>nx_pending_client_requests := pcr\<rparr>;
       s \<leftarrow> (if nx_ready s \<and> \<not> nx_in_recovery s \<and> nx_call_create_vertex s then map_option snd (create_vertex E T False s) else Some s);
       nx_reflect E T s
     }"

definition process_vertex_timeout ::
    "('enc, 'att, 'hs, 'sig, 'exp, 'err) enclave_ops \<Rightarrow> ('tx, 'z) tx_scheme_scheme \<Rightarrow> ('tx, 'att, 'hs, 'sig, 'enc, 'err) nxbft \<Rightarrow>
     (('tx, 'att, 'hs, 'sig, 'err) nx_output \<times> ('tx, 'att, 'hs, 'sig, 'enc, 'err) nxbft) option" where
  "process_vertex_timeout E T s =
     do {
       s \<leftarrow> (if nx_ready s \<and> \<not> nx_in_recovery s \<and> nx_allow_timeout s then map_option snd (create_vertex E T True s) else Some s);
       nx_reflect E T s
     }"

definition backup_enclave ::
    "('enc, 'att, 'hs, 'sig, 'exp, 'err) enclave_ops \<Rightarrow> ('tx, 'att, 'hs, 'sig, 'enc, 'err) nxbft \<Rightarrow> ('tx, 'att, 'sig, 'exp) nx_backup option" where
  "backup_enclave E s =
     do {
       res \<leftarrow> enc_export E (nx_enclave s);
       case res of
         Inl _ \<Rightarrow> None
       | Inr enclave \<Rightarrow> Some \<lparr>bk_n = nx_n s, bk_quorum = nx_quorum s, bk_me = nx_me s, bk_round = nx_round s,
           bk_decided_wave = nx_decided_wave s, bk_dag = nx_dag s, bk_client_last_request = nx_client_last_request s,
           bk_expected_counters = nx_expected_counters s, bk_highest_rounds = nx_highest_rounds s,
           bk_vertex_buffer = nx_vertex_buffer s, bk_pending_wave_coins = nx_pending_wave_coins s,
           bk_vertex_timeout = nx_vertex_timeout s, bk_min_vertex_size = nx_min_vertex_size s,
           bk_max_vertex_size = nx_max_vertex_size s, bk_enclave = enclave,
           bk_seen_recovery_requests = nx_seen_recovery_requests s, bk_successful_recoveries = nx_successful_recoveries s,
           bk_recovery_proposal_senders = nx_recovery_proposal_senders s, bk_max_rounds = nx_max_rounds s\<rparr>
     }"

definition nx_restored ::
    "clock \<Rightarrow> ('tx, 'att, 'sig, 'exp) nx_backup \<Rightarrow> 'enc \<Rightarrow> ('tx, 'att, 'hs, 'sig, 'enc, 'err) nxbft" where
  "nx_restored clock b enclave =
     (let (start, clock) = clock_now clock; (now, clock) = clock_now clock
      in \<lparr>nx_n = bk_n b, nx_quorum = bk_quorum b, nx_me = bk_me b, nx_round = bk_round b, nx_decided_wave = bk_decided_wave b,
          nx_dag = bk_dag b, nx_hello_reply_count = bk_n b, nx_ready = True, nx_call_create_vertex = False, nx_in_recovery = True,
          nx_hello_set = ids_with_capacity (bk_n b), nx_ready_set = ids_with_capacity (bk_n b), nx_hello_map = [],
          nx_pending_client_requests = pcr_new (bk_max_vertex_size b), nx_client_last_request = bk_client_last_request b,
          nx_expected_counters = bk_expected_counters b, nx_highest_rounds = bk_highest_rounds b,
          nx_message_buffers = id_map_new hb_default (bk_n b), nx_vertex_buffer = bk_vertex_buffer b, nx_enclave = enclave,
          nx_pending_wave_coins = bk_pending_wave_coins b, nx_cached_hello_replies = [], nx_pending_vertices = [],
          nx_vertex_requests = [], nx_vertex_timeout = bk_vertex_timeout b, nx_allow_timeout = False,
          nx_min_vertex_size = bk_min_vertex_size b, nx_max_vertex_size = bk_max_vertex_size b, nx_restart_round = 0,
          nx_recovery_proposal_senders = bk_recovery_proposal_senders b, nx_longest_recovery_proposal = [],
          nx_currently_recovering = ids_with_capacity (bk_n b), nx_recovery_commits = [],
          nx_seen_recovery_requests = bk_seen_recovery_requests b, nx_successful_recoveries = bk_successful_recoveries b,
          nx_output = uo_new (bk_me b), nx_max_rounds = bk_max_rounds b, nx_recovery_start = Some start,
          nx_last_vertex_created_at = now, nx_clock = clock\<rparr>)"

definition init_recovery ::
    "('enc, 'att, 'hs, 'sig, 'exp, 'err) enclave_ops \<Rightarrow> ('tx, 'z) tx_scheme_scheme \<Rightarrow> clock \<Rightarrow> ('tx, 'att, 'sig, 'exp) nx_backup \<Rightarrow>
     ('err + ('tx, 'att, 'hs, 'sig, 'enc, 'err) nxbft \<times> ('tx, 'att, 'hs, 'sig, 'err) nx_output) option" where
  "init_recovery E T clock b =
     do {
       enc \<leftarrow> enc_new E (bk_n b);
       (res, enc) \<leftarrow> enc_recover E (bk_enclave b) enc;
       case res of
         Inl e \<Rightarrow> Some (Inl e)
       | Inr _ \<Rightarrow> do {
           (res, enc) \<leftarrow> enc_get_attestation_certificate E enc;
           case res of
             Inl e \<Rightarrow> Some (Inl e)
           | Inr attestation \<Rightarrow> do {
               (out, s) \<leftarrow> nx_reflect E T (nx_broadcast_message (M_RecoveryRequest attestation) (nx_restored clock b enc));
               Some (Inr (s, out))
             }
         }
     }"

end
