(* ===== verification/Nxbft_Order.thy ===== *)
theory Nxbft_Order
  imports Nxbft_Dag_Paths "HOL-Library.Sublist"
begin

text \<open>
  What the decision of waves computes, on DAGs alone: the chain of leaders below the leader of a wave, the order in which
  the vertices below the leaders are delivered, and that two DAGs that agree on the edges of their common vertices
  never disagree about either, once enough vertices of a wave reach its leader.
\<close>

section \<open>DAGs that agree\<close>

definition consistent :: "('tx, 'sig) dag \<Rightarrow> ('tx, 'sig) dag \<Rightarrow> bool" where
  "consistent d e \<longleftrightarrow> dag_n d = dag_n e \<and>
     (\<forall>a m m'. dag_meta d a = Some m \<longrightarrow> dag_meta e a = Some m' \<longrightarrow> vx_edges (vm_vertex m) = vx_edges (vm_vertex m'))"

lemma consistent_sym: "consistent d e \<Longrightarrow> consistent e d"
  unfolding consistent_def by metis

lemma consistent_refl [simp]: "consistent d d"
  by (simp add: consistent_def)

lemma consistent_edge:
  assumes "consistent d e" "dag_edge d a b" "dag_meta e a \<noteq> None"
  shows "dag_edge e a b"
  using assms unfolding consistent_def dag_edge_def by fastforce

lemma consistent_path:
  assumes "dag_path d a b" "consistent d e" "dag_ok e" "dag_meta e a \<noteq> None"
  shows "dag_path e a b \<and> dag_meta e b \<noteq> None"
  using assms(1)
proof (induction rule: rtranclp_induct)
  case base
  then show ?case using assms(4) by simp
next
  case (step y z)
  then have "dag_edge e y z" using consistent_edge [OF assms(2) step(2)] by blast
  then show ?case using step dag_edge_known [OF assms(3)] by (auto intro: rtranclp.rtrancl_into_rtrancl)
qed

lemma consistent_path_iff:
  assumes "consistent d e" "dag_ok d" "dag_ok e" "dag_meta d a \<noteq> None" "dag_meta e a \<noteq> None"
  shows "dag_path d a b \<longleftrightarrow> dag_path e a b"
  using consistent_path [OF _ assms(1,3,5)] consistent_path [OF _ consistent_sym [OF assms(1)] assms(2,4)] by blast

section \<open>The chain of leaders\<close>

definition leader :: "(wave \<Rightarrow> replica_id) \<Rightarrow> nat \<Rightarrow> dag_address" where
  "leader coin k = DagAddress (of_nat (4 * (k - 1) + 1)) (coin (of_nat k))"

fun chain :: "('tx, 'sig) dag \<Rightarrow> (wave \<Rightarrow> replica_id) \<Rightarrow> dag_address \<Rightarrow> nat \<Rightarrow> dag_address list" where
  "chain d coin v 0 = []"
| "chain d coin v (Suc k) =
     (let u = leader coin (Suc k)
      in if dag_meta d u \<noteq> None \<and> dag_path d v u then u # chain d coin u k else chain d coin v k)"

definition leaders :: "('tx, 'sig) dag \<Rightarrow> (wave \<Rightarrow> replica_id) \<Rightarrow> nat \<Rightarrow> dag_address list" where
  "leaders d coin k = (if k = 0 then [] else rev (leader coin k # chain d coin (leader coin k) (k - 1)))"

fun chain_above :: "nat \<Rightarrow> ('tx, 'sig) dag \<Rightarrow> (wave \<Rightarrow> replica_id) \<Rightarrow> dag_address \<Rightarrow> nat \<Rightarrow> dag_address list" where
  "chain_above lo d coin v 0 = []"
| "chain_above lo d coin v (Suc k) =
     (if k < lo then []
      else let u = leader coin (Suc k)
        in if dag_meta d u \<noteq> None \<and> dag_path d v u then u # chain_above lo d coin u k else chain_above lo d coin v k)"

lemma chain_split:
  "lo \<le> k \<Longrightarrow> chain d coin v k = chain_above lo d coin v k @ chain d coin (last (v # chain_above lo d coin v k)) lo"
proof (induction k arbitrary: v)
  case (Suc k)
  then show ?case by (cases "lo = Suc k") (auto simp: Let_def)
qed simp

lemma chain_above_leaders:
  assumes "u \<in> set (chain_above lo d coin v k)"
  shows "\<exists>j. lo < j \<and> j \<le> k \<and> u = leader coin j \<and> dag_meta d u \<noteq> None"
  using assms
proof (induction k arbitrary: v)
  case (Suc k)
  then show ?case by (fastforce simp: Let_def split: if_splits)
qed simp

lemma chain_known: "u \<in> set (chain d coin v k) \<Longrightarrow> dag_meta d u \<noteq> None"
proof (induction k arbitrary: v)
  case (Suc k)
  then show ?case by (auto simp: Let_def split: if_splits)
qed simp

lemma leaders_known: "u \<in> set (leaders d coin k) \<Longrightarrow> dag_meta d (leader coin k) \<noteq> None \<Longrightarrow> dag_meta d u \<noteq> None"
  using chain_known by (fastforce simp: leaders_def split: if_splits)

lemma chain_consistent:
  assumes "consistent d e" "dag_ok d" "dag_ok e" "dag_meta d v \<noteq> None" "dag_meta e v \<noteq> None"
  shows "chain d coin v k = chain e coin v k"
  using assms(4,5)
proof (induction k arbitrary: v)
  case (Suc k)
  let ?u = "leader coin (Suc k)"
  have "(dag_meta d ?u \<noteq> None \<and> dag_path d v ?u) = (dag_meta e ?u \<noteq> None \<and> dag_path e v ?u)"
    using consistent_path [OF _ assms(1,3) Suc.prems(2)] consistent_path [OF _ consistent_sym [OF assms(1)] assms(2) Suc.prems(1)] by blast
  then show ?case using Suc.IH [of v] Suc.IH [of ?u] Suc.prems by (auto simp: Let_def)
qed simp

lemma leaders_consistent:
  assumes "consistent d e" "dag_ok d" "dag_ok e" "k \<noteq> 0 \<Longrightarrow> dag_meta d (leader coin k) \<noteq> None" "k \<noteq> 0 \<Longrightarrow> dag_meta e (leader coin k) \<noteq> None"
  shows "leaders d coin k = leaders e coin k"
  using chain_consistent [OF assms(1-3)] assms(4,5) by (auto simp: leaders_def)

section \<open>Quorums\<close>

definition quorum_edges :: "nat \<Rightarrow> ('tx, 'sig) dag \<Rightarrow> bool" where
  "quorum_edges q d \<longleftrightarrow> (\<forall>a m. dag_meta d a = Some m \<longrightarrow> addr_round a \<noteq> 1 \<longrightarrow> q \<le> fcard (vx_edges (vm_vertex m)))"

definition reaching :: "('tx, 'sig) dag \<Rightarrow> (wave \<Rightarrow> replica_id) \<Rightarrow> nat \<Rightarrow> replica_id set" where
  "reaching d coin k = {c. dag_meta d (DagAddress (of_nat (4 * k)) c) \<noteq> None \<and>
     dag_path d (DagAddress (of_nat (4 * k)) c) (leader coin k)}"

definition committed :: "nat \<Rightarrow> ('tx, 'sig) dag \<Rightarrow> (wave \<Rightarrow> replica_id) \<Rightarrow> nat \<Rightarrow> bool" where
  "committed q d coin k \<longleftrightarrow> k \<noteq> 0 \<and> 4 * k \<le> isize_max \<and> dag_meta d (leader coin k) \<noteq> None \<and> q \<le> card (reaching d coin k)"

lemma ids_below_card: "card {c :: u64. c < n} = unat n" "finite {c :: u64. c < n}"
proof -
  have "bij_betw unat {c :: u64. c < n} {..<unat n}"
  proof (rule bij_betw_byWitness [where f' = of_nat])
    show "\<forall>i \<in> {..<unat n}. unat (of_nat i :: u64) = i" using unat_of_nat_below [of _ n] by simp
    show "of_nat ` {..<unat n} \<subseteq> {c. c < n}" using unat_of_nat_below [of _ n] by (auto simp: word_less_nat_alt)
  qed (auto simp: word_less_nat_alt)
  then show "card {c :: u64. c < n} = unat n" "finite {c :: u64. c < n}"
    by (simp_all add: bij_betw_same_card bij_betw_finite)
qed

lemma quorums_meet:
  fixes A B :: "u64 set"
  assumes "A \<subseteq> {c. c < n}" "B \<subseteq> {c. c < n}" "q \<le> card A" "q \<le> card B" "unat n < 2 * q"
  shows "\<exists>c. c \<in> A \<and> c \<in> B"
proof (rule ccontr)
  assume "\<not> ?thesis"
  then have "A \<inter> B = {}" by blast
  then have "card A + card B = card (A \<union> B)"
    using assms(1,2) finite_subset [OF _ ids_below_card(2)] by (metis card_Un_disjoint)
  also have "\<dots> \<le> unat n" using card_mono [OF ids_below_card(2), of "A \<union> B" n] assms(1,2) by (simp add: ids_below_card(1))
  finally show False using assms(3-5) by linarith
qed

lemma committed_reached:
  assumes "consistent d e" "dag_ok d" "dag_ok e" "quorum_edges q e" "unat (dag_n e) < 2 * q" "committed q d coin k"
    and "dag_meta e x \<noteq> None" "4 * k < unat (addr_round x)"
  shows "dag_path e x (leader coin k) \<and> dag_meta e (leader coin k) \<noteq> None"
  using assms(7,8)
proof (induction "unat (addr_round x)" arbitrary: x rule: less_induct)
  case less
  obtain m where m: "dag_meta e x = Some m" using less.prems by auto
  let ?Q = "fset (vx_edges (vm_vertex m))"
  have k: "unat (of_nat (4 * k) :: u64) = 4 * k" "k \<noteq> 0"
    using assms(6) by - (rule unat_of_nat_u64, simp_all add: committed_def isize_max_def u64_max_def)
  have r1: "addr_round x \<noteq> 1" using less.prems(2) k(2) by (auto simp: word_unat_eq_iff)
  then have Q: "q \<le> card ?Q" using assms(4) m by (simp add: quorum_edges_def fcard.rep_eq)
  have known: "dag_meta e (DagAddress (addr_round x - 1) c) \<noteq> None" "dag_edge e x (DagAddress (addr_round x - 1) c)" if "c \<in> ?Q" for c
    using that m assms(3) by (auto simp: dag_ok_def vertex_ok_def dag_edge_def)
  have below: "?Q \<subseteq> {c. c < dag_n e}" using known(1) dag_meta_creator by fastforce
  have dec: "unat (addr_round x - 1) = unat (addr_round x) - 1" using less.prems(2) by (intro unat_minus_one) auto
  show ?case
  proof (cases "unat (addr_round x) = Suc (4 * k)")
    case True
    then have eq: "addr_round x - 1 = of_nat (4 * k)" using dec k(1) by (simp add: word_unat_eq_iff)
    have "reaching d coin k \<subseteq> {c. c < dag_n e}"
      using assms(1) dag_meta_creator by (fastforce simp: reaching_def consistent_def)
    then obtain c where c: "c \<in> ?Q" "c \<in> reaching d coin k"
      using quorums_meet [OF below _ Q] assms(5,6) by (auto simp: committed_def)
    let ?c = "DagAddress (of_nat (4 * k)) c"
    have "dag_path d ?c (leader coin k)" "dag_meta e ?c \<noteq> None" using c(2) known(1) [OF c(1)] unfolding reaching_def eq by simp_all
    then have "dag_path e ?c (leader coin k) \<and> dag_meta e (leader coin k) \<noteq> None" by (rule consistent_path [OF _ assms(1,3)])
    then show ?thesis using known(2) [OF c(1)] by (auto simp: eq intro: converse_rtranclp_into_rtranclp)
  next
    case False
    have "?Q \<noteq> {}" using Q assms(5) by (cases q) auto
    then obtain c where c: "c \<in> ?Q" by blast
    have "dag_path e (DagAddress (addr_round x - 1) c) (leader coin k) \<and> dag_meta e (leader coin k) \<noteq> None"
      using less.hyps [of "DagAddress (addr_round x - 1) c"] known(1) [OF c] dec False less.prems(2) by simp
    then show ?thesis using known(2) [OF c] by (auto intro: converse_rtranclp_into_rtranclp)
  qed
qed

lemma leader_round:
  assumes "0 < j" "4 * j \<le> isize_max"
  shows "unat (addr_round (leader coin j)) = 4 * (j - 1) + 1"
  unfolding leader_def dag_address.sel using assms by (intro unat_of_nat_u64) (simp add: isize_max_def u64_max_def)

lemma leaders_extend:
  assumes "dag_ok e" "4 * j \<le> isize_max" "dag_meta e (leader coin j) \<noteq> None" "k < j" "0 < k"
    and reached: "\<And>x. dag_meta e x \<noteq> None \<Longrightarrow> 4 * k < unat (addr_round x) \<Longrightarrow> dag_path e x (leader coin k) \<and> dag_meta e (leader coin k) \<noteq> None"
  shows "leaders e coin j = leaders e coin k @ rev (leader coin j # chain_above k e coin (leader coin j) (j - 1))"
proof -
  let ?C = "chain_above k e coin (leader coin j) (j - 1)" and ?u = "last (leader coin j # chain_above k e coin (leader coin j) (j - 1))"
  have "\<exists>i. k < i \<and> i \<le> j \<and> ?u = leader coin i \<and> dag_meta e ?u \<noteq> None"
  proof (cases "?C = []")
    case True
    then show ?thesis using assms(3,4) by auto
  next
    case False
    then show ?thesis using chain_above_leaders [of ?u k e coin "leader coin j" "j - 1"] by auto
  qed
  then obtain i where i: "k < i" "i \<le> j" "?u = leader coin i" "dag_meta e ?u \<noteq> None" by blast
  have "4 * k < unat (addr_round ?u)" using leader_round [of i coin] i assms(2) by simp
  then have "dag_path e ?u (leader coin k) \<and> dag_meta e (leader coin k) \<noteq> None" using reached [OF i(4)] by blast
  then have "chain e coin ?u k = leader coin k # chain e coin (leader coin k) (k - 1)" using assms(5) by (cases k) (auto simp: Let_def)
  moreover have "chain e coin (leader coin j) (j - 1) = ?C @ chain e coin ?u k" by (rule chain_split) (use assms(4) in simp)
  ultimately show ?thesis using assms(4,5) by (simp add: leaders_def)
qed

lemma leaders_prefix:
  assumes "consistent d e" "dag_ok d" "dag_ok e" "quorum_edges q e" "unat (dag_n e) < 2 * q"
    and "k \<noteq> 0 \<Longrightarrow> committed q d coin k" "j \<noteq> 0 \<Longrightarrow> committed q e coin j" "k \<le> j"
  shows "prefix (leaders d coin k) (leaders e coin j)"
proof -
  consider "k = 0" | "k \<noteq> 0" "k = j" | "k \<noteq> 0" "k < j" using assms(8) by linarith
  then show ?thesis
  proof cases
    case 1
    then show ?thesis by (simp add: leaders_def)
  next
    case 2
    then have "leaders d coin k = leaders e coin j" using leaders_consistent [OF assms(1-3)] assms(6,7) by (simp add: committed_def)
    then show ?thesis by simp
  next
    case 3
    have j: "dag_meta e (leader coin j) \<noteq> None" "4 * j \<le> isize_max" using assms(7) 3 by (auto simp: committed_def)
    note reached = committed_reached [OF assms(1-5) assms(6) [OF 3(1)]]
    have "4 * k < unat (addr_round (leader coin j))" using leader_round [of j coin] j(2) 3 by simp
    then have "dag_meta e (leader coin k) \<noteq> None" using reached [OF j(1)] by blast
    then have "leaders d coin k = leaders e coin k" using leaders_consistent [OF assms(1-3)] assms(6) 3 by (simp add: committed_def)
    then show ?thesis using leaders_extend [OF assms(3) j(2,1) 3(2)] reached 3(1) by simp
  qed
qed

section \<open>The order of delivery\<close>

text \<open>The DAG with exactly the vertices at the addresses of \<open>D\<close> marked as delivered.\<close>

definition mark :: "dag_address set \<Rightarrow> ('tx, 'sig) vertex_with_meta \<Rightarrow> ('tx, 'sig) vertex_with_meta" where
  "mark D m = m\<lparr>vm_delivered := (vx_address (vm_vertex m) \<in> D)\<rparr>"

definition set_flags :: "dag_address set \<Rightarrow> ('tx, 'sig) dag \<Rightarrow> ('tx, 'sig) dag" where
  "set_flags D d = d\<lparr>dag_rounds := map (\<lambda>r. r\<lparr>dr_vertices := map (map_option (mark D)) (dr_vertices r)\<rparr>) (dag_rounds d)\<rparr>"

lemma set_flags_shape: "dag_shape d \<Longrightarrow> dag_shape (set_flags D d)"
  by (auto simp: dag_shape_def set_flags_def)

lemma set_flags_meta:
  assumes "dag_shape d"
  shows "dag_meta (set_flags D d) a = map_option (mark D) (dag_meta d a)"
proof (cases "addr_creator a < dag_n d \<and> addr_round a \<noteq> 0 \<and> addr_round a \<le> dag_max_round d")
  case True
  then have i: "unat (addr_round a) - 1 < length (dag_rounds d)" using round_index(2) [OF assms] by blast
  then have "length (dr_vertices (dag_rounds d ! (unat (addr_round a) - 1))) = unat (dag_n d)" using assms by (auto simp: dag_shape_def)
  then show ?thesis unfolding dag_meta_eq [OF assms] dag_meta_eq [OF set_flags_shape [OF assms]] using True i
    by (simp add: set_flags_def word_less_nat_alt)
next
  case False
  then show ?thesis unfolding dag_meta_eq [OF assms] dag_meta_eq [OF set_flags_shape [OF assms]] by (auto simp: set_flags_def)
qed

lemma set_flags_edge:
  assumes "dag_shape d"
  shows "dag_edge (set_flags D d) = dag_edge d"
  by (auto simp: fun_eq_iff dag_edge_def set_flags_meta [OF assms] mark_def)

lemma set_flags_ok:
  assumes "dag_ok d"
  shows "dag_ok (set_flags D d)"
proof -
  have shape: "dag_shape d" using assms by (simp add: dag_ok_def)
  then show ?thesis using assms set_flags_shape [OF shape] by (auto simp: dag_ok_def vertex_ok_def set_flags_meta mark_def)
qed

lemma set_flags_delivered:
  assumes "dag_ok d"
  shows "delivered_set (set_flags D d) = {a \<in> D. dag_meta d a \<noteq> None}"
  using assms by (auto simp: delivered_set_def dag_ok_def vertex_ok_def set_flags_meta mark_def)

definition dfs :: "('tx, 'sig) dag \<Rightarrow> dag_address set \<Rightarrow> dag_address \<Rightarrow> dag_address list" where
  "dfs d D l = (case deliver_from l 0 (set_flags D d) of Some (ds, _) \<Rightarrow> ds | None \<Rightarrow> [])"

fun linearize :: "('tx, 'sig) dag \<Rightarrow> dag_address set \<Rightarrow> dag_address list \<Rightarrow> dag_address list" where
  "linearize d D [] = []"
| "linearize d D (l # ls) = dfs d D l @ linearize d (D \<union> set (dfs d D l)) ls"

lemma linearize_append: "linearize d D (ls @ ls') = linearize d D ls @ linearize d (D \<union> set (linearize d D ls)) ls'"
  by (induction ls arbitrary: D) (simp_all add: Un_assoc)

lemma deliver_from_local:
  assumes "deliver_from l 0 d = Some (ds, d')" "dag_ok d" "dag_ok e" "l \<in> A" "closed_by (dag_edge d) A" "agree_on A d e"
  shows "\<exists>e'. deliver_from l 0 e = Some (ds, e')"
proof -
  have shape: "dag_shape d" "dag_shape e" using assms(2,3) by (simp_all add: dag_ok_def)
  obtain m where m: "dag_meta d l = Some m" using assms(1) by (auto simp: deliver_from_def split: bind_splits)
  obtain m' where m': "dag_meta e l = Some m'" "vm_delivered m' = vm_delivered m" using agree_onD [OF assms(6,4) m] by blast
  have known: "dag_knows d l = Some True" "dag_knows e l = Some True" using dag_knows_known shape m m' by blast+
  have closed: "closed_by (depth_edge d 0) A" using assms(5) by (simp add: closed_by_def depth_edge_def)
  show ?thesis
  proof (cases "vm_delivered m")
    case True
    then show ?thesis using assms(1) m m' known by (auto simp: deliver_from_def rust_assert_def)
  next
    case False
    then have run: "deliver_loop 0 [l] [] d = Some (ds, d')" using assms(1) m known by (simp add: deliver_from_def rust_assert_def)
    have "set [l] \<subseteq> A" using assms(4) by simp
    from deliver_loop_local [OF run assms(2,3) this closed assms(6)] show ?thesis
      using False m' known by (auto simp: deliver_from_def rust_assert_def)
  qed
qed

text \<open>The order depends on the edges of the common vertices only.\<close>

lemma dfs_runs:
  assumes "dag_ok d" "dag_meta d l \<noteq> None" "closed_by (dag_edge d) {a \<in> D. dag_meta d a \<noteq> None}"
  shows "\<exists>d'. deliver_from l 0 (set_flags D d) = Some (dfs d D l, d')"
    and "set (dfs d D l) = {b. dag_path d l b} - {a \<in> D. dag_meta d a \<noteq> None}"
proof -
  have shape: "dag_shape d" using assms(1) by (simp add: dag_ok_def)
  have edge: "depth_edge (set_flags D d) 0 = dag_edge d"
    by (simp add: fun_eq_iff depth_edge_def set_flags_edge [OF shape])
  obtain ds d' where run: "deliver_from l 0 (set_flags D d) = Some (ds, d')"
    "set ds = {b. dag_path d l b} - delivered_set (set_flags D d)"
    using deliver_from_spec [OF set_flags_ok [OF assms(1), of D], of l 0] assms
    unfolding edge set_flags_delivered [OF assms(1)] by (auto simp: set_flags_meta [OF shape])
  then show "\<exists>d'. deliver_from l 0 (set_flags D d) = Some (dfs d D l, d')"
    "set (dfs d D l) = {b. dag_path d l b} - {a \<in> D. dag_meta d a \<noteq> None}"
    using set_flags_delivered [OF assms(1), of D] by (simp_all add: dfs_def)
qed

lemma dfs_consistent:
  assumes "consistent d e" "dag_ok d" "dag_ok e" "dag_meta d l \<noteq> None" "dag_meta e l \<noteq> None"
    and "closed_by (dag_edge d) {a \<in> D. dag_meta d a \<noteq> None}"
  shows "dfs d D l = dfs e D l"
proof -
  have shape: "dag_shape d" "dag_shape e" using assms(2,3) by (simp_all add: dag_ok_def)
  let ?A = "{x. dag_meta d x \<noteq> None \<and> dag_meta e x \<noteq> None}"
  obtain d' where run: "deliver_from l 0 (set_flags D d) = Some (dfs d D l, d')" using dfs_runs(1) [OF assms(2,4,6)] by blast
  have "closed_by (dag_edge (set_flags D d)) ?A"
    unfolding closed_by_def set_flags_edge [OF shape(1)]
    using dag_edge_known [OF assms(2)] dag_edge_known [OF assms(3)] consistent_edge [OF assms(1)] by blast
  moreover have "agree_on ?A (set_flags D d) (set_flags D e)" unfolding agree_on_def
  proof
    fix x assume "x \<in> ?A"
    then obtain m m' where m: "dag_meta d x = Some m" "dag_meta e x = Some m'" by auto
    then have "vx_address (vm_vertex m) = x" "vx_address (vm_vertex m') = x" using assms(2,3) by (auto simp: dag_ok_def vertex_ok_def)
    moreover have "vx_edges (vm_vertex m) = vx_edges (vm_vertex m')" using assms(1) m by (simp add: consistent_def)
    ultimately show "map_option (\<lambda>m. (vx_edges (vm_vertex m), vm_delivered m)) (dag_meta (set_flags D d) x) =
      map_option (\<lambda>m. (vx_edges (vm_vertex m), vm_delivered m)) (dag_meta (set_flags D e) x)"
      using m by (simp add: set_flags_meta shape mark_def)
  qed
  ultimately have "\<exists>e'. deliver_from l 0 (set_flags D e) = Some (dfs d D l, e')"
    using deliver_from_local [OF run set_flags_ok [OF assms(2)] set_flags_ok [OF assms(3)], of ?A] assms(4,5) by blast
  then show ?thesis by (auto simp: dfs_def)
qed

lemma dfs_actual:
  assumes "deliver_from l 0 d = Some (ds, d')" "dag_ok d" "delivered_set d = D"
  shows "ds = dfs d D l"
proof -
  have shape: "dag_shape d" using assms(2) by (simp add: dag_ok_def)
  have "agree_on UNIV d (set_flags D d)" unfolding agree_on_def
  proof
    fix x show "map_option (\<lambda>m. (vx_edges (vm_vertex m), vm_delivered m)) (dag_meta d x) =
      map_option (\<lambda>m. (vx_edges (vm_vertex m), vm_delivered m)) (dag_meta (set_flags D d) x)"
    proof (cases "dag_meta d x")
      case (Some m)
      then have "vx_address (vm_vertex m) = x" using assms(2) by (auto simp: dag_ok_def vertex_ok_def)
      then show ?thesis using Some assms(3) by (auto simp: set_flags_meta [OF shape] mark_def delivered_set_def)
    qed (simp add: set_flags_meta [OF shape])
  qed
  then have "\<exists>e'. deliver_from l 0 (set_flags D d) = Some (ds, e')"
    using deliver_from_local [OF assms(1,2) set_flags_ok [OF assms(2)], of UNIV] by (simp add: closed_by_def)
  then show ?thesis by (auto simp: dfs_def)
qed

lemma closed_by_Un: "closed_by E A \<Longrightarrow> closed_by E B \<Longrightarrow> closed_by E (A \<union> B)"
  by (auto simp: closed_by_def)

lemma dfs_closed:
  assumes "dag_ok d" "dag_meta d l \<noteq> None" "closed_by (dag_edge d) {a \<in> D. dag_meta d a \<noteq> None}"
  shows "closed_by (dag_edge d) {a \<in> D \<union> set (dfs d D l). dag_meta d a \<noteq> None}"
proof -
  have "dag_meta d b \<noteq> None" if "dag_path d l b" for b using dag_path_known [OF that assms(1,2)] .
  then have "{a \<in> D \<union> set (dfs d D l). dag_meta d a \<noteq> None} = {a \<in> D. dag_meta d a \<noteq> None} \<union> {b. dag_path d l b}"
    unfolding dfs_runs(2) [OF assms] by blast
  moreover have "closed_by (dag_edge d) {b. dag_path d l b}"
    unfolding closed_by_def using rtranclp.rtrancl_into_rtrancl [of "dag_edge d" l] by blast
  ultimately show ?thesis using assms(3) by (simp only: closed_by_Un)
qed

lemma linearize_consistent:
  assumes "consistent d e" "dag_ok d" "dag_ok e" "\<forall>l \<in> set ls. dag_meta d l \<noteq> None \<and> dag_meta e l \<noteq> None"
    and "closed_by (dag_edge d) {a \<in> D. dag_meta d a \<noteq> None}"
  shows "linearize d D ls = linearize e D ls"
  using assms(4,5)
proof (induction ls arbitrary: D)
  case (Cons l ls)
  have l: "dag_meta d l \<noteq> None" "dag_meta e l \<noteq> None" using Cons.prems(1) by auto
  have "dfs d D l = dfs e D l" using dfs_consistent [OF assms(1-3) l Cons.prems(2)] .
  moreover have "linearize d (D \<union> set (dfs d D l)) ls = linearize e (D \<union> set (dfs d D l)) ls"
    using Cons.IH [OF _ dfs_closed [OF assms(2) l(1) Cons.prems(2)]] Cons.prems(1) by simp
  ultimately show ?case by simp
qed simp

definition order_of :: "('tx, 'sig) dag \<Rightarrow> (wave \<Rightarrow> replica_id) \<Rightarrow> nat \<Rightarrow> dag_address list" where
  "order_of d coin k = linearize d {} (leaders d coin k)"

lemma order_prefix:
  assumes "consistent d e" "dag_ok d" "dag_ok e" "quorum_edges q e" "unat (dag_n e) < 2 * q"
    and "k \<noteq> 0 \<Longrightarrow> committed q d coin k" "j \<noteq> 0 \<Longrightarrow> committed q e coin j" "k \<le> j"
  shows "prefix (order_of d coin k) (order_of e coin j)"
proof -
  obtain ls where ls: "leaders e coin j = leaders d coin k @ ls" using leaders_prefix [OF assms] by (auto simp: prefix_def)
  have "dag_meta d l \<noteq> None \<and> dag_meta e l \<noteq> None" if l: "l \<in> set (leaders d coin k)" for l
  proof -
    have k: "k \<noteq> 0" using l by (cases k) (simp_all add: leaders_def)
    moreover have "l \<in> set (leaders e coin j)" using l ls by simp
    ultimately show ?thesis using leaders_known [OF l] leaders_known [of l e coin j] assms(6-8) by (auto simp: committed_def)
  qed
  then have "linearize d {} (leaders d coin k) = linearize e {} (leaders d coin k)"
    using linearize_consistent [OF assms(1-3), of "leaders d coin k" "{}"] by (simp add: closed_by_def)
  then show ?thesis by (simp add: order_of_def ls linearize_append)
qed

lemma order_extends:
  assumes "consistent d e" "dag_ok d" "dag_ok e" "k \<noteq> 0 \<Longrightarrow> dag_meta d (leader coin k) \<noteq> None" "\<And>a. dag_meta d a \<noteq> None \<Longrightarrow> dag_meta e a \<noteq> None"
  shows "order_of d coin k = order_of e coin k"
proof (cases "k = 0")
  case False
  have eq: "leaders d coin k = leaders e coin k" using leaders_consistent [OF assms(1-3)] assms(4,5) by blast
  have "linearize d {} (leaders d coin k) = linearize e {} (leaders d coin k)"
    using linearize_consistent [OF assms(1-3), of "leaders d coin k" "{}"] leaders_known [of _ d coin k] assms(4,5) False
    by (simp add: closed_by_def)
  then show ?thesis by (simp add: order_of_def eq)
qed (simp add: order_of_def leaders_def)

end
