(* ===== verification/Spec2Isabelle.thy ===== *)
theory Spec2Isabelle
  imports Shared_Ids Heaps_Model Usig_Model Minbft_Config Minbft_Messages Minbft_Validate Order_Enforcer Collectors
    Batchers Minbft_Output Request_Processor
    Minbft_Replica Minbft_View_Change Minbft_Handlers Minbft_Frame Minbft_Safety
    Id_Set Nxbft_Vertex Nxbft_Dag Nxbft_Dag_Paths Nxbft_Enclave Nxbft_Output Nxbft_Replica Nxbft_Order
begin

text \<open>The parts of the development.\<close>

end
